(* ===== verification/Prelude.thy ===== *)
theory Prelude
  imports Main "HOL-Library.Word" "HOL-Library.Multiset" "HOL-Library.Product_Lexorder"
begin

text \<open>
  Shared vocabulary of the irqbalance development: the machine types of the C source, the
  collections of facts the component theories extend, and the generic lemmas on lists that
  every component uses (loops that write an array cell by cell, removal of the first match
  from a list, folds that thread a state).
\<close>

unbundle bit_operations_syntax

section \<open>Machine types\<close>

text \<open>
  The daemon is modelled for an LP64 target: \<open>unsigned long\<close>, \<open>unsigned long long\<close> and
  \<open>uint64_t\<close> are 64 bits wide, \<open>int\<close> is 32 bits wide. Unsigned values keep their width as
  words. Signed values are integers; a definition whose source can leave the range of \<open>int\<close>
  says what it does there.
\<close>

type_synonym u64 = "64 word"
type_synonym u32 = "32 word"
type_synonym u16 = "16 word"

definition INT_MAX :: int where
  "INT_MAX = 2147483647"

definition INT_MIN :: int where
  "INT_MIN = - 2147483648"

text \<open>The value of an unsigned 32-bit quantity converted to \<open>int\<close> (two's complement).\<close>

definition int_of_u64 :: "u64 \<Rightarrow> int" where
  "int_of_u64 w = sint (ucast w :: u32)"

section \<open>Collections of facts\<close>

named_theorems bm_simps \<open>bit-level facts about bitmap operations\<close>
named_theorems frame_simps \<open>what an operation on the daemon state leaves alone\<close>
named_theorems inv_intros \<open>preservation lemmas of the daemon invariants\<close>

section \<open>Loops that write an array\<close>

text \<open>
  \<open>for (k = 0; k < n; k++) dst[k] = f(k);\<close> where \<open>f\<close> does not read \<open>dst\<close>.
\<close>

definition array_loop :: "(nat \<Rightarrow> 'a) \<Rightarrow> nat list \<Rightarrow> 'a list \<Rightarrow> 'a list" where
  "array_loop f ks dst = fold (\<lambda>k d. d[k := f k]) ks dst"

lemma length_array_loop [simp]: "length (array_loop f ks dst) = length dst"
  unfolding array_loop_def by (induction ks arbitrary: dst) auto

lemma nth_array_loop [simp]:
  "i < length dst \<Longrightarrow> array_loop f ks dst ! i = (if i \<in> set ks then f i else dst ! i)"
  unfolding array_loop_def
proof (induction ks arbitrary: dst)
  case Nil
  then show ?case by simp
next
  case (Cons k ks)
  from Cons.prems have "i < length (dst[k := f k])" by simp
  from Cons.IH [OF this] show ?case
    using Cons.prems by (auto simp: nth_list_update)
qed

lemma array_loop_cong:
  "(\<And>k. k \<in> set ks \<Longrightarrow> f k = g k) \<Longrightarrow> array_loop f ks dst = array_loop g ks dst"
  unfolding array_loop_def by (induction ks arbitrary: dst) auto

section \<open>Removing the first match\<close>

text \<open>Looking an element up in a list and unlinking the cell that was found.\<close>

fun remove_first :: "('a \<Rightarrow> bool) \<Rightarrow> 'a list \<Rightarrow> 'a list" where
  "remove_first P [] = []"
| "remove_first P (x # xs) = (if P x then xs else x # remove_first P xs)"

lemma find_SomeD: "find P xs = Some x \<Longrightarrow> x \<in> set xs \<and> P x"
  by (induction xs) (auto split: if_splits)

lemma remove_first_find_None: "find P xs = None \<Longrightarrow> remove_first P xs = xs"
  by (induction xs) (auto split: if_splits)

lemma mset_remove_first:
  "find P xs = Some x \<Longrightarrow> mset xs = add_mset x (mset (remove_first P xs))"
  by (induction xs) (auto split: if_splits)

lemma set_remove_first_subset: "set (remove_first P xs) \<subseteq> set xs"
  by (induction xs) auto

lemma distinct_remove_first [simp]: "distinct xs \<Longrightarrow> distinct (remove_first P xs)"
proof (induction xs)
  case (Cons x xs)
  then show ?case using set_remove_first_subset [of P xs] by auto
qed simp

lemma set_remove_first_distinct:
  "\<lbrakk> distinct xs; find P xs = Some x \<rbrakk> \<Longrightarrow> set (remove_first P xs) = set xs - {x}"
proof (induction xs)
  case (Cons y ys)
  show ?case
  proof (cases "P y")
    case True
    with Cons.prems show ?thesis by auto
  next
    case False
    with Cons have "set (remove_first P ys) = set ys - {x}" "x \<in> set ys" "y \<noteq> x"
      by (auto dest: find_SomeD)
    with False show ?thesis by auto
  qed
qed simp

lemma length_remove_first:
  "find P xs = Some x \<Longrightarrow> length xs = Suc (length (remove_first P xs))"
  by (induction xs) (auto split: if_splits)

lemma find_unique:
  assumes "x \<in> set xs" and "P x" and uniq: "\<forall>y \<in> set xs. P y \<longrightarrow> y = x"
  shows "find P xs = Some x"
proof (cases "find P xs")
  case None
  with assms(1,2) show ?thesis by (auto simp: find_None_iff)
next
  case (Some y)
  then have "y \<in> set xs" "P y" by (auto dest: find_SomeD)
  with uniq Some show ?thesis by blast
qed

section \<open>Folds\<close>

text \<open>An invariant of the body is an invariant of the loop.\<close>

lemma fold_invariant_on:
  assumes "I s" and "\<And>x s. x \<in> set xs \<Longrightarrow> I s \<Longrightarrow> I (f x s)"
  shows "I (fold f xs s)"
  using assms by (induction xs arbitrary: s) auto

text \<open>
  A loop over a list without repetitions whose body consumes a fact \<open>P x\<close> about its own element
  and leaves those of the other elements alone.
\<close>

lemma fold_each:
  assumes "distinct xs" and "I s" and "\<forall>x \<in> set xs. P x s"
    and "\<And>x s. I s \<Longrightarrow> P x s \<Longrightarrow> I (f x s) \<and> (\<forall>y. y \<noteq> x \<longrightarrow> P y s \<longrightarrow> P y (f x s))"
  shows "I (fold f xs s)"
  using assms(1-3)
proof (induction xs arbitrary: s)
  case (Cons x xs)
  from Cons.prems assms(4) [of s x] have "I (f x s)" "\<forall>y. y \<noteq> x \<longrightarrow> P y s \<longrightarrow> P y (f x s)" by auto
  moreover from this Cons.prems have "\<forall>y \<in> set xs. P y (f x s)" by auto
  ultimately show ?case using Cons.IH [of "f x s"] Cons.prems(1) by simp
qed simp

lemma fold_unchanged:
  assumes "\<And>x s. x \<in> set xs \<Longrightarrow> g (f x s) = g s"
  shows "g (fold f xs s) = g s"
  using assms by (induction xs arbitrary: s) auto

end
