(* ===== verification/Bitops.thy ===== *)
theory Bitops
  imports Prelude
begin

text \<open>
  Single-word primitives: the non-atomic bit operations of \<open>non-atomic.h\<close> and the population
  counts and \<open>fls\<close> of \<open>bitmap.h\<close>. A bitmap is an array of \<open>unsigned long\<close>, here a list of
  64-bit words. The bit operations take the \<open>int\<close> bit number of the source; an access outside
  the array (which C leaves undefined) is \<open>None\<close>.
\<close>

section \<open>Bit operations on an array\<close>

definition BITS_PER_LONG :: nat where
  "BITS_PER_LONG = 64"

definition BITS_TO_LONGS :: "nat \<Rightarrow> nat" where
  "BITS_TO_LONGS bits = (bits + BITS_PER_LONG - 1) div BITS_PER_LONG"

definition BITOP_MASK :: "nat \<Rightarrow> u64" where
  "BITOP_MASK nr = push_bit (nr mod BITS_PER_LONG) 1"

definition BITOP_WORD :: "nat \<Rightarrow> nat" where
  "BITOP_WORD nr = nr div BITS_PER_LONG"

text \<open>The word of \<open>addr\<close> that holds bit \<open>nr\<close>, if the array has one.\<close>

definition bitop_access :: "int \<Rightarrow> u64 list \<Rightarrow> nat option" where
  "bitop_access nr addr =
     (if 0 \<le> nr \<and> BITOP_WORD (nat nr) < length addr then Some (nat nr) else None)"

definition set_bit_c :: "int \<Rightarrow> u64 list \<Rightarrow> u64 list option" where
  "set_bit_c nr addr =
     (case bitop_access nr addr of
        None \<Rightarrow> None
      | Some n \<Rightarrow>
          (let p = BITOP_WORD n; mask = BITOP_MASK n
           in Some (addr[p := addr ! p OR mask])))"

definition clear_bit :: "int \<Rightarrow> u64 list \<Rightarrow> u64 list option" where
  "clear_bit nr addr =
     (case bitop_access nr addr of
        None \<Rightarrow> None
      | Some n \<Rightarrow>
          (let p = BITOP_WORD n; mask = BITOP_MASK n
           in Some (addr[p := addr ! p AND NOT mask])))"

definition change_bit :: "int \<Rightarrow> u64 list \<Rightarrow> u64 list option" where
  "change_bit nr addr =
     (case bitop_access nr addr of
        None \<Rightarrow> None
      | Some n \<Rightarrow>
          (let p = BITOP_WORD n; mask = BITOP_MASK n
           in Some (addr[p := addr ! p XOR mask])))"

definition test_and_set_bit :: "int \<Rightarrow> u64 list \<Rightarrow> (bool \<times> u64 list) option" where
  "test_and_set_bit nr addr =
     (case bitop_access nr addr of
        None \<Rightarrow> None
      | Some n \<Rightarrow>
          (let p = BITOP_WORD n; mask = BITOP_MASK n; old = addr ! p
           in Some (old AND mask \<noteq> 0, addr[p := old OR mask])))"

definition test_and_clear_bit :: "int \<Rightarrow> u64 list \<Rightarrow> (bool \<times> u64 list) option" where
  "test_and_clear_bit nr addr =
     (case bitop_access nr addr of
        None \<Rightarrow> None
      | Some n \<Rightarrow>
          (let p = BITOP_WORD n; mask = BITOP_MASK n; old = addr ! p
           in Some (old AND mask \<noteq> 0, addr[p := old AND NOT mask])))"

definition test_and_change_bit :: "int \<Rightarrow> u64 list \<Rightarrow> (bool \<times> u64 list) option" where
  "test_and_change_bit nr addr =
     (case bitop_access nr addr of
        None \<Rightarrow> None
      | Some n \<Rightarrow>
          (let p = BITOP_WORD n; mask = BITOP_MASK n; old = addr ! p
           in Some (old AND mask \<noteq> 0, addr[p := old XOR mask])))"

definition test_bit :: "int \<Rightarrow> u64 list \<Rightarrow> bool option" where
  "test_bit nr addr =
     (case bitop_access nr addr of
        None \<Rightarrow> None
      | Some n \<Rightarrow>
          Some (1 AND drop_bit (n mod BITS_PER_LONG) (addr ! BITOP_WORD n) \<noteq> 0))"

section \<open>Population count and find last set\<close>

definition hweight32 :: "u32 \<Rightarrow> u32" where
  "hweight32 w =
     (let res = w - (drop_bit 1 w AND 0x55555555);
          res = (res AND 0x33333333) + (drop_bit 2 res AND 0x33333333);
          res = (res + drop_bit 4 res) AND 0x0F0F0F0F;
          res = res + drop_bit 8 res
      in (res + drop_bit 16 res) AND 0x000000FF)"

definition hweight64 :: "u64 \<Rightarrow> u64" where
  "hweight64 w =
     (let w = w - (drop_bit 1 w AND 0x5555555555555555);
          w = (w AND 0x3333333333333333) + (drop_bit 2 w AND 0x3333333333333333);
          w = (w + drop_bit 4 w) AND 0x0f0f0f0f0f0f0f0f
      in drop_bit 56 (w * 0x0101010101010101))"

text \<open>\<open>sizeof(w)\<close> is 8 on the modelled target, so \<open>hweight_long\<close> is \<open>hweight64\<close>.\<close>

definition hweight_long :: "u64 \<Rightarrow> u64" where
  "hweight_long w = hweight64 w"

definition fls :: "u32 \<Rightarrow> nat" where
  "fls x =
     (if x = 0 then 0
      else
        let r = 32;
            (x, r) = (if x AND 0xffff0000 = 0 then (push_bit 16 x, r - 16) else (x, r));
            (x, r) = (if x AND 0xff000000 = 0 then (push_bit 8 x, r - 8) else (x, r));
            (x, r) = (if x AND 0xf0000000 = 0 then (push_bit 4 x, r - 4) else (x, r));
            (x, r) = (if x AND 0xc0000000 = 0 then (push_bit 2 x, r - 2) else (x, r));
            (x, r) = (if x AND 0x80000000 = 0 then (push_bit 1 x, r - 1) else (x, r))
        in r)"

section \<open>Reference definitions\<close>

text \<open>The number of set bits among the first \<open>k\<close>, by looking at each.\<close>

definition pop :: "nat \<Rightarrow> nat \<Rightarrow> nat" where
  "pop k n = length (filter (bit n) [0..<k])"

definition popcount :: "'a::len word \<Rightarrow> nat" where
  "popcount w = length (filter (bit w) [0..<LENGTH('a)])"

lemma popcount_eq_card: "popcount w = card {i. bit w i}" for w :: "'a::len word"
proof -
  have "{i. bit w i} = set (filter (bit w) [0..<LENGTH('a)])"
    by (auto dest: bit_imp_le_length)
  also have "card \<dots> = length (filter (bit w) [0..<LENGTH('a)])"
    by (rule distinct_card) simp
  finally show ?thesis by (simp add: popcount_def)
qed

lemma popcount_pop: "popcount w = pop LENGTH('a) (unat w)" for w :: "'a::len word"
  unfolding popcount_def pop_def
  by (rule arg_cong [where f = length], rule filter_cong) (auto simp: bit_simps)

section \<open>The population counts compute the number of set bits\<close>

text \<open>
  The counts work on all nibbles of the word at once. Seen as a number in base 16, each of the
  first two steps acts on every nibble separately: the masks cut off what a shift brings in
  from the nibble above. The third step adds neighbouring nibbles. So the proof goes over the
  list of nibbles, and the nibble itself is checked by computation.
\<close>

fun of_nibbles :: "nat list \<Rightarrow> nat" where
  "of_nibbles [] = 0"
| "of_nibbles (b # bs) = b + 16 * of_nibbles bs"

fun to_nibbles :: "nat \<Rightarrow> nat \<Rightarrow> nat list" where
  "to_nibbles 0 n = []"
| "to_nibbles (Suc k) n = n mod 16 # to_nibbles k (n div 16)"

definition nibble1 :: "nat \<Rightarrow> nat" where
  "nibble1 b = b - (b div 2 AND 5)"

definition nibble2 :: "nat \<Rightarrow> nat" where
  "nibble2 b = (b AND 3) + (b div 4 AND 3)"

lemma of_to_nibbles: "n < 16 ^ k \<Longrightarrow> of_nibbles (to_nibbles k n) = n"
proof (induction k arbitrary: n)
  case (Suc k)
  then have "n div 16 < 16 ^ k" by (simp add: div_less_iff_less_mult mult.commute)
  from Suc.IH [OF this] show ?case by simp
qed simp

lemma to_nibbles_less: "b \<in> set (to_nibbles k n) \<Longrightarrow> b < 16"
  by (induction k arbitrary: n) auto

lemma length_to_nibbles [simp]: "length (to_nibbles k n) = k"
  by (induction k arbitrary: n) auto

lemma and_nibbles:
  fixes x m M :: nat
  assumes "m < 16"
  shows "x AND (m + 16 * M) = (x mod 16 AND m) + 16 * (x div 16 AND M)"
proof -
  let ?a = "x AND (m + 16 * M)"
  have m: "take_bit 4 (m + 16 * M) = m" "drop_bit 4 (m + 16 * M) = M"
    using assms by (simp_all add: take_bit_eq_mod drop_bit_eq_div)
  have "?a = take_bit 4 ?a + push_bit 4 (drop_bit 4 ?a)"
    by (simp add: take_bit_eq_mod drop_bit_eq_div push_bit_eq_mult)
  also have "\<dots> = (take_bit 4 x AND m) + push_bit 4 (drop_bit 4 x AND M)"
    by (simp only: take_bit_and drop_bit_and m)
  finally show ?thesis
    by (simp add: take_bit_eq_mod drop_bit_eq_div push_bit_eq_mult)
qed

lemma nibble_cases:
  "b < (16::nat) \<Longrightarrow> b \<in> {0,1,2,3,4,5,6,7,8,9,10,11,12,13,14,15}"
  unfolding insert_iff empty_iff by arith

lemma and_nat_le: "(a AND b) \<le> a" for a b :: nat
proof -
  have "int (a AND b) = int a AND int b" by (rule of_nat_and_eq)
  also have "\<dots> \<le> int a" by (rule AND_upper1) simp
  finally show ?thesis by simp
qed

lemma nibble1_less: "b < 16 \<Longrightarrow> nibble1 b < 16"
  unfolding nibble1_def by linarith

lemma nibble_pop: "b < 16 \<Longrightarrow> nibble2 (nibble1 b) = pop 4 b"
  by (drule nibble_cases) (auto simp: nibble1_def nibble2_def pop_def upt_rec bit_0)

lemma nibble1_carry: "b < 16 \<Longrightarrow> c < 2 \<Longrightarrow> (b div 2 + 8 * c) AND 5 = b div 2 AND (5::nat)"
  by (drule nibble_cases) (auto simp: less_2_cases_iff)

lemma nibble2_carry: "b < 16 \<Longrightarrow> c < 4 \<Longrightarrow> (b div 4 + 4 * c) AND 3 = b div 4 AND (3::nat)"
proof -
  assume "b < 16" "c < 4"
  then have "take_bit 2 (b div 4 + 4 * c) = take_bit 2 (b div 4)"
    by (simp add: take_bit_eq_mod)
  then show ?thesis by (simp add: take_bit_eq_mask mask_eq_exp_minus_1 numeral_3_eq_3)
qed

text \<open>Shifting a number in base 16 right by less than a digit.\<close>

lemma shift_digit:
  fixes b h d e :: nat
  assumes "b < 16" and de: "d * e = 16"
  shows "(b + 16 * h) div d mod 16 = b div d + e * (h mod d)"
    and "(b + 16 * h) div d div 16 = h div d"
proof -
  have d: "0 < d" using de by (metis gr0I mult_zero_left zero_neq_numeral)
  have "e * h = e * (h mod d + d * (h div d))" by simp
  also have "\<dots> = e * (h mod d) + 16 * (h div d)"
    using de by (metis distrib_left mult.assoc mult.commute)
  finally have eh: "e * h = e * (h mod d) + 16 * (h div d)" .
  have "b + 16 * h = b + d * (e * h)" using de by (metis mult.assoc)
  then have "(b + 16 * h) div d = b div d + e * h"
    using d by (metis add.commute div_mult_self2 neq0_conv)
  also have "\<dots> = (b div d + e * (h mod d)) + 16 * (h div d)" using eh by simp
  finally have s: "(b + 16 * h) div d = (b div d + e * (h mod d)) + 16 * (h div d)" .
  have "b div d < e" using assms d by (metis less_mult_imp_div_less mult.commute)
  moreover have "e * (h mod d) \<le> e * (d - 1)"
    using d by (metis Suc_pred' less_Suc_eq_le mod_less_divisor mult_le_mono2)
  moreover have "e * (d - 1) + e = 16"
    using de d by (metis Suc_pred' add.commute mult.commute mult_Suc_right)
  ultimately have "b div d + e * (h mod d) < 16" by linarith
  with s show "(b + 16 * h) div d mod 16 = b div d + e * (h mod d)"
    and "(b + 16 * h) div d div 16 = h div d"
    by auto
qed

lemma step1_nibbles:
  assumes "\<forall>b \<in> set bs. b < 16"
  shows "of_nibbles bs - (of_nibbles bs div 2 AND of_nibbles (replicate (length bs) 5))
    = of_nibbles (map nibble1 bs)"
  using assms
proof (induction bs)
  case (Cons b bs)
  let ?h = "of_nibbles bs" and ?M = "of_nibbles (replicate (length bs) 5)"
  have le: "(?h div 2 AND ?M) \<le> ?h"
    by (meson and_nat_le div_le_dividend le_trans)
  have leb: "(b div 2 AND 5) \<le> b"
    by (meson and_nat_le div_le_dividend le_trans)
  have b: "b < 16" using Cons.prems by simp
  have lo: "(b + 16 * ?h) div 2 mod 16 = b div 2 + 8 * (?h mod 2)"
    and hi: "(b + 16 * ?h) div 2 div 16 = ?h div 2"
    using shift_digit [OF b, of 2 8 ?h] by simp_all
  have "(b + 16 * ?h) div 2 AND (5 + 16 * ?M) = (b div 2 AND 5) + 16 * (?h div 2 AND ?M)"
    using and_nibbles [of 5 "(b + 16 * ?h) div 2" ?M] nibble1_carry [of b "?h mod 2"] Cons.prems
    unfolding lo hi by simp
  moreover have "(b + 16 * ?h) - ((b div 2 AND 5) + 16 * (?h div 2 AND ?M))
      = (b - (b div 2 AND 5)) + 16 * (?h - (?h div 2 AND ?M))"
    using leb le by linarith
  ultimately show ?case
    using Cons by (simp add: nibble1_def)
qed simp

lemma step2_nibbles:
  assumes "\<forall>b \<in> set bs. b < 16"
  shows "(of_nibbles bs AND of_nibbles (replicate (length bs) 3))
      + (of_nibbles bs div 4 AND of_nibbles (replicate (length bs) 3))
    = of_nibbles (map nibble2 bs)"
  using assms
proof (induction bs)
  case (Cons b bs)
  let ?h = "of_nibbles bs" and ?M = "of_nibbles (replicate (length bs) 3)"
  have b: "b < 16" using Cons.prems by simp
  have lo: "(b + 16 * ?h) div 4 mod 16 = b div 4 + 4 * (?h mod 4)"
    and hi: "(b + 16 * ?h) div 4 div 16 = ?h div 4"
    using shift_digit [OF b, of 4 4 ?h] by simp_all
  have lo': "(b + 16 * ?h) mod 16 = b" and hi': "(b + 16 * ?h) div 16 = ?h"
    using b by simp_all
  have "(b + 16 * ?h) AND (3 + 16 * ?M) = (b AND 3) + 16 * (?h AND ?M)"
    using and_nibbles [of 3 "b + 16 * ?h" ?M] unfolding lo' hi' by simp
  moreover have "(b + 16 * ?h) div 4 AND (3 + 16 * ?M) = (b div 4 AND 3) + 16 * (?h div 4 AND ?M)"
    using and_nibbles [of 3 "(b + 16 * ?h) div 4" ?M] nibble2_carry [of b "?h mod 4"] Cons.prems
    unfolding lo hi by simp
  ultimately show ?case
    using Cons by (simp add: nibble2_def)
qed simp

text \<open>Step three adds the two nibbles of each byte.\<close>

fun pair_sums :: "nat list \<Rightarrow> nat list" where
  "pair_sums (a # b # bs) = (a + b) # 0 # pair_sums bs"
| "pair_sums bs = bs"

fun byte_mask :: "nat list \<Rightarrow> nat" where
  "byte_mask (a # b # bs) = 15 + 256 * byte_mask bs"
| "byte_mask bs = 0"

lemma step3_nibbles:
  assumes "\<forall>b \<in> set bs. b \<le> 4" and "even (length bs)"
  shows "(of_nibbles bs + of_nibbles bs div 16) AND byte_mask bs = of_nibbles (pair_sums bs)"
  using assms
proof (induction bs rule: pair_sums.induct)
  case (1 a b bs)
  let ?v = "of_nibbles bs" and ?M = "byte_mask bs"
  have v4: "?v mod 16 \<le> 4" using 1(2) by (cases bs) auto
  have ab: "a \<le> 4" "b \<le> 4" using 1(2) by auto
  let ?x = "(a + 16 * (b + 16 * ?v)) + (b + 16 * ?v)"
  have x: "?x = (a + b) + 16 * ((b + ?v mod 16) + 16 * (?v + ?v div 16))"
    by (simp add: algebra_simps)
  have mod_div: "(p + 16 * q) mod 16 = p" "(p + 16 * q) div 16 = q" if "p < 16" for p q :: nat
    using that by simp_all
  have "?x mod 16 = a + b" "?x div 16 = (b + ?v mod 16) + 16 * (?v + ?v div 16)"
    unfolding x using ab by (simp_all only: mod_div)
  then have "?x AND (15 + 16 * (16 * ?M))
      = (a + b AND 15) + 16 * ((b + ?v mod 16) + 16 * (?v + ?v div 16) AND 0 + 16 * ?M)"
    using and_nibbles [of 15 ?x "16 * ?M"] by simp
  also have "(b + ?v mod 16) + 16 * (?v + ?v div 16) AND 0 + 16 * ?M = 16 * (?v + ?v div 16 AND ?M)"
    using and_nibbles [of 0 "(b + ?v mod 16) + 16 * (?v + ?v div 16)" ?M]
      mod_div [of "b + ?v mod 16" "?v + ?v div 16"] ab v4 by simp
  also have "a + b AND 15 = a + b"
  proof -
    have "take_bit 4 (a + b) = a + b" using ab by (simp add: take_bit_nat_eq_self)
    then show ?thesis by (simp add: take_bit_eq_mask mask_eq_exp_minus_1)
  qed
  finally have "?x AND byte_mask (a # b # bs) = of_nibbles (pair_sums (a # b # bs))"
    using 1 by simp
  moreover have "of_nibbles (a # b # bs) + of_nibbles (a # b # bs) div 16 = ?x"
    using mod_div(2) [of a "b + 16 * ?v"] ab by simp
  ultimately show ?case by (simp only:)
qed auto

lemma pop_nibble: "b < 16 \<Longrightarrow> pop (4 + k) (b + 16 * h) = pop 4 b + pop k h"
proof -
  assume b: "b < 16"
  have lo: "bit (b + 16 * h) i = bit b i" if "i < 4" for i
  proof -
    have "take_bit 4 (b + 16 * h) = take_bit 4 b" by (simp add: take_bit_eq_mod)
    then show ?thesis using that by (metis bit_take_bit_iff)
  qed
  have hi: "bit (b + 16 * h) (4 + i) = bit h i" for i
  proof -
    have "drop_bit 4 (b + 16 * h) = h" using b by (simp add: drop_bit_eq_div)
    then show ?thesis by (metis bit_drop_bit_eq comp_apply)
  qed
  have "[0..<4 + k] = [0..<4] @ map (\<lambda>i. 4 + i) [0..<k]"
    using upt_add_eq_append [of 0 4 k] map_add_upt [of 4 k] by (simp add: add.commute)
  moreover have "filter (bit (b + 16 * h)) [0..<4] = filter (bit b) [0..<4]"
    by (rule filter_cong) (auto simp: lo)
  ultimately show ?thesis
    by (simp add: pop_def filter_map o_def hi)
qed

lemma pop_of_nibbles:
  "\<forall>b \<in> set bs. b < 16 \<Longrightarrow> pop (4 * length bs) (of_nibbles bs) = sum_list (map (pop 4) bs)"
proof (induction bs)
  case (Cons b bs)
  then show ?case using pop_nibble [of b "4 * length bs" "of_nibbles bs"] by simp
qed (simp add: pop_def)

lemma sum_list_pop_nibbles: "\<forall>b \<in> set bs. b < 16 \<Longrightarrow>
    map (nibble2 \<circ> nibble1) bs = map (pop 4) bs"
  by (simp add: nibble_pop)

lemma pop4_le: "pop 4 b \<le> 4"
  unfolding pop_def using length_filter_le [of "bit b" "[0..<4]"] by simp

text \<open>
  The first three steps on a number of \<open>2 * k\<close> nibbles: byte \<open>i\<close> of the result is the number
  of set bits of byte \<open>i\<close>.
\<close>

lemma hweight_steps:
  fixes n k :: nat
  defines "ns \<equiv> to_nibbles (2 * k) n"
  defines "m5 \<equiv> of_nibbles (replicate (2 * k) 5)" and "m3 \<equiv> of_nibbles (replicate (2 * k) 3)"
  assumes "n < 16 ^ (2 * k)"
  defines "a \<equiv> n - (n div 2 AND m5)"
  defines "b \<equiv> (a AND m3) + (a div 4 AND m3)"
  shows "(b + b div 16) AND byte_mask ns = of_nibbles (pair_sums (map (pop 4) ns))"
    and "a = of_nibbles (map nibble1 ns)" and "b = of_nibbles (map (pop 4) ns)"
    and "pop (8 * k) n = sum_list (map (pop 4) ns)"
proof -
  have ns: "of_nibbles ns = n" "length ns = 2 * k" "\<forall>b \<in> set ns. b < 16"
    using assms(4) unfolding ns_def by (auto simp: of_to_nibbles dest: to_nibbles_less)
  show a: "a = of_nibbles (map nibble1 ns)"
    using step1_nibbles [OF ns(3)] ns(1,2) unfolding a_def m5_def by simp
  have "\<forall>b \<in> set (map nibble1 ns). b < 16" using ns(3) nibble1_less by simp
  from step2_nibbles [OF this] have "b = of_nibbles (map nibble2 (map nibble1 ns))"
    using ns(2) unfolding b_def m3_def a by simp
  then show b: "b = of_nibbles (map (pop 4) ns)"
    using sum_list_pop_nibbles [OF ns(3)] by simp
  have mask: "byte_mask (map f xs) = byte_mask xs" for f :: "nat \<Rightarrow> nat" and xs
    by (induction xs rule: byte_mask.induct) auto
  show "(b + b div 16) AND byte_mask ns = of_nibbles (pair_sums (map (pop 4) ns))"
    using step3_nibbles [of "map (pop 4) ns"] ns(2) pop4_le unfolding b mask by simp
  show "pop (8 * k) n = sum_list (map (pop 4) ns)"
    using pop_of_nibbles [OF ns(3)] ns(1,2) by simp
qed

lemma unat_add_small: "unat a + unat b < 2 ^ LENGTH('a) \<Longrightarrow> unat (a + b) = unat a + unat b"
  for a b :: "'a::len word"
  using unat_add_lem by blast

lemma unat_shift: "unat (drop_bit k w) = unat w div 2 ^ k" for w :: "'a::len word"
  by (metis unat_drop_bit_eq drop_bit_eq_div)

lemma mod_add_multiple: "r < d \<Longrightarrow> (r + d * q) mod d = r" for r d q :: nat
  by simp

lemma div_add_multiple: "r < d \<Longrightarrow> (r + d * q) div d = q" for r d q :: nat
  by simp

text \<open>The last step of \<open>hweight64\<close>: the top byte of the product is the sum of all bytes.\<close>

lemma sum_bytes_mult:
  fixes c0 c1 c2 c3 c4 c5 c6 c7 :: nat
  assumes "c0 + c1 + c2 + c3 + c4 + c5 + c6 + c7 < 256"
  shows "(c0 + 2^8 * c1 + 2^16 * c2 + 2^24 * c3 + 2^32 * c4 + 2^40 * c5 + 2^48 * c6 + 2^56 * c7)
      * 0x0101010101010101 mod 2^64 div 2^56 = c0 + c1 + c2 + c3 + c4 + c5 + c6 + c7"
    (is "?x * _ mod _ div _ = ?s")
proof -
  let ?lo = "c0 + 2^8 * (c0 + c1) + 2^16 * (c0 + c1 + c2) + 2^24 * (c0 + c1 + c2 + c3)
    + 2^32 * (c0 + c1 + c2 + c3 + c4) + 2^40 * (c0 + c1 + c2 + c3 + c4 + c5)
    + 2^48 * (c0 + c1 + c2 + c3 + c4 + c5 + c6)"
  let ?hi = "(c1 + c2 + c3 + c4 + c5 + c6 + c7) + 2^8 * (c2 + c3 + c4 + c5 + c6 + c7)
    + 2^16 * (c3 + c4 + c5 + c6 + c7) + 2^24 * (c4 + c5 + c6 + c7)
    + 2^32 * (c5 + c6 + c7) + 2^40 * (c6 + c7) + 2^48 * c7"
  have "?x * 0x0101010101010101 = (?lo + 2^56 * ?s) + 2^64 * ?hi" by simp
  moreover have lo: "?lo < 2^56" using assms by simp
  moreover have "?lo + 2^56 * ?s < 2^64" using assms by simp
  ultimately have "?x * 0x0101010101010101 mod 2^64 = ?lo + 2^56 * ?s"
    by (simp only: mod_add_multiple)
  then show ?thesis using div_add_multiple [OF lo] by (simp only:)
qed

text \<open>The last two steps of \<open>hweight32\<close> fold the bytes onto the lowest one.\<close>

lemma sum_bytes_fold:
  fixes w c :: u32 and x0 x1 x2 x3 :: nat
  assumes c: "unat c = x0 + 2^8 * x1 + 2^16 * x2 + 2^24 * x3"
    and le: "x0 \<le> 8" "x1 \<le> 8" "x2 \<le> 8" "x3 \<le> 8"
  defines "d \<equiv> c + drop_bit 8 c"
  shows "unat ((d + drop_bit 16 d) AND 0xFF) = x0 + x1 + x2 + x3"
proof -
  have "unat c = x0 + 2^8 * (x1 + 2^8 * x2 + 2^16 * x3)" using c by simp
  moreover have "x0 < 2^8" using le by simp
  ultimately have "unat (drop_bit 8 c) = x1 + 2^8 * x2 + 2^16 * x3"
    using div_add_multiple [of x0 "2^8"] by (simp only: unat_shift)
  with c le have d: "unat d = (x0 + x1 + 2^8 * (x1 + x2)) + 2^16 * (x2 + x3 + 2^8 * x3)"
    unfolding d_def by (subst unat_add_small) simp_all
  moreover have "x0 + x1 + 2^8 * (x1 + x2) < 2^16" using le by simp
  ultimately have "unat (drop_bit 16 d) = x2 + x3 + 2^8 * x3"
    using div_add_multiple by (simp only: unat_shift)
  with d le have e: "unat (d + drop_bit 16 d)
      = (x0 + x1 + x2 + x3) + 2^8 * (x1 + x2 + x3 + 2^8 * (x2 + x3) + 2^16 * x3)"
    by (subst unat_add_small) simp_all
  have "(d + drop_bit 16 d) AND 0xFF = take_bit 8 (d + drop_bit 16 d)"
    by (simp add: take_bit_eq_mask mask_numeral)
  then have "unat ((d + drop_bit 16 d) AND 0xFF) = unat (d + drop_bit 16 d) mod 2^8"
    by (metis unsigned_take_bit_eq take_bit_eq_mod)
  also have "\<dots> = x0 + x1 + x2 + x3"
    unfolding e by (rule mod_add_multiple) (use le in simp)
  finally show ?thesis .
qed

text \<open>A list of known length, written out.\<close>

lemma list16: "length xs = 16 \<Longrightarrow>
    xs = [xs!0, xs!1, xs!2, xs!3, xs!4, xs!5, xs!6, xs!7,
          xs!8, xs!9, xs!10, xs!11, xs!12, xs!13, xs!14, xs!15]"
proof -
  assume "length xs = 16"
  moreover have "[0..<16] = [0, 1, 2, 3, 4, 5, 6, 7, 8, 9, 10, 11, 12, 13, 14, 15]"
    by (simp add: upt_rec)
  ultimately show ?thesis using map_nth [of xs] by (simp only: list.map)
qed

lemma list8: "length xs = 8 \<Longrightarrow> xs = [xs!0, xs!1, xs!2, xs!3, xs!4, xs!5, xs!6, xs!7]"
proof -
  assume "length xs = 8"
  moreover have "[0..<8] = [0, 1, 2, 3, 4, 5, 6, 7]"
    by (simp add: upt_rec)
  ultimately show ?thesis using map_nth [of xs] by (simp only: list.map)
qed

lemma replicate_numeral_Cons: "replicate (numeral k) x = x # replicate (pred_numeral k) x"
  by (simp add: numeral_eq_Suc)

text \<open>The first two steps on a word are the same computation on its value.\<close>

lemma unat_step1:
  "unat (w - (drop_bit 1 w AND m)) = unat w - (unat w div 2 AND unat m)" for w m :: "'a::len word"
proof -
  have "unat (drop_bit 1 w AND m) = unat w div 2 AND unat m"
    by (simp add: unsigned_and_eq unat_shift)
  moreover have "unat w div 2 AND unat m \<le> unat w"
    by (meson and_nat_le div_le_dividend le_trans)
  ultimately show ?thesis
    by (simp add: unat_sub word_le_nat_alt)
qed

lemma unat_step2:
  fixes a m :: "'a::len word"
  assumes "(unat a AND unat m) + (unat a div 4 AND unat m) < 2 ^ LENGTH('a)"
  shows "unat ((a AND m) + (drop_bit 2 a AND m)) = (unat a AND unat m) + (unat a div 4 AND unat m)"
  using assms
  by (subst unat_add_small) (simp_all add: unsigned_and_eq unat_shift)

lemma unat_step3:
  fixes b m :: "'a::len word"
  assumes "unat b + unat b div 16 < 2 ^ LENGTH('a)"
  shows "unat ((b + drop_bit 4 b) AND m) = (unat b + unat b div 16) AND unat m"
proof -
  have "unat (b + drop_bit 4 b) = unat b + unat b div 16"
    using assms by (subst unat_add_small) (simp_all add: unat_shift)
  then show ?thesis by (simp add: unsigned_and_eq)
qed

theorem hweight64_popcount: "unat (hweight64 w) = popcount w"
proof -
  let ?n = "unat w"
  define ns where "ns = to_nibbles (2 * 8) ?n"
  define ps where "ps = map (pop 4) ns"
  define a where "a = w - (drop_bit 1 w AND 0x5555555555555555)"
  define b where "b = (a AND 0x3333333333333333) + (drop_bit 2 a AND 0x3333333333333333)"
  define c where "c = (b + drop_bit 4 b) AND 0x0f0f0f0f0f0f0f0f"
  have n: "?n < 16 ^ (2 * 8)" using unsigned_less [of w] by simp
  have masks: "of_nibbles (replicate (2 * 8) 5) = 0x5555555555555555"
    "of_nibbles (replicate (2 * 8) 3) = 0x3333333333333333"
    by (simp_all add: replicate_numeral_Cons)
  note steps = hweight_steps [where k = 8, OF n, unfolded masks, folded ns_def ps_def]
  have len: "length ps = 16" "length ns = 16" by (simp_all add: ps_def ns_def)
  note ps = list16 [OF len(1)]
  have p4: "ps ! i \<le> 4" if "i < 16" for i
    using that pop4_le len by (simp add: ps_def)
  have le: "ps!0 \<le> 4" "ps!1 \<le> 4" "ps!2 \<le> 4" "ps!3 \<le> 4" "ps!4 \<le> 4" "ps!5 \<le> 4"
    "ps!6 \<le> 4" "ps!7 \<le> 4" "ps!8 \<le> 4" "ps!9 \<le> 4" "ps!10 \<le> 4" "ps!11 \<le> 4"
    "ps!12 \<le> 4" "ps!13 \<le> 4" "ps!14 \<le> 4" "ps!15 \<le> 4"
    by (rule p4, simp)+
  have ua: "unat a = ?n - (?n div 2 AND 0x5555555555555555)"
    using unat_step1 [of w "0x5555555555555555"] by (simp add: a_def)
  have bound: "of_nibbles ps \<le> 0x4444444444444444"
    by (subst ps) (use le in simp)
  have ub: "unat b = of_nibbles ps"
    using unat_step2 [of a "0x3333333333333333"] steps(3) bound by (simp add: b_def ua)
  have mask: "byte_mask ns = 0x0f0f0f0f0f0f0f0f"
    by (subst list16 [OF len(2)]) simp
  have "unat c = of_nibbles (pair_sums ps)"
    using unat_step3 [of b "0x0f0f0f0f0f0f0f0f"] steps(1,3) bound mask
    by (simp add: c_def ub)
  also have "\<dots> = (ps!0 + ps!1) + 2^8 * (ps!2 + ps!3) + 2^16 * (ps!4 + ps!5)
      + 2^24 * (ps!6 + ps!7) + 2^32 * (ps!8 + ps!9) + 2^40 * (ps!10 + ps!11)
      + 2^48 * (ps!12 + ps!13) + 2^56 * (ps!14 + ps!15)"
    by (subst ps) simp
  finally have uc: "unat c = \<dots>" .
  have hw: "hweight64 w = drop_bit 56 (c * 0x0101010101010101)"
    unfolding hweight64_def Let_def a_def b_def c_def by (rule refl)
  have "unat (c * 0x0101010101010101) = unat c * 0x0101010101010101 mod 2^64"
    by (simp add: unat_word_ariths)
  then have "unat (hweight64 w) = unat c * 0x0101010101010101 mod 2^64 div 2^56"
    unfolding hw unat_shift by (rule arg_cong)
  also have "\<dots> = (ps!0 + ps!1) + (ps!2 + ps!3) + (ps!4 + ps!5) + (ps!6 + ps!7)
      + (ps!8 + ps!9) + (ps!10 + ps!11) + (ps!12 + ps!13) + (ps!14 + ps!15)"
    unfolding uc by (rule sum_bytes_mult) (use le in linarith)
  also have "\<dots> = sum_list ps"
    by (subst (17) ps) simp
  also have "\<dots> = pop 64 ?n" using steps(4) by (simp add: ps_def)
  finally show ?thesis by (simp add: popcount_pop)
qed

theorem hweight32_popcount: "unat (hweight32 w) = popcount w"
proof -
  let ?n = "unat w"
  define ns where "ns = to_nibbles (2 * 4) ?n"
  define ps where "ps = map (pop 4) ns"
  define a where "a = w - (drop_bit 1 w AND 0x55555555)"
  define b where "b = (a AND 0x33333333) + (drop_bit 2 a AND 0x33333333)"
  define c where "c = (b + drop_bit 4 b) AND 0x0F0F0F0F"
  have n: "?n < 16 ^ (2 * 4)" using unsigned_less [of w] by simp
  have masks: "of_nibbles (replicate (2 * 4) 5) = 0x55555555"
    "of_nibbles (replicate (2 * 4) 3) = 0x33333333"
    by (simp_all add: replicate_numeral_Cons)
  note steps = hweight_steps [where k = 4, OF n, unfolded masks, folded ns_def ps_def]
  have len: "length ps = 8" "length ns = 8" by (simp_all add: ps_def ns_def)
  note ps = list8 [OF len(1)]
  have p4: "ps ! i \<le> 4" if "i < 8" for i
    using that pop4_le len by (simp add: ps_def)
  have le: "ps!0 \<le> 4" "ps!1 \<le> 4" "ps!2 \<le> 4" "ps!3 \<le> 4" "ps!4 \<le> 4" "ps!5 \<le> 4"
    "ps!6 \<le> 4" "ps!7 \<le> 4"
    by (rule p4, simp)+
  have ua: "unat a = ?n - (?n div 2 AND 0x55555555)"
    using unat_step1 [of w "0x55555555"] by (simp add: a_def)
  have bound: "of_nibbles ps \<le> 0x44444444"
    by (subst ps) (use le in simp)
  have ub: "unat b = of_nibbles ps"
    using unat_step2 [of a "0x33333333"] steps(3) bound by (simp add: b_def ua)
  have mask: "byte_mask ns = 0x0F0F0F0F"
    by (subst list8 [OF len(2)]) simp
  have "unat c = of_nibbles (pair_sums ps)"
    using unat_step3 [of b "0x0F0F0F0F"] steps(1,3) bound mask by (simp add: c_def ub)
  also have "\<dots> = (ps!0 + ps!1) + 2^8 * (ps!2 + ps!3) + 2^16 * (ps!4 + ps!5)
      + 2^24 * (ps!6 + ps!7)"
    by (subst ps) simp
  finally have uc: "unat c = \<dots>" .
  have hw: "hweight32 w = ((c + drop_bit 8 c) + drop_bit 16 (c + drop_bit 8 c)) AND 0xFF"
    unfolding hweight32_def Let_def a_def b_def c_def by (rule refl)
  have "unat (hweight32 w) = (ps!0 + ps!1) + (ps!2 + ps!3) + (ps!4 + ps!5) + (ps!6 + ps!7)"
    unfolding hw by (rule sum_bytes_fold [OF uc]) (use le in linarith)+
  also have "\<dots> = sum_list ps"
    by (subst (9) ps) simp
  also have "\<dots> = pop 32 ?n" using steps(4) by (simp add: ps_def)
  finally show ?thesis by (simp add: popcount_pop)
qed

section \<open>Find last set\<close>

text \<open>
  One stage of \<open>fls\<close>: with the invariant that the shifted word is the argument times
  \<open>2 ^ (32 - r)\<close>, a stage of width \<open>k\<close> brings the leading one into the top \<open>k\<close> bits.
\<close>

lemma and_high_zero:
  "(x AND NOT (mask n) = 0) = (unat x < 2 ^ n)" if "n < 32" for x :: u32
proof -
  have "(x AND NOT (mask n) = 0) = (take_bit n x = x)"
    by (simp add: take_bit_eq_mask bit_eq_iff) (auto simp: bit_simps)
  also have "\<dots> = (take_bit n (unat x) = unat x)"
    by (metis unsigned_take_bit_eq unsigned_word_eqI)
  finally show ?thesis by (simp add: take_bit_nat_eq_self_iff)
qed

definition fls_inv :: "nat \<Rightarrow> nat \<Rightarrow> u32 \<Rightarrow> nat \<Rightarrow> bool" where
  "fls_inv n k x r \<longleftrightarrow> unat x = n * 2 ^ (32 - r) \<and> k \<le> r \<and> r \<le> 32 \<and> 2 ^ (32 - k) \<le> unat x"

lemma fls_stage:
  assumes inv: "fls_inv n (2 * k) x r" and k: "0 < k" "k \<le> 16" and m: "m = NOT (mask (32 - k))"
  shows "case (if x AND m = 0 then (push_bit k x, r - k) else (x, r)) of (x, r) \<Rightarrow> fls_inv n k x r"
proof (cases "unat x < 2 ^ (32 - k)")
  case True
  then have "unat x * 2 ^ k < 2 ^ (32 - k) * 2 ^ k" by simp
  also have "\<dots> = 2 ^ 32" using k by (simp flip: power_add)
  finally have "unat (push_bit k x) = unat x * 2 ^ k"
    using unsigned_push_bit_eq [of k x, where ?'a = nat]
    by (simp add: push_bit_eq_mult take_bit_nat_eq_self)
  moreover have "2 ^ (32 - k) = 2 ^ (32 - 2 * k) * (2::nat) ^ k"
    using k by (simp flip: power_add)
  moreover have "(2::nat) ^ (32 - (r - k)) = 2 ^ (32 - r) * 2 ^ k"
    using inv k by (simp add: fls_inv_def flip: power_add)
  ultimately have "fls_inv n k (push_bit k x) (r - k)"
    using inv k by (auto simp: fls_inv_def)
  with True k m show ?thesis by (simp add: and_high_zero)
next
  case False
  with inv k m show ?thesis by (auto simp: and_high_zero fls_inv_def)
qed

theorem fls_bounds:
  "x \<noteq> 0 \<Longrightarrow> 0 < fls x \<and> fls x \<le> 32 \<and> 2 ^ (fls x - 1) \<le> unat x \<and> unat x < 2 ^ fls x"
proof -
  assume "x \<noteq> 0"
  let ?n = "unat x"
  have masks: "(0xffff0000 :: u32) = NOT (mask (32 - 16))" "(0xff000000 :: u32) = NOT (mask (32 - 8))"
    "(0xf0000000 :: u32) = NOT (mask (32 - 4))" "(0xc0000000 :: u32) = NOT (mask (32 - 2))"
    "(0x80000000 :: u32) = NOT (mask (32 - 1))"
    by (simp_all add: mask_numeral)
  have "0 < ?n" using \<open>x \<noteq> 0\<close> by (simp add: unat_gt_0)
  then have 0: "fls_inv ?n (2 * 16) x 32" by (simp add: fls_inv_def)
  obtain x1 r1 where 1: "(if x AND 0xffff0000 = 0 then (push_bit 16 x, 32 - 16) else (x, 32)) = (x1, r1)"
    and i1: "fls_inv ?n (2 * 8) x1 r1"
    using fls_stage [OF 0 _ _ masks(1)] by (cases "x AND 0xffff0000 = 0") auto
  obtain x2 r2 where 2: "(if x1 AND 0xff000000 = 0 then (push_bit 8 x1, r1 - 8) else (x1, r1)) = (x2, r2)"
    and i2: "fls_inv ?n (2 * 4) x2 r2"
    using fls_stage [OF i1 _ _ masks(2)] by (cases "x1 AND 0xff000000 = 0") auto
  obtain x3 r3 where 3: "(if x2 AND 0xf0000000 = 0 then (push_bit 4 x2, r2 - 4) else (x2, r2)) = (x3, r3)"
    and i3: "fls_inv ?n (2 * 2) x3 r3"
    using fls_stage [OF i2 _ _ masks(3)] by (cases "x2 AND 0xf0000000 = 0") auto
  obtain x4 r4 where 4: "(if x3 AND 0xc0000000 = 0 then (push_bit 2 x3, r3 - 2) else (x3, r3)) = (x4, r4)"
    and i4: "fls_inv ?n (2 * 1) x4 r4"
    using fls_stage [OF i3 _ _ masks(4)] by (cases "x3 AND 0xc0000000 = 0") auto
  obtain x5 r5 where 5: "(if x4 AND 0x80000000 = 0 then (push_bit 1 x4, r4 - 1) else (x4, r4)) = (x5, r5)"
    and i5: "fls_inv ?n 1 x5 r5"
    using fls_stage [OF i4 _ _ masks(5)] by (cases "x4 AND 0x80000000 = 0") auto
  have "fls x = r5"
    unfolding fls_def Let_def using \<open>x \<noteq> 0\<close> by (simp only: 1 2 3 4 5 prod.case if_False)
  moreover from i5 have r: "1 \<le> r5" "r5 \<le> 32" "unat x5 = ?n * 2 ^ (32 - r5)" "2 ^ 31 \<le> unat x5"
    by (simp_all add: fls_inv_def)
  moreover have "?n < 2 ^ r5"
  proof -
    have "?n * 2 ^ (32 - r5) < 2 ^ 32" using unsigned_less [of x5, where ?'a = nat] r(3) by simp
    also have "(2::nat) ^ 32 = 2 ^ r5 * 2 ^ (32 - r5)" using r(2) by (simp flip: power_add)
    finally show ?thesis by simp
  qed
  moreover have "2 ^ (r5 - 1) \<le> ?n"
  proof -
    have "(2::nat) ^ (r5 - 1) * 2 ^ (32 - r5) = 2 ^ 31" using r(1,2) by (simp flip: power_add)
    also have "\<dots> \<le> ?n * 2 ^ (32 - r5)" using r(3,4) by simp
    finally show ?thesis by simp
  qed
  ultimately show ?thesis by simp
qed

lemma fls_0 [simp]: "fls 0 = 0"
  by (simp add: fls_def)

section \<open>The bit operations\<close>

text \<open>A bit of an array, and what the operations do to every bit of it.\<close>

definition array_bit :: "u64 list \<Rightarrow> nat \<Rightarrow> bool" where
  "array_bit a i \<longleftrightarrow> bit (a ! (i div 64)) (i mod 64)"

lemmas bitop_defs = BITS_PER_LONG_def BITOP_MASK_def BITOP_WORD_def bitop_access_def

lemma bitop_access_iff: "(\<exists>n. bitop_access nr a = Some n) \<longleftrightarrow> 0 \<le> nr \<and> nr < 64 * int (length a)"
proof -
  have "0 \<le> nr \<Longrightarrow> (nat nr div 64 < length a) = (nr < 64 * int (length a))"
    by (simp add: div_less_iff_less_mult) arith
  then show ?thesis by (auto simp: bitop_defs)
qed

lemma div_mod_64_eq: "(i div 64 = j div 64 \<and> i mod 64 = j mod 64) = (i = j)" for i j :: nat
  by (metis div_mult_mod_eq)

lemma array_bit_update:
  assumes "n div 64 < length a" and "i < 64 * length a"
  shows "array_bit (a[n div 64 := w]) i = (if i div 64 = n div 64 then bit w (i mod 64) else array_bit a i)"
  using assms by (auto simp: array_bit_def nth_list_update)

lemma array_bit_mask:
  "bit (BITOP_MASK n) (i mod 64) = (i mod 64 = n mod 64)"
  by (auto simp: bitop_defs bit_simps)

text \<open>
  Inside the array, \<open>set_bit\<close>, \<open>clear_bit\<close> and \<open>change_bit\<close> change exactly the bit they are
  given, and the test-and variants do the same and return its old value.
\<close>

lemma bit_ops_in_range:
  assumes "0 \<le> nr" and "nr < 64 * int (length a)"
  shows set_bit_c_Some: "\<exists>a'. set_bit_c nr a = Some a' \<and> length a' = length a
      \<and> (\<forall>i < 64 * length a. array_bit a' i = (i = nat nr \<or> array_bit a i))"
    and clear_bit_Some: "\<exists>a'. clear_bit nr a = Some a' \<and> length a' = length a
      \<and> (\<forall>i < 64 * length a. array_bit a' i = (i \<noteq> nat nr \<and> array_bit a i))"
    and change_bit_Some: "\<exists>a'. change_bit nr a = Some a' \<and> length a' = length a
      \<and> (\<forall>i < 64 * length a. array_bit a' i = ((i = nat nr) \<noteq> array_bit a i))"
    and test_bit_Some: "test_bit nr a = Some (array_bit a (nat nr))"
proof -
  from assms obtain n where acc: "bitop_access nr a = Some n"
    using bitop_access_iff by blast
  then have n: "n = nat nr" "n div 64 < length a"
    by (auto simp: bitop_defs split: if_splits)
  have eq: "(i div 64 = n div 64 \<and> i mod 64 = n mod 64) = (i = nat nr)" for i
    using n(1) by (simp add: div_mod_64_eq)
  have w: "BITOP_WORD n = n div 64" by (simp add: bitop_defs)
  have upd: "array_bit (a[n div 64 := v]) i
      = (if i div 64 = n div 64 then bit v (i mod 64) else array_bit a i)"
    if "i < 64 * length a" for v i
    using array_bit_update [OF n(2) that] .
  have same: "array_bit a i = bit (a ! (n div 64)) (i mod 64)" if "i div 64 = n div 64" for i
    using that by (simp add: array_bit_def)
  have "array_bit (a[n div 64 := a ! (n div 64) OR BITOP_MASK n]) i = (i = nat nr \<or> array_bit a i)"
    if "i < 64 * length a" for i
    unfolding upd [OF that] using eq [of i] same [of i] by (auto simp: bit_or_iff array_bit_mask)
  then show "\<exists>a'. set_bit_c nr a = Some a' \<and> length a' = length a
      \<and> (\<forall>i < 64 * length a. array_bit a' i = (i = nat nr \<or> array_bit a i))"
    by (simp add: set_bit_c_def acc w Let_def)
  have "array_bit (a[n div 64 := a ! (n div 64) AND NOT (BITOP_MASK n)]) i = (i \<noteq> nat nr \<and> array_bit a i)"
    if "i < 64 * length a" for i
    unfolding upd [OF that] using eq [of i] same [of i]
    by (auto simp: bit_and_iff bit_not_iff array_bit_mask)
  then show "\<exists>a'. clear_bit nr a = Some a' \<and> length a' = length a
      \<and> (\<forall>i < 64 * length a. array_bit a' i = (i \<noteq> nat nr \<and> array_bit a i))"
    by (simp add: clear_bit_def acc w Let_def)
  have "array_bit (a[n div 64 := a ! (n div 64) XOR BITOP_MASK n]) i = ((i = nat nr) \<noteq> array_bit a i)"
    if "i < 64 * length a" for i
    unfolding upd [OF that] using eq [of i] same [of i]
    by (auto simp: bit_xor_iff array_bit_mask)
  then show "\<exists>a'. change_bit nr a = Some a' \<and> length a' = length a
      \<and> (\<forall>i < 64 * length a. array_bit a' i = ((i = nat nr) \<noteq> array_bit a i))"
    by (simp add: change_bit_def acc w Let_def)
  have "1 AND drop_bit (n mod 64) v = of_bool (bit v (n mod 64))" for v :: u64
    by (simp add: one_and_eq bit_iff_odd_drop_bit mod_2_eq_odd)
  then show "test_bit nr a = Some (array_bit a (nat nr))"
    using n by (simp add: test_bit_def acc w [unfolded n(1)] BITS_PER_LONG_def array_bit_def)
qed

lemma and_mask_nonzero: "(w AND BITOP_MASK n \<noteq> 0) = bit w (n mod 64)"
  using and_exp_eq_0_iff_not_bit [of w "n mod 64"]
  by (simp add: BITOP_MASK_def BITS_PER_LONG_def push_bit_eq_mult)

lemma test_and_ops:
  shows test_and_set_bit_eq: "test_and_set_bit nr a =
      (case set_bit_c nr a of None \<Rightarrow> None | Some a' \<Rightarrow> Some (array_bit a (nat nr), a'))"
    and test_and_clear_bit_eq: "test_and_clear_bit nr a =
      (case clear_bit nr a of None \<Rightarrow> None | Some a' \<Rightarrow> Some (array_bit a (nat nr), a'))"
    and test_and_change_bit_eq: "test_and_change_bit nr a =
      (case change_bit nr a of None \<Rightarrow> None | Some a' \<Rightarrow> Some (array_bit a (nat nr), a'))"
  by (auto simp: test_and_set_bit_def test_and_clear_bit_def test_and_change_bit_def set_bit_c_def
      clear_bit_def change_bit_def Let_def and_mask_nonzero array_bit_def bitop_access_def
      BITOP_WORD_def BITS_PER_LONG_def split: option.splits if_splits)

lemma bit_ops_out_of_range:
  assumes "nr < 0 \<or> 64 * int (length a) \<le> nr"
  shows "set_bit_c nr a = None" "clear_bit nr a = None" "change_bit nr a = None"
    "test_bit nr a = None"
proof -
  from assms have "bitop_access nr a = None"
    using bitop_access_iff [of nr a] by fastforce
  then show "set_bit_c nr a = None" "clear_bit nr a = None" "change_bit nr a = None"
    "test_bit nr a = None"
    by (simp_all add: set_bit_c_def clear_bit_def change_bit_def test_bit_def)
qed

section \<open>Properties\<close>

text \<open>
  (C36) The word-parallel population counts of \<open>bitmap.c\<close>, with their masks and the final
  multiplication, return the number of bits that are set, for every word of 64 and of 32 bits.
\<close>

theorem hweight_counts_bits:
  "unat (hweight64 w) = card {i. bit w i} \<and> unat (hweight32 v) = card {i. bit v i}"
  by (simp add: hweight64_popcount hweight32_popcount popcount_eq_card)

text \<open>
  \<open>fls\<close> returns the number of the highest set bit, counted from one, and 0 for 0: the result
  \<open>n\<close> is the least one with \<open>x < 2 ^ n\<close>.
\<close>

theorem fls_is_bit_length: "unat x < 2 ^ fls x \<and> 2 ^ fls x \<le> max 1 (2 * unat x)"
proof (cases "x = 0")
  case False
  note b = fls_bounds [OF False]
  then have "(2::nat) ^ fls x = 2 * 2 ^ (fls x - 1)" by (simp flip: power_Suc)
  with b show ?thesis by linarith
qed simp

text \<open>
  Memory safety of the non-atomic bit operations: they leave the array exactly for the bit
  numbers that are negative or not below 64 times the number of its words.
\<close>

theorem bit_ops_bounds:
  "(set_bit_c nr a = None) = (nr < 0 \<or> 64 * int (length a) \<le> nr)
   \<and> (clear_bit nr a = None) = (nr < 0 \<or> 64 * int (length a) \<le> nr)
   \<and> (change_bit nr a = None) = (nr < 0 \<or> 64 * int (length a) \<le> nr)
   \<and> (test_bit nr a = None) = (nr < 0 \<or> 64 * int (length a) \<le> nr)"
proof (cases "nr < 0 \<or> 64 * int (length a) \<le> nr")
  case True
  then show ?thesis using bit_ops_out_of_range [OF True] by simp
next
  case False
  then have "0 \<le> nr" "nr < 64 * int (length a)" by auto
  from bit_ops_in_range [OF this] False show ?thesis by auto
qed

text \<open>
  Inside the array, \<open>set_bit\<close>, \<open>clear_bit\<close> and \<open>change_bit\<close> change the bit they are given and no
  other, the test-and variants do the same and return its old value, and \<open>test_bit\<close> reads it.
\<close>

theorem bit_ops_change_one_bit:
  assumes "0 \<le> nr" and "nr < 64 * int (length a)"
  shows "(\<exists>a'. test_and_set_bit nr a = Some (array_bit a (nat nr), a') \<and> set_bit_c nr a = Some a' \<and>
      length a' = length a \<and> (\<forall>i < 64 * length a. array_bit a' i = (i = nat nr \<or> array_bit a i)))
   \<and> (\<exists>a'. test_and_clear_bit nr a = Some (array_bit a (nat nr), a') \<and> clear_bit nr a = Some a' \<and>
      length a' = length a \<and> (\<forall>i < 64 * length a. array_bit a' i = (i \<noteq> nat nr \<and> array_bit a i)))
   \<and> (\<exists>a'. test_and_change_bit nr a = Some (array_bit a (nat nr), a') \<and> change_bit nr a = Some a' \<and>
      length a' = length a \<and> (\<forall>i < 64 * length a. array_bit a' i = ((i = nat nr) \<noteq> array_bit a i)))
   \<and> test_bit nr a = Some (array_bit a (nat nr))"
  using bit_ops_in_range [OF assms] unfolding test_and_ops by fastforce

end
