(* ===== verification/Bitmap.thy ===== *)
theory Bitmap
  imports Bitops
begin

text \<open>
  The bitmap operations of \<open>bitmap.c\<close> and \<open>bitmap.h\<close>. A bitmap of \<open>nbits\<close> bits is a list of
  \<open>BITS_TO_LONGS nbits\<close> words; the functions of the source that are named with two leading
  underscores carry the prefix \<open>raw_\<close>. Each operation is related to an operation on the set of
  the bits that are set.
\<close>

section \<open>Operations\<close>

definition BITMAP_LAST_WORD_MASK :: "nat \<Rightarrow> u64" where
  "BITMAP_LAST_WORD_MASK nbits =
     (if nbits mod BITS_PER_LONG \<noteq> 0 then push_bit (nbits mod BITS_PER_LONG) 1 - 1 else NOT 0)"

subsection \<open>Whole-word loops of bitmap.c\<close>

definition raw_bitmap_empty :: "u64 list \<Rightarrow> nat \<Rightarrow> bool" where
  "raw_bitmap_empty bitmap bits =
     (let lim = bits div BITS_PER_LONG
      in list_all (\<lambda>k. bitmap ! k = 0) [0..<lim] \<and>
         (bits mod BITS_PER_LONG \<noteq> 0 \<longrightarrow> bitmap ! lim AND BITMAP_LAST_WORD_MASK bits = 0))"

definition raw_bitmap_full :: "u64 list \<Rightarrow> nat \<Rightarrow> bool" where
  "raw_bitmap_full bitmap bits =
     (let lim = bits div BITS_PER_LONG
      in list_all (\<lambda>k. NOT (bitmap ! k) = 0) [0..<lim] \<and>
         (bits mod BITS_PER_LONG \<noteq> 0 \<longrightarrow> NOT (bitmap ! lim) AND BITMAP_LAST_WORD_MASK bits = 0))"

definition raw_bitmap_weight :: "u64 list \<Rightarrow> nat \<Rightarrow> nat" where
  "raw_bitmap_weight bitmap bits =
     (let lim = bits div BITS_PER_LONG;
          w = fold (\<lambda>k w. w + unat (hweight_long (bitmap ! k))) [0..<lim] 0
      in if bits mod BITS_PER_LONG \<noteq> 0
         then w + unat (hweight_long (bitmap ! lim AND BITMAP_LAST_WORD_MASK bits)) else w)"

definition raw_bitmap_equal :: "u64 list \<Rightarrow> u64 list \<Rightarrow> nat \<Rightarrow> bool" where
  "raw_bitmap_equal bitmap1 bitmap2 bits =
     (let lim = bits div BITS_PER_LONG
      in list_all (\<lambda>k. bitmap1 ! k = bitmap2 ! k) [0..<lim] \<and>
         (bits mod BITS_PER_LONG \<noteq> 0 \<longrightarrow>
            (bitmap1 ! lim XOR bitmap2 ! lim) AND BITMAP_LAST_WORD_MASK bits = 0))"

definition raw_bitmap_complement :: "u64 list \<Rightarrow> u64 list \<Rightarrow> nat \<Rightarrow> u64 list" where
  "raw_bitmap_complement dst src bits =
     (let lim = bits div BITS_PER_LONG;
          dst = array_loop (\<lambda>k. NOT (src ! k)) [0..<lim] dst
      in if bits mod BITS_PER_LONG \<noteq> 0
         then dst[lim := NOT (src ! lim) AND BITMAP_LAST_WORD_MASK bits] else dst)"

definition raw_bitmap_and :: "u64 list \<Rightarrow> u64 list \<Rightarrow> u64 list \<Rightarrow> nat \<Rightarrow> u64 list" where
  "raw_bitmap_and dst bitmap1 bitmap2 bits =
     array_loop (\<lambda>k. bitmap1 ! k AND bitmap2 ! k) [0..<BITS_TO_LONGS bits] dst"

definition raw_bitmap_or :: "u64 list \<Rightarrow> u64 list \<Rightarrow> u64 list \<Rightarrow> nat \<Rightarrow> u64 list" where
  "raw_bitmap_or dst bitmap1 bitmap2 bits =
     array_loop (\<lambda>k. bitmap1 ! k OR bitmap2 ! k) [0..<BITS_TO_LONGS bits] dst"

definition raw_bitmap_xor :: "u64 list \<Rightarrow> u64 list \<Rightarrow> u64 list \<Rightarrow> nat \<Rightarrow> u64 list" where
  "raw_bitmap_xor dst bitmap1 bitmap2 bits =
     array_loop (\<lambda>k. bitmap1 ! k XOR bitmap2 ! k) [0..<BITS_TO_LONGS bits] dst"

definition raw_bitmap_andnot :: "u64 list \<Rightarrow> u64 list \<Rightarrow> u64 list \<Rightarrow> nat \<Rightarrow> u64 list" where
  "raw_bitmap_andnot dst bitmap1 bitmap2 bits =
     array_loop (\<lambda>k. bitmap1 ! k AND NOT (bitmap2 ! k)) [0..<BITS_TO_LONGS bits] dst"

definition raw_bitmap_intersects :: "u64 list \<Rightarrow> u64 list \<Rightarrow> nat \<Rightarrow> bool" where
  "raw_bitmap_intersects bitmap1 bitmap2 bits =
     (let lim = bits div BITS_PER_LONG
      in list_ex (\<lambda>k. bitmap1 ! k AND bitmap2 ! k \<noteq> 0) [0..<lim] \<or>
         (bits mod BITS_PER_LONG \<noteq> 0 \<and>
            (bitmap1 ! lim AND bitmap2 ! lim) AND BITMAP_LAST_WORD_MASK bits \<noteq> 0))"

subsection \<open>Shifts\<close>

text \<open>
  One iteration of the shift loops. \<open>upper << (BITS_PER_LONG - rem)\<close> with \<open>rem = 0\<close> is a shift
  of a zero word by the full width, which the source reaches only with \<open>upper = 0\<close>.
\<close>

definition shift_right_word :: "u64 list \<Rightarrow> nat \<Rightarrow> nat \<Rightarrow> nat \<Rightarrow> u64" where
  "shift_right_word src shift bits k =
     (let lim = BITS_TO_LONGS bits; left = bits mod BITS_PER_LONG;
          off = shift div BITS_PER_LONG; rem = shift mod BITS_PER_LONG;
          mask = push_bit left 1 - 1;
          upper = (if rem = 0 \<or> off + k + 1 \<ge> lim then 0
                   else if off + k + 1 = lim - 1 \<and> left \<noteq> 0
                        then src ! (off + k + 1) AND mask else src ! (off + k + 1));
          lower = (if left \<noteq> 0 \<and> off + k = lim - 1
                   then src ! (off + k) AND mask else src ! (off + k));
          d = push_bit (BITS_PER_LONG - rem) upper OR drop_bit rem lower
      in if left \<noteq> 0 \<and> k = lim - 1 then d AND mask else d)"

definition raw_bitmap_shift_right :: "u64 list \<Rightarrow> u64 list \<Rightarrow> nat \<Rightarrow> nat \<Rightarrow> u64 list" where
  "raw_bitmap_shift_right dst src shift bits =
     (let lim = BITS_TO_LONGS bits; off = shift div BITS_PER_LONG;
          dst = array_loop (shift_right_word src shift bits) [0..<lim - off] dst
      in array_loop (\<lambda>_. 0) [lim - off..<lim] dst)"

definition shift_left_word :: "u64 list \<Rightarrow> nat \<Rightarrow> nat \<Rightarrow> nat \<Rightarrow> u64" where
  "shift_left_word src shift bits k =
     (let lim = BITS_TO_LONGS bits; left = bits mod BITS_PER_LONG;
          off = shift div BITS_PER_LONG; rem = shift mod BITS_PER_LONG;
          lower = (if rem \<noteq> 0 \<and> k > 0 then src ! (k - 1) else 0);
          upper = (if left \<noteq> 0 \<and> k = lim - 1 then src ! k AND (push_bit left 1 - 1) else src ! k);
          d = drop_bit (BITS_PER_LONG - rem) lower OR push_bit rem upper
      in if left \<noteq> 0 \<and> k + off = lim - 1 then d AND (push_bit left 1 - 1) else d)"

text \<open>
  The loop of \<open>__bitmap_shift_left\<close> runs \<open>k\<close> downwards and writes \<open>dst[k + off]\<close>. The parser
  calls it with \<open>dst\<close> and \<open>src\<close> the same array, so the loop is modelled on one array that is
  read and written (\<open>_inplace\<close>), and on two separate arrays.
\<close>

definition raw_bitmap_shift_left :: "u64 list \<Rightarrow> u64 list \<Rightarrow> nat \<Rightarrow> nat \<Rightarrow> u64 list" where
  "raw_bitmap_shift_left dst src shift bits =
     (let lim = BITS_TO_LONGS bits; off = shift div BITS_PER_LONG;
          dst = fold (\<lambda>k dst. dst[k + off := shift_left_word src shift bits k])
                  (rev [0..<lim - off]) dst
      in array_loop (\<lambda>_. 0) [0..<off] dst)"

definition raw_bitmap_shift_left_inplace :: "u64 list \<Rightarrow> nat \<Rightarrow> nat \<Rightarrow> u64 list" where
  "raw_bitmap_shift_left_inplace m shift bits =
     (let lim = BITS_TO_LONGS bits; off = shift div BITS_PER_LONG;
          m = fold (\<lambda>k m. m[k + off := shift_left_word m shift bits k])
                (rev [0..<lim - off]) m
      in array_loop (\<lambda>_. 0) [0..<off] m)"

subsection \<open>The inline operations of bitmap.h\<close>

definition bitmap_zero :: "u64 list \<Rightarrow> nat \<Rightarrow> u64 list" where
  "bitmap_zero dst nbits =
     (if nbits \<le> BITS_PER_LONG then dst[0 := 0]
      else array_loop (\<lambda>_. 0) [0..<BITS_TO_LONGS nbits] dst)"

definition bitmap_fill :: "u64 list \<Rightarrow> nat \<Rightarrow> u64 list" where
  "bitmap_fill dst nbits =
     (let nlongs = BITS_TO_LONGS nbits;
          dst = (if nlongs > 1 then array_loop (\<lambda>_. NOT 0) [0..<nlongs - 1] dst else dst)
      in dst[nlongs - 1 := BITMAP_LAST_WORD_MASK nbits])"

definition bitmap_copy :: "u64 list \<Rightarrow> u64 list \<Rightarrow> nat \<Rightarrow> u64 list" where
  "bitmap_copy dst src nbits =
     (if nbits \<le> BITS_PER_LONG then dst[0 := src ! 0]
      else array_loop (\<lambda>k. src ! k) [0..<BITS_TO_LONGS nbits] dst)"

definition bitmap_and :: "u64 list \<Rightarrow> u64 list \<Rightarrow> u64 list \<Rightarrow> nat \<Rightarrow> u64 list" where
  "bitmap_and dst src1 src2 nbits =
     (if nbits \<le> BITS_PER_LONG then dst[0 := src1 ! 0 AND src2 ! 0]
      else raw_bitmap_and dst src1 src2 nbits)"

definition bitmap_or :: "u64 list \<Rightarrow> u64 list \<Rightarrow> u64 list \<Rightarrow> nat \<Rightarrow> u64 list" where
  "bitmap_or dst src1 src2 nbits =
     (if nbits \<le> BITS_PER_LONG then dst[0 := src1 ! 0 OR src2 ! 0]
      else raw_bitmap_or dst src1 src2 nbits)"

definition bitmap_xor :: "u64 list \<Rightarrow> u64 list \<Rightarrow> u64 list \<Rightarrow> nat \<Rightarrow> u64 list" where
  "bitmap_xor dst src1 src2 nbits =
     (if nbits \<le> BITS_PER_LONG then dst[0 := src1 ! 0 XOR src2 ! 0]
      else raw_bitmap_xor dst src1 src2 nbits)"

definition bitmap_andnot :: "u64 list \<Rightarrow> u64 list \<Rightarrow> u64 list \<Rightarrow> nat \<Rightarrow> u64 list" where
  "bitmap_andnot dst src1 src2 nbits =
     (if nbits \<le> BITS_PER_LONG then dst[0 := src1 ! 0 AND NOT (src2 ! 0)]
      else raw_bitmap_andnot dst src1 src2 nbits)"

definition bitmap_complement :: "u64 list \<Rightarrow> u64 list \<Rightarrow> nat \<Rightarrow> u64 list" where
  "bitmap_complement dst src nbits =
     (if nbits \<le> BITS_PER_LONG then dst[0 := NOT (src ! 0) AND BITMAP_LAST_WORD_MASK nbits]
      else raw_bitmap_complement dst src nbits)"

definition bitmap_equal :: "u64 list \<Rightarrow> u64 list \<Rightarrow> nat \<Rightarrow> bool" where
  "bitmap_equal src1 src2 nbits =
     (if nbits \<le> BITS_PER_LONG
      then (src1 ! 0 XOR src2 ! 0) AND BITMAP_LAST_WORD_MASK nbits = 0
      else raw_bitmap_equal src1 src2 nbits)"

definition bitmap_intersects :: "u64 list \<Rightarrow> u64 list \<Rightarrow> nat \<Rightarrow> bool" where
  "bitmap_intersects src1 src2 nbits =
     (if nbits \<le> BITS_PER_LONG
      then (src1 ! 0 AND src2 ! 0) AND BITMAP_LAST_WORD_MASK nbits \<noteq> 0
      else raw_bitmap_intersects src1 src2 nbits)"

definition bitmap_empty :: "u64 list \<Rightarrow> nat \<Rightarrow> bool" where
  "bitmap_empty src nbits =
     (if nbits \<le> BITS_PER_LONG then src ! 0 AND BITMAP_LAST_WORD_MASK nbits = 0
      else raw_bitmap_empty src nbits)"

definition bitmap_full :: "u64 list \<Rightarrow> nat \<Rightarrow> bool" where
  "bitmap_full src nbits =
     (if nbits \<le> BITS_PER_LONG then NOT (src ! 0) AND BITMAP_LAST_WORD_MASK nbits = 0
      else raw_bitmap_full src nbits)"

definition bitmap_weight :: "u64 list \<Rightarrow> nat \<Rightarrow> nat" where
  "bitmap_weight src nbits =
     (if nbits \<le> BITS_PER_LONG
      then unat (hweight_long (src ! 0 AND BITMAP_LAST_WORD_MASK nbits))
      else raw_bitmap_weight src nbits)"

definition bitmap_shift_right :: "u64 list \<Rightarrow> u64 list \<Rightarrow> nat \<Rightarrow> nat \<Rightarrow> u64 list" where
  "bitmap_shift_right dst src n nbits =
     (if nbits \<le> BITS_PER_LONG then dst[0 := drop_bit n (src ! 0)]
      else raw_bitmap_shift_right dst src n nbits)"

definition bitmap_shift_left :: "u64 list \<Rightarrow> u64 list \<Rightarrow> nat \<Rightarrow> nat \<Rightarrow> u64 list" where
  "bitmap_shift_left dst src n nbits =
     (if nbits \<le> BITS_PER_LONG
      then dst[0 := push_bit n (src ! 0) AND BITMAP_LAST_WORD_MASK nbits]
      else raw_bitmap_shift_left dst src n nbits)"

section \<open>Bitmaps as sets of bit numbers\<close>

lemma array_bit_at: "j < 64 \<Longrightarrow> array_bit bm (64 * k + j) = bit (bm ! k) j"
  by (simp add: array_bit_def)

definition bits_of :: "u64 list \<Rightarrow> nat \<Rightarrow> nat set" where
  "bits_of bm nbits = {i. i < nbits \<and> array_bit bm i}"

definition wf_bitmap :: "u64 list \<Rightarrow> nat \<Rightarrow> bool" where
  "wf_bitmap bm nbits \<longleftrightarrow> 0 < nbits \<and> length bm = BITS_TO_LONGS nbits"

text \<open>No bit beyond the size is set (the unused bits of the last word are zero).\<close>

definition clean_bitmap :: "u64 list \<Rightarrow> nat \<Rightarrow> bool" where
  "clean_bitmap bm nbits \<longleftrightarrow> wf_bitmap bm nbits \<and> (\<forall>i < 64 * length bm. array_bit bm i \<longrightarrow> i < nbits)"

lemma BITS_TO_LONGS_64: "BITS_TO_LONGS n = (n + 63) div 64"
  by (simp add: BITS_TO_LONGS_def BITS_PER_LONG_def)

lemma longs_lim: "BITS_TO_LONGS n = (if n mod 64 = 0 then n div 64 else n div 64 + 1)"
proof -
  define q r where "q = n div 64" and "r = n mod 64"
  have n: "n = r + 64 * q" and r: "r < 64" by (simp_all add: q_def r_def)
  have "(r + 63 + 64 * q) div 64 = (if r = 0 then q else q + 1)"
  proof (cases "r = 0")
    case False
    then have "r + 63 + 64 * q = (r - 1) + 64 * (q + 1)" "r - 1 < 64" using r by simp_all
    then show ?thesis using False by (simp only: div_add_multiple) simp
  qed simp
  moreover have "n + 63 = r + 63 + 64 * q" using n by simp
  ultimately show ?thesis
    unfolding BITS_TO_LONGS_64 by (simp only: q_def r_def)
qed

lemma longs_bound: "n \<le> 64 * BITS_TO_LONGS n"
proof -
  define q r where "q = n div 64" and "r = n mod 64"
  have "n = 64 * q + r" "r < 64" by (simp_all add: q_def r_def)
  then have "r = 0 \<Longrightarrow> n \<le> 64 * q" "n \<le> 64 * (q + 1)" by simp_all
  then show ?thesis unfolding longs_lim q_def [symmetric] r_def [symmetric]
    by (split if_split) blast
qed

lemma longs_index: "i < n \<Longrightarrow> i div 64 < BITS_TO_LONGS n"
  using longs_bound [of n] by (simp add: div_less_iff_less_mult mult.commute)

lemma longs_pos: "0 < n \<Longrightarrow> 0 < BITS_TO_LONGS n"
  using longs_bound [of n] by (cases "BITS_TO_LONGS n") simp_all

lemma longs_one: "0 < n \<Longrightarrow> n \<le> 64 \<Longrightarrow> BITS_TO_LONGS n = 1"
  unfolding longs_lim by (cases "n = 64") simp_all

lemma finite_bits_of [simp]: "finite (bits_of bm n)"
  by (rule finite_subset [of _ "{..<n}"]) (auto simp: bits_of_def)

lemma push_bit_minus_1: "k < 64 \<Longrightarrow> push_bit k 1 - 1 = (mask k :: u64)"
  by (simp add: mask_eq_exp_minus_1 push_bit_eq_mult)

lemma bit_last_word_mask:
  "bit (BITMAP_LAST_WORD_MASK n) j \<longleftrightarrow> j < 64 \<and> (n mod 64 = 0 \<or> j < n mod 64)"
proof (cases "n mod 64 = 0")
  case False
  have "BITMAP_LAST_WORD_MASK n = mask (n mod 64)"
    unfolding BITMAP_LAST_WORD_MASK_def BITS_PER_LONG_def
    using False push_bit_minus_1 [of "n mod 64"] by simp
  with False show ?thesis by (auto simp: bit_mask_iff)
qed (auto simp: BITMAP_LAST_WORD_MASK_def BITS_PER_LONG_def bit_simps)

lemma word_zero_iff: "w = 0 \<longleftrightarrow> (\<forall>j < 64. \<not> bit w j)" for w :: u64
  by (auto simp: bit_eq_iff)

text \<open>
  The loops over whole words followed by a masked look at the last word visit exactly the bits
  below \<open>n\<close>. \<open>W k\<close> is the word the loop body computes from word \<open>k\<close> of its arguments.
\<close>

lemma word_loop_zero:
  "((\<forall>k < n div 64. W k = 0) \<and> (n mod 64 \<noteq> 0 \<longrightarrow> W (n div 64) AND BITMAP_LAST_WORD_MASK n = 0))
   \<longleftrightarrow> (\<forall>i < n. \<not> bit (W (i div 64) :: u64) (i mod 64))" (is "?A \<longleftrightarrow> ?B")
proof
  assume A: ?A
  show ?B
  proof (intro allI impI)
    fix i assume "i < n"
    show "\<not> bit (W (i div 64)) (i mod 64)"
    proof (cases "i div 64 < n div 64")
      case True
      with A show ?thesis by simp
    next
      case False
      with \<open>i < n\<close> have eq: "i div 64 = n div 64" by (metis div_le_mono leD linorder_neqE_nat less_or_eq_imp_le)
      with \<open>i < n\<close> have "i mod 64 < n mod 64" by (metis div_mult_mod_eq nat_add_left_cancel_less)
      with A eq have "W (i div 64) AND BITMAP_LAST_WORD_MASK n = 0"
        and "bit (BITMAP_LAST_WORD_MASK n) (i mod 64)"
        by (auto simp: bit_last_word_mask)
      then show ?thesis by (metis bit_0_eq bit_and_iff bot_apply bot_bool_def)
    qed
  qed
next
  assume B: ?B
  have "W k = 0" if "k < n div 64" for k
    unfolding word_zero_iff
  proof (intro allI impI)
    fix j :: nat assume "j < 64"
    with that have "64 * k + j < n" by linarith
    moreover have "(64 * k + j) div 64 = k" "(64 * k + j) mod 64 = j" using \<open>j < 64\<close> by simp_all
    ultimately show "\<not> bit (W k) j" using B by metis
  qed
  moreover have "W (n div 64) AND BITMAP_LAST_WORD_MASK n = 0" if "n mod 64 \<noteq> 0"
    unfolding word_zero_iff bit_and_iff bit_last_word_mask
  proof (intro allI impI)
    fix j :: nat assume "j < 64"
    show "\<not> (bit (W (n div 64)) j \<and> j < 64 \<and> (n mod 64 = 0 \<or> j < n mod 64))"
    proof
      assume j: "bit (W (n div 64)) j \<and> j < 64 \<and> (n mod 64 = 0 \<or> j < n mod 64)"
      then have "64 * (n div 64) + j < n" using that
        by (metis add_less_cancel_left mult_div_mod_eq)
      moreover have "(64 * (n div 64) + j) div 64 = n div 64" "(64 * (n div 64) + j) mod 64 = j"
        using \<open>j < 64\<close> by simp_all
      ultimately show False using B j by metis
    qed
  qed
  ultimately show ?A by blast
qed

lemma one_word_zero:
  "0 < n \<Longrightarrow> n \<le> 64 \<Longrightarrow>
   w AND BITMAP_LAST_WORD_MASK n = 0 \<longleftrightarrow> (\<forall>i < n. \<not> bit w (i mod 64))" for w :: u64
proof -
  assume "0 < n" "n \<le> 64"
  then have "(n mod 64 = 0 \<or> j < n mod 64) = (j < n)" if "j < 64" for j
    using that by (cases "n = 64") auto
  moreover have "i < 64" "i mod 64 = i" if "i < n" for i
    using that \<open>n \<le> 64\<close> by simp_all
  ultimately show ?thesis
    unfolding word_zero_iff bit_and_iff bit_last_word_mask by metis
qed

section \<open>The operations on sets\<close>

lemma list_all_upt: "list_all P [0..<n] \<longleftrightarrow> (\<forall>k < n. P k)"
  by (auto simp: list_all_iff)

lemma list_ex_upt: "list_ex P [0..<n] \<longleftrightarrow> (\<exists>k < n. P k)"
  by (auto simp: list_ex_iff)

text \<open>Both branches of an inline predicate: one word, or the loop of \<open>bitmap.c\<close>.\<close>

lemma both_branches_zero:
  assumes "0 < n"
  shows "(if n \<le> 64 then W 0 AND BITMAP_LAST_WORD_MASK n = 0
     else (\<forall>k < n div 64. W k = 0) \<and> (n mod 64 \<noteq> 0 \<longrightarrow> W (n div 64) AND BITMAP_LAST_WORD_MASK n = 0))
   \<longleftrightarrow> (\<forall>i < n. \<not> bit (W (i div 64) :: u64) (i mod 64))"
proof (cases "n \<le> 64")
  case True
  then have "i div 64 = 0" if "i < n" for i using that by simp
  with True assms one_word_zero [of n "W 0"] show ?thesis by simp
next
  case False
  then show ?thesis by (simp only: if_False word_loop_zero)
qed

lemmas loop_unfold = BITS_PER_LONG_def Let_def list_all_upt list_ex_upt

lemma bitmap_empty_iff:
  assumes "0 < n"
  shows "bitmap_empty bm n \<longleftrightarrow> bits_of bm n = {}"
proof -
  have "bitmap_empty bm n \<longleftrightarrow> (\<forall>i < n. \<not> bit (bm ! (i div 64)) (i mod 64))"
    unfolding bitmap_empty_def raw_bitmap_empty_def loop_unfold
    by (rule both_branches_zero [OF assms, of "\<lambda>k. bm ! k"])
  then show ?thesis by (auto simp: bits_of_def array_bit_def)
qed

lemma bitmap_full_iff:
  assumes "0 < n"
  shows "bitmap_full bm n \<longleftrightarrow> bits_of bm n = {..<n}"
proof -
  have "bitmap_full bm n \<longleftrightarrow> (\<forall>i < n. \<not> bit (NOT (bm ! (i div 64))) (i mod 64))"
    unfolding bitmap_full_def raw_bitmap_full_def loop_unfold
    by (rule both_branches_zero [OF assms, of "\<lambda>k. NOT (bm ! k)"])
  also have "\<dots> \<longleftrightarrow> (\<forall>i < n. array_bit bm i)"
    by (simp add: array_bit_def bit_not_iff)
  finally show ?thesis by (auto simp: bits_of_def)
qed

lemma bitmap_intersects_iff:
  assumes "0 < n"
  shows "bitmap_intersects a b n \<longleftrightarrow> bits_of a n \<inter> bits_of b n \<noteq> {}"
proof -
  have "(\<not> bitmap_intersects a b n) \<longleftrightarrow> (if n \<le> 64 then (a ! 0 AND b ! 0) AND BITMAP_LAST_WORD_MASK n = 0
     else (\<forall>k < n div 64. a ! k AND b ! k = 0)
       \<and> (n mod 64 \<noteq> 0 \<longrightarrow> (a ! (n div 64) AND b ! (n div 64)) AND BITMAP_LAST_WORD_MASK n = 0))"
    unfolding bitmap_intersects_def raw_bitmap_intersects_def loop_unfold
    by (cases "n \<le> 64"; simp only: if_True if_False; blast)
  also have "\<dots> \<longleftrightarrow> (\<forall>i < n. \<not> bit (a ! (i div 64) AND b ! (i div 64)) (i mod 64))"
    by (rule both_branches_zero [OF assms, of "\<lambda>k. a ! k AND b ! k"])
  finally show ?thesis by (auto simp: bits_of_def array_bit_def bit_and_iff)
qed

lemma bitmap_equal_iff:
  assumes "0 < n"
  shows "bitmap_equal a b n \<longleftrightarrow> bits_of a n = bits_of b n"
proof -
  have xor0: "(v = w) \<longleftrightarrow> v XOR w = 0" for v w :: u64
    by (auto simp: bit_eq_iff bit_xor_iff)
  have "bitmap_equal a b n \<longleftrightarrow> (\<forall>i < n. \<not> bit (a ! (i div 64) XOR b ! (i div 64)) (i mod 64))"
    unfolding bitmap_equal_def raw_bitmap_equal_def loop_unfold xor0 [of "a ! _"]
    by (rule both_branches_zero [OF assms, of "\<lambda>k. a ! k XOR b ! k"])
  also have "\<dots> \<longleftrightarrow> (\<forall>i < n. array_bit a i = array_bit b i)"
    by (auto simp: array_bit_def bit_xor_iff)
  finally show ?thesis by (auto simp: bits_of_def)
qed

text \<open>The weight is the number of set bits.\<close>

lemma card_word_bits: "card {i. i < 64 * Suc k \<and> array_bit bm i}
    = card {i. i < 64 * k \<and> array_bit bm i} + popcount (bm ! k)"
proof -
  have "{i. i < 64 * Suc k \<and> array_bit bm i}
      = {i. i < 64 * k \<and> array_bit bm i} \<union> (\<lambda>j. 64 * k + j) ` {j. bit (bm ! k) j}" (is "?L = ?A \<union> ?B")
  proof (intro set_eqI iffI)
    fix i assume "i \<in> ?L"
    show "i \<in> ?A \<union> ?B"
    proof (cases "i < 64 * k")
      case False
      with \<open>i \<in> ?L\<close> have "i div 64 = k" by (auto intro: div_nat_eqI)
      then have "i = 64 * k + i mod 64" by (metis mult_div_mod_eq)
      with \<open>i \<in> ?L\<close> \<open>i div 64 = k\<close> show ?thesis by (auto simp: array_bit_def)
    qed (use \<open>i \<in> ?L\<close> in auto)
  next
    fix i assume "i \<in> ?A \<union> ?B"
    moreover have "j < 64" if "bit (bm ! k) j" for j
      using bit_imp_le_length [OF that] by simp
    ultimately show "i \<in> ?L" by (auto simp: array_bit_def)
  qed
  moreover have "?A \<inter> ?B = {}" by auto
  moreover have "finite ?A" by simp
  moreover have "finite {j. bit (bm ! k) j}"
    by (rule finite_subset [of _ "{..<64}"]) (auto dest: bit_imp_le_length)
  ultimately show ?thesis
    by (simp add: card_Un_disjoint card_image popcount_eq_card)
qed

lemma fold_weight:
  "fold (\<lambda>k w. w + unat (hweight_long (bm ! k))) [0..<m] 0 = card {i. i < 64 * m \<and> array_bit bm i}"
proof (induction m)
  case (Suc m)
  then show ?case
    unfolding card_word_bits by (simp add: hweight_long_def hweight64_popcount)
qed simp

lemma bitmap_weight_card:
  assumes n: "0 < n"
  shows "bitmap_weight bm n = card (bits_of bm n)"
proof (cases "n \<le> 64")
  case True
  have "bit (bm ! 0 AND BITMAP_LAST_WORD_MASK n) j \<longleftrightarrow> j < n \<and> array_bit bm j" for j
  proof (cases "j < 64")
    case j: True
    have "(n mod 64 = 0 \<or> j < n mod 64) = (j < n)"
      using True n j by (cases "n = 64") auto
    with j show ?thesis by (auto simp: bit_and_iff bit_last_word_mask array_bit_def)
  next
    case False
    then show ?thesis using True by (auto simp: bit_and_iff bit_last_word_mask)
  qed
  with True show ?thesis
    by (simp add: bitmap_weight_def BITS_PER_LONG_def hweight_long_def hweight64_popcount
        popcount_eq_card bits_of_def)
next
  case False
  let ?lim = "n div 64" and ?lo = "{i. i < 64 * (n div 64) \<and> array_bit bm i}"
  let ?last = "{j. bit (bm ! ?lim AND BITMAP_LAST_WORD_MASK n) j}"
  have n_eq: "64 * ?lim + n mod 64 = n" by simp
  have lim_j: "(64 * ?lim + j < n) = (j < n mod 64)" for j
    using n_eq by (metis nat_add_left_cancel_less)
  have wt: "bitmap_weight bm n = card ?lo + (if n mod 64 \<noteq> 0 then card ?last else 0)"
    unfolding bitmap_weight_def raw_bitmap_weight_def BITS_PER_LONG_def Let_def fold_weight
    using False by (simp add: hweight_long_def hweight64_popcount popcount_eq_card)
  show ?thesis
  proof (cases "n mod 64 = 0")
    case True
    with n_eq have "64 * ?lim = n" by simp
    then show ?thesis using wt True by (simp add: bits_of_def)
  next
    case r: False
    have mem: "i \<in> bits_of bm n \<longleftrightarrow> i \<in> ?lo \<union> (\<lambda>j. 64 * ?lim + j) ` ?last" for i
    proof (cases "i < 64 * ?lim")
      case False
      then obtain j where j: "i = 64 * ?lim + j" using le_Suc_ex linorder_not_less by blast
      show ?thesis
      proof (cases "j < n mod 64")
        case True
        then have "j < 64" by (meson less_trans mod_less_divisor zero_less_numeral)
        with True j show ?thesis
          by (auto simp: lim_j bits_of_def array_bit_def bit_and_iff bit_last_word_mask)
      next
        case False
        with j r show ?thesis
          by (auto simp: lim_j bits_of_def bit_and_iff bit_last_word_mask)
      qed
    qed (use n_eq in \<open>auto simp: bits_of_def\<close>)
    have "finite ?last"
      by (rule finite_subset [of _ "{..<64}"]) (auto dest: bit_imp_le_length)
    then have "card (?lo \<union> (\<lambda>j. 64 * ?lim + j) ` ?last) = card ?lo + card ?last"
      by (subst card_Un_disjoint) (auto simp: card_image)
    moreover have "bits_of bm n = ?lo \<union> (\<lambda>j. 64 * ?lim + j) ` ?last"
      using mem by blast
    ultimately show ?thesis using wt r by simp
  qed
qed

text \<open>The operations that write a bitmap.\<close>

lemma BPL [simp]: "BITS_PER_LONG = 64"
  by (simp add: BITS_PER_LONG_def)

lemma bits_of_array_loop:
  assumes "wf_bitmap dst n"
  shows "bits_of (array_loop f [0..<BITS_TO_LONGS n] dst) n = {i. i < n \<and> bit (f (i div 64)) (i mod 64)}"
  using assms longs_index [of _ n] by (auto simp: bits_of_def array_bit_def wf_bitmap_def)

lemma wf_array_loop [simp]: "wf_bitmap (array_loop f ks dst) n = wf_bitmap dst n"
  by (simp add: wf_bitmap_def)

lemma write_as_loop:
  assumes "wf_bitmap dst n"
  shows bitmap_and_loop: "bitmap_and dst a b n = array_loop (\<lambda>k. a ! k AND b ! k) [0..<BITS_TO_LONGS n] dst"
    and bitmap_or_loop: "bitmap_or dst a b n = array_loop (\<lambda>k. a ! k OR b ! k) [0..<BITS_TO_LONGS n] dst"
    and bitmap_xor_loop: "bitmap_xor dst a b n = array_loop (\<lambda>k. a ! k XOR b ! k) [0..<BITS_TO_LONGS n] dst"
    and bitmap_andnot_loop: "bitmap_andnot dst a b n = array_loop (\<lambda>k. a ! k AND NOT (b ! k)) [0..<BITS_TO_LONGS n] dst"
    and bitmap_zero_loop: "bitmap_zero dst n = array_loop (\<lambda>_. 0) [0..<BITS_TO_LONGS n] dst"
    and bitmap_copy_loop: "bitmap_copy dst a n = array_loop (\<lambda>k. a ! k) [0..<BITS_TO_LONGS n] dst"
  using assms
  by (simp_all add: wf_bitmap_def longs_one array_loop_def bitmap_and_def bitmap_or_def bitmap_xor_def bitmap_andnot_def bitmap_zero_def
      bitmap_copy_def raw_bitmap_and_def raw_bitmap_or_def raw_bitmap_xor_def raw_bitmap_andnot_def)

lemma bits_of_writes:
  assumes "wf_bitmap dst n"
  shows bits_of_and: "bits_of (bitmap_and dst a b n) n = bits_of a n \<inter> bits_of b n"
    and bits_of_or: "bits_of (bitmap_or dst a b n) n = bits_of a n \<union> bits_of b n"
    and bits_of_xor: "bits_of (bitmap_xor dst a b n) n = (bits_of a n - bits_of b n) \<union> (bits_of b n - bits_of a n)"
    and bits_of_andnot: "bits_of (bitmap_andnot dst a b n) n = bits_of a n - bits_of b n"
    and bits_of_zero: "bits_of (bitmap_zero dst n) n = {}"
    and bits_of_copy: "bits_of (bitmap_copy dst a n) n = bits_of a n"
  unfolding write_as_loop [OF assms] bits_of_array_loop [OF assms]
  by (auto simp: bits_of_def array_bit_def bit_and_iff bit_or_iff bit_xor_iff bit_not_iff)

lemma last_word_bit:
  assumes "i < 64 * BITS_TO_LONGS n"
  shows "(i div 64 = BITS_TO_LONGS n - 1 \<longrightarrow> bit (BITMAP_LAST_WORD_MASK n) (i mod 64)) = (i < n)"
    and "i div 64 = n div 64 \<Longrightarrow> n mod 64 \<noteq> 0 \<Longrightarrow> bit (BITMAP_LAST_WORD_MASK n) (i mod 64) = (i < n)"
proof -
  define q r where "q = n div 64" and "r = n mod 64"
  define k j where "k = i div 64" and "j = i mod 64"
  have n: "n = 64 * q + r" "r < 64" and i: "i = 64 * k + j" "j < 64"
    by (simp_all add: q_def r_def k_def j_def)
  have lim: "BITS_TO_LONGS n = (if r = 0 then q else q + 1)"
    by (simp only: longs_lim q_def r_def)
  have k: "k < BITS_TO_LONGS n" using assms by (simp add: k_def div_less_iff_less_mult mult.commute)
  have "(k = BITS_TO_LONGS n - 1 \<longrightarrow> r = 0 \<or> j < r) = (64 * k + j < 64 * q + r)"
  proof (cases "r = 0")
    case True
    with k lim i(2) show ?thesis by simp
  next
    case False
    with k lim have "k \<le> q" by simp
    with False lim i(2) n(2) show ?thesis by (cases "k = q") auto
  qed
  moreover have mask: "bit (BITMAP_LAST_WORD_MASK n) (i mod 64) = (r = 0 \<or> j < r)"
    by (simp add: bit_last_word_mask r_def j_def)
  ultimately show "(i div 64 = BITS_TO_LONGS n - 1 \<longrightarrow> bit (BITMAP_LAST_WORD_MASK n) (i mod 64)) = (i < n)"
    by (simp only: n(1) [symmetric] i(1) [symmetric] k_def [symmetric])
  assume "i div 64 = n div 64" "n mod 64 \<noteq> 0"
  then have "k = q" "r \<noteq> 0" unfolding k_def q_def r_def by blast+
  then have "(j < r) = (i < n)" unfolding n(1) i(1) by simp
  with \<open>r \<noteq> 0\<close> mask show "bit (BITMAP_LAST_WORD_MASK n) (i mod 64) = (i < n)" by blast
qed

lemma array_bit_fill:
  assumes "wf_bitmap dst n" and "i < 64 * length dst"
  shows "array_bit (bitmap_fill dst n) i = (i < n)"
proof -
  let ?l = "BITS_TO_LONGS n"
  have len: "length dst = ?l" "0 < ?l" using assms(1) longs_pos by (auto simp: wf_bitmap_def)
  have k: "i div 64 < ?l" using assms(2) len by (simp add: div_less_iff_less_mult mult.commute)
  have "bitmap_fill dst n ! (i div 64)
      = (if i div 64 = ?l - 1 then BITMAP_LAST_WORD_MASK n else NOT 0)"
    using k len by (auto simp: bitmap_fill_def Let_def nth_list_update)
  then have "array_bit (bitmap_fill dst n) i
      = (i div 64 = ?l - 1 \<longrightarrow> bit (BITMAP_LAST_WORD_MASK n) (i mod 64))"
    by (simp add: array_bit_def bit_not_iff)
  then show ?thesis using last_word_bit(1) [of i n] assms(2) len(1) by simp
qed

lemma length_fill [simp]: "length (bitmap_fill dst n) = length dst"
  by (simp add: bitmap_fill_def Let_def)

lemma array_bit_complement:
  assumes "wf_bitmap dst n" and "i < 64 * length dst"
  shows "array_bit (bitmap_complement dst src n) i = (i < n \<and> \<not> array_bit src i)"
proof -
  let ?l = "BITS_TO_LONGS n"
  have len: "length dst = ?l" "0 < n" using assms(1) by (auto simp: wf_bitmap_def)
  have k: "i div 64 < ?l" using assms(2) len by (simp add: div_less_iff_less_mult mult.commute)
  have i: "i < 64 * ?l" using assms(2) len(1) by simp
  show ?thesis
  proof (cases "n \<le> 64")
    case True
    then have l: "?l = 1" using len longs_one by simp
    then have "i div 64 = 0" using k by simp
    with True l len last_word_bit(1) [OF i] show ?thesis
      by (auto simp: bitmap_complement_def array_bit_def bit_and_iff bit_not_iff)
  next
    case False
    show ?thesis
    proof (cases "n mod 64 \<noteq> 0 \<and> i div 64 = n div 64")
      case True
      with False k len last_word_bit(2) [OF i] show ?thesis
        by (simp add: bitmap_complement_def raw_bitmap_complement_def array_bit_def Let_def
            bit_and_iff bit_not_iff conj_commute)
    next
      case nlast: False
      with k have "i div 64 < n div 64" unfolding longs_lim by (auto split: if_splits)
      moreover from this have "i < n"
        by (metis div_le_mono leI less_le_not_le)
      ultimately show ?thesis using False k len
        by (auto simp: bitmap_complement_def raw_bitmap_complement_def array_bit_def Let_def
            bit_not_iff)
    qed
  qed
qed

lemma length_complement [simp]: "length (bitmap_complement dst src n) = length dst"
  by (simp add: bitmap_complement_def raw_bitmap_complement_def Let_def)

subsection \<open>Shifts\<close>

lemma fold_offset_as_loop:
  "fold (\<lambda>k dst. dst[k + off := f k]) ks dst = array_loop (\<lambda>i. f (i - off)) (map (\<lambda>k. k + off) ks) dst"
  unfolding array_loop_def by (induction ks arbitrary: dst) simp_all

text \<open>
  The in-place loop reads \<open>m[k]\<close> and \<open>m[k - 1]\<close> and has then only written cells above them, so
  sharing the array changes nothing.
\<close>

lemma shift_left_word_cong:
  "(\<And>i. i \<le> k \<Longrightarrow> m ! i = src ! i) \<Longrightarrow> shift_left_word m shift bits k = shift_left_word src shift bits k"
  by (simp add: shift_left_word_def Let_def)

lemma inplace_loop:
  assumes "\<And>i. i < N \<Longrightarrow> m ! i = src ! i"
  shows "fold (\<lambda>k m. m[k + off := shift_left_word m shift bits k]) (rev [0..<N]) m
    = fold (\<lambda>k m. m[k + off := shift_left_word src shift bits k]) (rev [0..<N]) m"
  using assms
proof (induction N arbitrary: m)
  case (Suc N)
  have "shift_left_word m shift bits N = shift_left_word src shift bits N"
    using Suc.prems by (intro shift_left_word_cong) simp
  moreover have "(m[N + off := w]) ! i = src ! i" if "i < N" for i w
    using that Suc.prems by simp
  ultimately show ?case using Suc.IH by simp
qed simp

theorem shift_left_inplace:
  "raw_bitmap_shift_left_inplace m shift bits = raw_bitmap_shift_left m m shift bits"
  unfolding raw_bitmap_shift_left_inplace_def raw_bitmap_shift_left_def Let_def
  by (subst inplace_loop [where src = m]) simp_all

lemma length_shift_left [simp]: "length (raw_bitmap_shift_left dst src shift bits) = length dst"
  by (simp add: raw_bitmap_shift_left_def Let_def fold_offset_as_loop)

lemma push_bit_minus_1_left: "push_bit (n mod 64) 1 - 1 = (mask (n mod 64) :: u64)"
  by (rule push_bit_minus_1) simp

text \<open>Bit \<open>j\<close> of the word the left shift writes at index \<open>k + off\<close>.\<close>

lemma bit_shift_left_word:
  fixes j k n shift :: nat
  assumes j: "j < 64" and k: "k < BITS_TO_LONGS n"
  defines "i \<equiv> 64 * (k + shift div 64) + j"
  assumes i: "i < 64 * BITS_TO_LONGS n"
  shows "bit (shift_left_word src shift n k) j \<longleftrightarrow> i < n \<and> shift \<le> i \<and> array_bit src (i - shift)"
proof -
  define off rem where "off = shift div 64" and "rem = shift mod 64"
  define lim left where "lim = BITS_TO_LONGS n" and "left = n mod 64"
  have shift: "shift = 64 * off + rem" "rem < 64" by (simp_all add: off_def rem_def)
  have "i = j + 64 * (k + off)" by (simp add: i_def off_def)
  then have "i div 64 = k + off" "i mod 64 = j"
    using j by (simp_all only: div_add_multiple mod_add_multiple)
  with last_word_bit(1) [OF i] j
  have low: "(left \<noteq> 0 \<and> k + off = lim - 1 \<longrightarrow> j < left) = (i < n)"
    by (auto simp: bit_last_word_mask lim_def left_def)
  define lower where "lower = (if rem \<noteq> 0 \<and> k > 0 then src ! (k - 1) else 0)"
  define upper where "upper = (if left \<noteq> 0 \<and> k = lim - 1 then src ! k AND mask left else src ! k)"
  define d where "d = drop_bit (64 - rem) lower OR push_bit rem upper"
  have word: "shift_left_word src shift n k
      = (if left \<noteq> 0 \<and> k + off = lim - 1 then d AND mask left else d)"
    unfolding shift_left_word_def Let_def BPL push_bit_minus_1_left d_def lower_def upper_def
      off_def rem_def lim_def left_def by (rule refl)
  have "bit d j \<longleftrightarrow> bit lower (64 - rem + j) \<or> rem \<le> j \<and> bit upper (j - rem)"
    using j by (auto simp: d_def bit_or_iff bit_drop_bit_eq bit_push_bit_iff)
  then have bitw: "bit (shift_left_word src shift n k) j \<longleftrightarrow>
      (bit lower (64 - rem + j) \<or> rem \<le> j \<and> bit upper (j - rem))
      \<and> (left \<noteq> 0 \<and> k + off = lim - 1 \<longrightarrow> j < left)"
    unfolding word using j by (auto simp: bit_and_iff bit_mask_iff)
  show ?thesis
  proof (cases "rem \<le> j")
    case True
    then have le: "shift \<le> i" and diff: "i - shift = 64 * k + (j - rem)"
      using shift j by (auto simp: i_def off_def)
    have b: "array_bit src (i - shift) = bit (src ! k) (j - rem)"
      unfolding diff using j by (intro array_bit_at) simp
    have "bit (shift_left_word src shift n k) j \<longleftrightarrow>
      (left \<noteq> 0 \<and> k = lim - 1 \<longrightarrow> j - rem < left) \<and> bit (src ! k) (j - rem)
        \<and> (left \<noteq> 0 \<and> k + off = lim - 1 \<longrightarrow> j < left)"
    proof -
      have "\<not> bit lower (64 - rem + j)"
        using True shift(2) bit_imp_le_length [of lower "64 - rem + j"] by auto
      moreover have "bit upper (j - rem) \<longleftrightarrow>
          bit (src ! k) (j - rem) \<and> (left \<noteq> 0 \<and> k = lim - 1 \<longrightarrow> j - rem < left)"
        using j by (auto simp: upper_def bit_and_iff bit_mask_iff)
      ultimately show ?thesis using bitw True by blast
    qed
    moreover have "left \<noteq> 0 \<and> k = lim - 1 \<longrightarrow> j - rem < left" if "i < n"
      using low that i by (auto simp: i_def lim_def simp flip: off_def)
    ultimately show ?thesis using low le b by auto
  next
    case False
    have w: "bit (shift_left_word src shift n k) j \<longleftrightarrow>
      0 < k \<and> bit (src ! (k - 1)) (64 - rem + j) \<and> (left \<noteq> 0 \<and> k + off = lim - 1 \<longrightarrow> j < left)"
      using bitw False by (auto simp: lower_def)
    show ?thesis
    proof (cases k)
      case 0
      then have "i < shift" using False shift by (simp add: i_def off_def)
      with 0 w show ?thesis by simp
    next
      case (Suc k')
      then have le: "shift \<le> i" and diff: "i - shift = 64 * k' + (64 - rem + j)"
        using False shift j by (auto simp: i_def off_def)
      have "array_bit src (i - shift) = bit (src ! k') (64 - rem + j)"
        unfolding diff using False shift(2) by (intro array_bit_at) simp
      with w low le Suc show ?thesis by auto
    qed
  qed
qed

theorem array_bit_shift_left:
  assumes wf: "wf_bitmap dst n" and i: "i < 64 * length dst" and s: "shift < n"
  shows "array_bit (raw_bitmap_shift_left dst src shift n) i
    \<longleftrightarrow> i < n \<and> shift \<le> i \<and> array_bit src (i - shift)"
proof -
  define off k j where "off = shift div 64" and "k = i div 64" and "j = i mod 64"
  have len: "length dst = BITS_TO_LONGS n" using wf by (simp add: wf_bitmap_def)
  have ij: "i = 64 * k + j" "j < 64" by (simp_all add: k_def j_def)
  have klen: "k < BITS_TO_LONGS n"
    using i len by (simp add: k_def div_less_iff_less_mult mult.commute)
  have offlim: "off < BITS_TO_LONGS n" using longs_index [OF s] by (simp add: off_def)
  have "raw_bitmap_shift_left dst src shift n ! k
      = (if k < off then 0 else shift_left_word src shift n (k - off))"
  proof -
    have "k \<in> (\<lambda>x. x + off) ` {0..<BITS_TO_LONGS n - off}" if "off \<le> k"
      using that klen by (intro image_eqI [of _ _ "k - off"]) auto
    then show ?thesis using klen len
      by (auto simp: raw_bitmap_shift_left_def Let_def fold_offset_as_loop simp flip: off_def)
  qed
  then have *: "array_bit (raw_bitmap_shift_left dst src shift n) i
      \<longleftrightarrow> off \<le> k \<and> bit (shift_left_word src shift n (k - off)) j"
    by (simp add: array_bit_def k_def j_def)
  show ?thesis
  proof (cases "off \<le> k")
    case True
    then have "64 * (k - off + shift div 64) + j = i" using ij by (simp flip: off_def)
    with bit_shift_left_word [of j "k - off" n shift src] ij klen i len True * show ?thesis
      by simp
  next
    case False
    then have "i < shift" using ij by (metis div_le_mono leI k_def off_def)
    with False * show ?thesis by simp
  qed
qed

text \<open>Bit \<open>j\<close> of the word the right shift writes at index \<open>k\<close>.\<close>

lemma bit_shift_right_word:
  fixes j k n shift :: nat
  assumes j: "j < 64" and k: "k + shift div 64 < BITS_TO_LONGS n"
  defines "i \<equiv> 64 * k + j"
  shows "bit (shift_right_word src shift n k) j \<longleftrightarrow> i + shift < n \<and> array_bit src (i + shift)"
proof -
  define off rem where "off = shift div 64" and "rem = shift mod 64"
  define lim left where "lim = BITS_TO_LONGS n" and "left = n mod 64"
  have shift: "shift = 64 * off + rem" "rem < 64" by (simp_all add: off_def rem_def)
  have klim: "off + k < lim" using k by (simp add: off_def lim_def)
  have below: "(left \<noteq> 0 \<and> m = lim - 1 \<longrightarrow> b < left) = (64 * m + b < n)" if "m < lim" "b < 64" for m b
  proof -
    have "64 * m + b = b + 64 * m" by simp
    then have "(64 * m + b) div 64 = m" "(64 * m + b) mod 64 = b"
      using that(2) by (simp_all only: div_add_multiple mod_add_multiple)
    moreover have "64 * m + b < 64 * BITS_TO_LONGS n" using that by (simp add: lim_def)
    ultimately show ?thesis
      using last_word_bit(1) [of "64 * m + b" n] that(2)
      by (auto simp: bit_last_word_mask lim_def left_def)
  qed
  define upper where "upper = (if rem = 0 \<or> off + k + 1 \<ge> lim then 0
    else if off + k + 1 = lim - 1 \<and> left \<noteq> 0 then src ! (off + k + 1) AND mask left
    else src ! (off + k + 1))"
  define lower where "lower = (if left \<noteq> 0 \<and> off + k = lim - 1 then src ! (off + k) AND mask left
    else src ! (off + k))"
  define d where "d = push_bit (64 - rem) upper OR drop_bit rem lower"
  have word: "shift_right_word src shift n k = (if left \<noteq> 0 \<and> k = lim - 1 then d AND mask left else d)"
    unfolding shift_right_word_def Let_def BPL push_bit_minus_1_left d_def lower_def upper_def
      off_def rem_def lim_def left_def by (rule refl)
  have bitd: "bit d j \<longleftrightarrow> 64 - rem \<le> j \<and> bit upper (j - (64 - rem)) \<or> bit lower (j + rem)"
    using j by (auto simp: d_def bit_or_iff bit_drop_bit_eq bit_push_bit_iff add.commute)
  have d_iff: "bit d j \<longleftrightarrow> i + shift < n \<and> array_bit src (i + shift)"
  proof (cases "j + rem < 64")
    case True
    then have isft: "i + shift = 64 * (off + k) + (j + rem)" using shift by (simp add: i_def)
    have "bit d j \<longleftrightarrow> bit (src ! (off + k)) (j + rem) \<and> (left \<noteq> 0 \<and> off + k = lim - 1 \<longrightarrow> j + rem < left)"
      using True bitd by (auto simp: lower_def bit_and_iff bit_mask_iff)
    with below [OF klim True] array_bit_at [OF True] show ?thesis unfolding isft by blast
  next
    case False
    let ?b = "j + rem - 64"
    have b: "?b < 64" "j - (64 - rem) = ?b" using False j shift(2) by auto
    have isft: "i + shift = 64 * (off + k + 1) + ?b" using shift False by (simp add: i_def)
    have "\<not> bit lower (j + rem)" using False bit_imp_le_length [of lower "j + rem"] by auto
    with bitd b(2) False have "bit d j \<longleftrightarrow> bit upper ?b" by auto
    also have "\<dots> \<longleftrightarrow> off + k + 1 < lim \<and> bit (src ! (off + k + 1)) ?b
        \<and> (left \<noteq> 0 \<and> off + k + 1 = lim - 1 \<longrightarrow> ?b < left)"
      using False j b(1) by (auto simp: upper_def bit_and_iff bit_mask_iff)
    also have "\<dots> \<longleftrightarrow> i + shift < n \<and> array_bit src (i + shift)"
    proof (cases "off + k + 1 < lim")
      case True
      with below [OF True b(1)] array_bit_at [OF b(1)] show ?thesis unfolding isft by blast
    next
      case False
      then have "n \<le> i + shift" using longs_bound [of n] isft by (simp add: lim_def)
      with False show ?thesis by simp
    qed
    finally show ?thesis .
  qed
  have "left \<noteq> 0 \<and> k = lim - 1 \<longrightarrow> j < left" if "i + shift < n"
    using below [of k j] that klim j by (simp add: i_def)
  with d_iff word j show ?thesis by (auto simp: bit_and_iff bit_mask_iff)
qed

theorem array_bit_shift_right:
  assumes wf: "wf_bitmap dst n" and i: "i < 64 * length dst" and s: "shift < n"
  shows "array_bit (raw_bitmap_shift_right dst src shift n) i
    \<longleftrightarrow> i + shift < n \<and> array_bit src (i + shift)"
proof -
  define off k j where "off = shift div 64" and "k = i div 64" and "j = i mod 64"
  have len: "length dst = BITS_TO_LONGS n" using wf by (simp add: wf_bitmap_def)
  have ij: "i = 64 * k + j" "j < 64" by (simp_all add: k_def j_def)
  have klen: "k < BITS_TO_LONGS n"
    using i len by (simp add: k_def div_less_iff_less_mult mult.commute)
  have w: "raw_bitmap_shift_right dst src shift n ! k
      = (if k < BITS_TO_LONGS n - off then shift_right_word src shift n k else 0)"
    using klen len by (simp add: raw_bitmap_shift_right_def Let_def flip: off_def)
  show ?thesis
  proof (cases "k + off < BITS_TO_LONGS n")
    case True
    then have "array_bit (raw_bitmap_shift_right dst src shift n) i
        \<longleftrightarrow> bit (shift_right_word src shift n k) j"
      using w unfolding array_bit_def k_def [symmetric] j_def [symmetric] by auto
    with bit_shift_right_word [OF ij(2), of k shift n src] True show ?thesis
      unfolding ij(1) [symmetric] off_def by blast
  next
    case False
    have "64 * off \<le> shift" by (simp add: off_def)
    with False have "n \<le> i + shift" using longs_bound [of n] ij(1) by linarith
    moreover have "\<not> k < BITS_TO_LONGS n - off" using False by simp
    then have "raw_bitmap_shift_right dst src shift n ! k = 0" using w by simp
    then have "\<not> array_bit (raw_bitmap_shift_right dst src shift n) i"
      by (simp add: array_bit_def k_def)
    ultimately show ?thesis by simp
  qed
qed

section \<open>Properties\<close>

text \<open>
  (C34) On bitmaps of any size, one word or many, with or without unused bits in the last word,
  the operations that write a bitmap are the operations on the sets of bit numbers.
\<close>

theorem bitmap_writes_are_set_operations:
  assumes "wf_bitmap dst n"
  shows "bits_of (bitmap_and dst a b n) n = bits_of a n \<inter> bits_of b n
    \<and> bits_of (bitmap_or dst a b n) n = bits_of a n \<union> bits_of b n
    \<and> bits_of (bitmap_xor dst a b n) n = (bits_of a n - bits_of b n) \<union> (bits_of b n - bits_of a n)
    \<and> bits_of (bitmap_andnot dst a b n) n = bits_of a n - bits_of b n
    \<and> bits_of (bitmap_complement dst a n) n = {..<n} - bits_of a n
    \<and> bits_of (bitmap_fill dst n) n = {..<n}
    \<and> bits_of (bitmap_zero dst n) n = {}
    \<and> bits_of (bitmap_copy dst a n) n = bits_of a n"
proof -
  have "n \<le> 64 * length dst" using assms longs_bound [of n] by (simp add: wf_bitmap_def)
  then have "array_bit (bitmap_complement dst a n) i = (\<not> array_bit a i)" "array_bit (bitmap_fill dst n) i"
    if "i < n" for i
    using array_bit_complement [OF assms, of i a] array_bit_fill [OF assms, of i] that by simp_all
  then have "bits_of (bitmap_complement dst a n) n = {..<n} - bits_of a n" "bits_of (bitmap_fill dst n) n = {..<n}"
    by (auto simp: bits_of_def)
  then show ?thesis by (simp add: bits_of_writes [OF assms])
qed

text \<open>
  (C35) The queries decide the corresponding questions about the sets, and \<open>bitmap_weight\<close> is the
  number of elements.
\<close>

theorem bitmap_queries_decide_sets:
  assumes "0 < n"
  shows "bitmap_empty a n = (bits_of a n = {})
    \<and> bitmap_full a n = (bits_of a n = {..<n})
    \<and> bitmap_equal a b n = (bits_of a n = bits_of b n)
    \<and> bitmap_intersects a b n = (bits_of a n \<inter> bits_of b n \<noteq> {})
    \<and> bitmap_weight a n = card (bits_of a n)"
  using assms by (simp add: bitmap_empty_iff bitmap_full_iff bitmap_equal_iff bitmap_intersects_iff bitmap_weight_card)

text \<open>
  (C33) The parser shifts a bitmap onto itself. The downward loop of \<open>__bitmap_shift_left\<close> never reads
  a word that it has overwritten, so the aliased call does what a call with separate arrays does.
\<close>

theorem shift_left_aliasing_is_harmless:
  "raw_bitmap_shift_left_inplace m shift bits = raw_bitmap_shift_left m m shift bits"
  by (rule shift_left_inplace)

text \<open>
  The shifts move every bit by the given distance, drop the bits that leave the bitmap, shift
  in zeros and leave the unused bits of the last word clear, also when the source has them set.
\<close>

theorem shifts_move_bits:
  assumes "wf_bitmap dst n" and "i < 64 * length dst" and "shift < n"
  shows "array_bit (raw_bitmap_shift_left dst src shift n) i = (i < n \<and> shift \<le> i \<and> array_bit src (i - shift))
    \<and> array_bit (raw_bitmap_shift_right dst src shift n) i = (i + shift < n \<and> array_bit src (i + shift))"
  using array_bit_shift_left [OF assms] array_bit_shift_right [OF assms] by simp

end
