(* ===== verification/Bitmap_Text.thy ===== *)
theory Bitmap_Text
  imports Bitmap
begin

text \<open>
  The text forms of a bitmap in \<open>bitmap.c\<close>: the hexadecimal printer \<open>bitmap_scnprintf\<close> with the
  size of its buffer, the hexadecimal parser \<open>__bitmap_parse\<close> and the parser of decimal CPU
  lists \<open>__bitmap_parselist\<close>. The parsers return the code of the source together with the mask
  they leave behind, since the callers ignore the code.
\<close>

section \<open>Characters\<close>

text \<open>The classes of \<open>ctype.h\<close> in the C locale.\<close>

definition isspace :: "char \<Rightarrow> bool" where
  "isspace c \<longleftrightarrow> c = CHR '' '' \<or> (9 \<le> (of_char c :: nat) \<and> (of_char c :: nat) \<le> 13)"

definition isdigit :: "char \<Rightarrow> bool" where
  "isdigit c \<longleftrightarrow> 48 \<le> (of_char c :: nat) \<and> (of_char c :: nat) \<le> 57"

definition isxdigit :: "char \<Rightarrow> bool" where
  "isxdigit c \<longleftrightarrow> isdigit c \<or> (65 \<le> (of_char c :: nat) \<and> (of_char c :: nat) \<le> 70)
     \<or> (97 \<le> (of_char c :: nat) \<and> (of_char c :: nat) \<le> 102)"

definition toupper :: "char \<Rightarrow> nat" where
  "toupper c = (if 97 \<le> (of_char c :: nat) \<and> (of_char c :: nat) \<le> 122 then of_char c - 32 else of_char c)"

definition unhex :: "char \<Rightarrow> nat" where
  "unhex c = (if isdigit c then of_char c - 48 else toupper c - 65 + 10)"

definition NUL :: char where
  "NUL = CHR 0x00"

section \<open>bitmap_scnprintf\<close>

definition hex_digit :: "nat \<Rightarrow> char" where
  "hex_digit d = ''0123456789abcdef'' ! d"

fun hex_of_nat :: "nat \<Rightarrow> string" where
  "hex_of_nat v = (if v < 16 then [hex_digit v] else hex_of_nat (v div 16) @ [hex_digit (v mod 16)])"

declare hex_of_nat.simps [simp del]

text \<open>The conversion \<open>%0*lx\<close>.\<close>

definition pad_hex :: "nat \<Rightarrow> nat \<Rightarrow> string" where
  "pad_hex width v = replicate (width - length (hex_of_nat v)) CHR ''0'' @ hex_of_nat v"

text \<open>
  \<open>len += snprintf(buf + len, buflen - len, ...)\<close> for a buffer of \<open>buflen\<close> bytes that holds
  \<open>text\<close>. \<open>snprintf\<close> stores what fits with the terminator and returns the length of the whole
  output. \<open>buflen - len\<close> is unsigned: once \<open>len\<close> is larger than \<open>buflen\<close> it wraps to a huge
  size and the call writes behind the buffer, which is the result \<open>None\<close>.
\<close>

definition snprintf_at :: "nat \<Rightarrow> string \<times> nat \<Rightarrow> string \<Rightarrow> (string \<times> nat) option" where
  "snprintf_at buflen = (\<lambda>(text, len) s.
     if len > buflen then None else Some (text @ take (buflen - len - 1) s, len + length s))"

definition CHUNKSZ :: nat where
  "CHUNKSZ = 32"

text \<open>The value printed for the chunk that starts at bit \<open>i\<close>.\<close>

definition chunk_val :: "u64 list \<Rightarrow> nat \<Rightarrow> nat \<Rightarrow> u64" where
  "chunk_val maskp i chunksz =
     (let chunkmask = (ucast (push_bit chunksz 1 - 1 :: u64) :: u32)
      in drop_bit (i mod BITS_PER_LONG) (maskp ! (i div BITS_PER_LONG)) AND ucast chunkmask)"

text \<open>The loop on \<open>i = CHUNKSZ * j\<close> for \<open>j\<close> from its argument less one down to 0.\<close>

fun scnprintf_loop ::
  "nat \<Rightarrow> u64 list \<Rightarrow> nat \<Rightarrow> nat \<Rightarrow> string \<Rightarrow> bool \<Rightarrow> string \<times> nat \<Rightarrow> (string \<times> nat) option" where
  "scnprintf_loop buflen maskp 0 chunksz sep first st = Some st"
| "scnprintf_loop buflen maskp (Suc j) chunksz sep first st =
     (let i = CHUNKSZ * j; val = chunk_val maskp i chunksz
      in if val \<noteq> 0 \<or> \<not> first \<or> i = 0
         then (case snprintf_at buflen st (sep @ pad_hex ((chunksz + 3) div 4) (unat val)) of
                 None \<Rightarrow> None
               | Some st' \<Rightarrow> scnprintf_loop buflen maskp j CHUNKSZ '','' False st')
         else scnprintf_loop buflen maskp j CHUNKSZ sep first st)"

definition first_chunksz :: "nat \<Rightarrow> nat" where
  "first_chunksz nmaskbits = (if nmaskbits mod CHUNKSZ = 0 then CHUNKSZ else nmaskbits mod CHUNKSZ)"

definition bitmap_scnprintf :: "nat \<Rightarrow> u64 list \<Rightarrow> nat \<Rightarrow> (string \<times> nat) option" where
  "bitmap_scnprintf buflen maskp nmaskbits =
     scnprintf_loop buflen maskp ((nmaskbits + (CHUNKSZ - 1)) div CHUNKSZ)
       (first_chunksz nmaskbits) '''' True ('''', 0)"

section \<open>__bitmap_parse\<close>

datatype parse_code = Parsed | EINVAL | EOVERFLOW | ERANGE | UndefinedBehaviour

text \<open>
  The inner loop: the remaining bytes, the last character read, the chunk and the two digit
  counters. \<open>Inl\<close> is a return from the function; embedded white space returns 0 there.
\<close>

fun parse_chunk ::
  "string \<Rightarrow> char \<Rightarrow> u32 \<Rightarrow> nat \<Rightarrow> nat \<Rightarrow> parse_code + (string \<times> char \<times> u32 \<times> nat \<times> nat)" where
  "parse_chunk [] c chunk ndigits totaldigits = Inr ([], c, chunk, ndigits, totaldigits)"
| "parse_chunk (c # buf) old_c chunk ndigits totaldigits =
     (if isspace c then parse_chunk buf c chunk ndigits totaldigits
      else if totaldigits \<noteq> 0 \<and> c \<noteq> NUL \<and> isspace old_c then Inl Parsed
      else if c = NUL \<or> c = CHR '','' then Inr (buf, c, chunk, ndigits, totaldigits)
      else if \<not> isxdigit c then Inl EINVAL
      else if chunk AND NOT (push_bit (CHUNKSZ - 4) 1 - 1) \<noteq> 0 then Inl EOVERFLOW
      else parse_chunk buf c (push_bit 4 chunk OR of_nat (unhex c)) (ndigits + 1) (totaldigits + 1))"

lemma parse_chunk_shorter:
  "parse_chunk buf c chunk nd td = Inr (buf', c', chunk', nd', td') \<Longrightarrow>
     length buf' \<le> length buf \<and> (nd' \<noteq> nd \<longrightarrow> length buf' < length buf)"
  by (induction buf c chunk nd td rule: parse_chunk.induct) (auto split: if_splits)

text \<open>The \<open>do ... while (buflen && c == ',')\<close> loop; \<open>continue\<close> goes to its condition.\<close>

function bitmap_parse_loop ::
  "string \<Rightarrow> char \<Rightarrow> nat \<Rightarrow> nat \<Rightarrow> nat \<Rightarrow> u64 list \<Rightarrow> nat \<Rightarrow> parse_code \<times> u64 list" where
  "bitmap_parse_loop buf c nchunks nbits totaldigits maskp nmaskbits =
     (case parse_chunk buf c 0 0 totaldigits of
        Inl code \<Rightarrow> (code, maskp)
      | Inr (buf', c', chunk, ndigits, totaldigits') \<Rightarrow>
          if ndigits = 0 then (EINVAL, maskp)
          else if nchunks = 0 \<and> chunk = 0
          then (if buf' \<noteq> [] \<and> c' = CHR '',''
                then bitmap_parse_loop buf' c' nchunks nbits totaldigits' maskp nmaskbits
                else (Parsed, maskp))
          else
            let maskp = raw_bitmap_shift_left_inplace maskp CHUNKSZ nmaskbits;
                maskp = maskp[0 := maskp ! 0 OR ucast chunk];
                nchunks = nchunks + 1;
                nbits = nbits + (if nchunks = 1 then fls chunk else CHUNKSZ)
            in if nbits > nmaskbits then (EOVERFLOW, maskp)
               else if buf' \<noteq> [] \<and> c' = CHR '',''
               then bitmap_parse_loop buf' c' nchunks nbits totaldigits' maskp nmaskbits
               else (Parsed, maskp))"
  by pat_completeness auto
termination
  by (relation "measure (\<lambda>(buf, _). length buf)") (auto dest: parse_chunk_shorter)

declare bitmap_parse_loop.simps [simp del]

definition raw_bitmap_parse :: "string \<Rightarrow> u64 list \<Rightarrow> nat \<Rightarrow> parse_code \<times> u64 list" where
  "raw_bitmap_parse buf maskp nmaskbits =
     bitmap_parse_loop buf NUL 0 0 0 (bitmap_zero maskp nmaskbits) nmaskbits"

section \<open>__bitmap_parselist\<close>

text \<open>
  The inner loop: \<open>Inr\<close> gives the remaining bytes, the last character, \<open>a\<close>, \<open>b\<close> and the digit
  counter. A number beyond \<open>INT_MAX\<close> overflows \<open>int\<close>, which C leaves undefined.
\<close>

fun parselist_item ::
  "string \<Rightarrow> char \<Rightarrow> int \<Rightarrow> int \<Rightarrow> bool \<Rightarrow> bool \<Rightarrow> nat \<Rightarrow>
     parse_code + (string \<times> char \<times> int \<times> int \<times> nat)" where
  "parselist_item [] c a b exp_digit in_range totaldigits = Inr ([], c, a, b, totaldigits)"
| "parselist_item (c # buf) old_c a b exp_digit in_range totaldigits =
     (if isspace c then parselist_item buf c a b exp_digit in_range totaldigits
      else if totaldigits \<noteq> 0 \<and> c \<noteq> NUL \<and> isspace old_c then Inl EINVAL
      else if c = NUL \<or> c = CHR '','' then Inr (buf, c, a, b, totaldigits)
      else if c = CHR ''-''
      then (if exp_digit \<or> in_range then Inl EINVAL
            else parselist_item buf c a 0 True True totaldigits)
      else if \<not> isdigit c then Inl EINVAL
      else
        let b' = b * 10 + (of_char c - 48)
        in if b' > INT_MAX then Inl UndefinedBehaviour
           else parselist_item buf c (if in_range then a else b') b' False in_range (totaldigits + 1))"

lemma parselist_item_shorter:
  "parselist_item buf c a b e r td = Inr (buf', c', a', b', td') \<Longrightarrow> length buf' \<le> length buf"
  by (induction buf c a b e r td rule: parselist_item.induct) (auto simp: Let_def split: if_splits)

lemma parselist_item_consumes:
  "parselist_item buf c a b e r td = Inr (buf', c', a', b', td') \<Longrightarrow> buf' \<noteq> [] \<Longrightarrow>
     length buf' < length buf"
  by (cases buf) (auto simp: Let_def split: if_splits dest: parselist_item_shorter)

text \<open>\<open>while (a <= b) { set_bit(a, maskp); a++; }\<close>; \<open>None\<close> is a bit outside of the array.\<close>

definition set_bit_range :: "int \<Rightarrow> int \<Rightarrow> u64 list \<Rightarrow> u64 list option" where
  "set_bit_range a b maskp = fold (\<lambda>i m. Option.bind m (set_bit_c i)) [a..b] (Some maskp)"

function bitmap_parselist_loop ::
  "string \<Rightarrow> char \<Rightarrow> nat \<Rightarrow> u64 list \<Rightarrow> nat \<Rightarrow> parse_code \<times> u64 list" where
  "bitmap_parselist_loop buf c totaldigits maskp nmaskbits =
     (case parselist_item buf c 0 0 True False totaldigits of
        Inl code \<Rightarrow> (code, maskp)
      | Inr (buf', c', a, b, totaldigits') \<Rightarrow>
          if \<not> a \<le> b then (EINVAL, maskp)
          else if b \<ge> int nmaskbits then (ERANGE, maskp)
          else case set_bit_range a b maskp of
            None \<Rightarrow> (UndefinedBehaviour, maskp)
          | Some maskp' \<Rightarrow>
              if buf' \<noteq> [] \<and> c' = CHR '',''
              then bitmap_parselist_loop buf' c' totaldigits' maskp' nmaskbits
              else (Parsed, maskp'))"
  by pat_completeness auto
termination
  by (relation "measure (\<lambda>(buf, _). length buf)") (auto dest: parselist_item_consumes)

declare bitmap_parselist_loop.simps [simp del]

definition raw_bitmap_parselist :: "string \<Rightarrow> u64 list \<Rightarrow> nat \<Rightarrow> parse_code \<times> u64 list" where
  "raw_bitmap_parselist buf maskp nmaskbits =
     bitmap_parselist_loop buf NUL 0 (bitmap_zero maskp nmaskbits) nmaskbits"


section \<open>The printed text\<close>

lemma less_16_cases:
  "d < (16::nat) \<Longrightarrow> d = 0 \<or> d = 1 \<or> d = 2 \<or> d = 3 \<or> d = 4 \<or> d = 5 \<or> d = 6 \<or> d = 7 \<or> d = 8
     \<or> d = 9 \<or> d = 10 \<or> d = 11 \<or> d = 12 \<or> d = 13 \<or> d = 14 \<or> d = 15"
  by arith

lemma hex_digit_class:
  assumes "d < 16"
  shows "isxdigit (hex_digit d)" "\<not> isspace (hex_digit d)" "hex_digit d \<noteq> NUL"
    "hex_digit d \<noteq> CHR '',''" "unhex (hex_digit d) = d"
proof -
  have "isxdigit (hex_digit d) \<and> \<not> isspace (hex_digit d) \<and> hex_digit d \<noteq> NUL
      \<and> hex_digit d \<noteq> CHR '','' \<and> unhex (hex_digit d) = d"
    using less_16_cases [OF assms]
    by (elim disjE)
      (simp_all add: isxdigit_def isdigit_def isspace_def unhex_def toupper_def hex_digit_def NUL_def)
  then show "isxdigit (hex_digit d)" "\<not> isspace (hex_digit d)" "hex_digit d \<noteq> NUL"
    "hex_digit d \<noteq> CHR '',''" "unhex (hex_digit d) = d" by blast+
qed

lemma separator_class [simp]:
  "\<not> isspace NUL" "\<not> isspace CHR '',''" "NUL \<noteq> CHR '',''" "CHR '','' \<noteq> NUL"
  by (simp_all add: isspace_def NUL_def)

text \<open>The digits of a number, most significant first.\<close>

fun hex_digits :: "nat \<Rightarrow> nat \<Rightarrow> nat list" where
  "hex_digits 0 v = []"
| "hex_digits (Suc w) v = hex_digits w (v div 16) @ [v mod 16]"

abbreviation hex_value :: "nat \<Rightarrow> nat list \<Rightarrow> nat" where
  "hex_value \<equiv> foldl (\<lambda>a d. 16 * a + d)"

lemma length_hex_digits [simp]: "length (hex_digits w v) = w"
  by (induction w arbitrary: v) auto

lemma hex_digits_less: "d \<in> set (hex_digits w v) \<Longrightarrow> d < 16"
  by (induction w arbitrary: v) auto

lemma hex_value_digits: "v < 16 ^ w \<Longrightarrow> hex_value 0 (hex_digits w v) = v"
proof (induction w arbitrary: v)
  case (Suc w)
  then have "v div 16 < 16 ^ w" by (simp add: div_less_iff_less_mult mult.commute)
  with Suc.IH show ?case by simp
qed simp

lemma pad_hex_step: "pad_hex (Suc (Suc w)) v = pad_hex (Suc w) (v div 16) @ [hex_digit (v mod 16)]"
proof (cases "v < 16")
  case True
  then show ?thesis
    by (simp add: pad_hex_def hex_of_nat.simps [of v] hex_of_nat.simps [of 0] hex_digit_def
        replicate_append_same flip: replicate_Suc)
next
  case False
  then show ?thesis by (simp add: pad_hex_def hex_of_nat.simps [of v])
qed

lemma pad_hex_digits: "0 < w \<Longrightarrow> v < 16 ^ w \<Longrightarrow> pad_hex w v = map hex_digit (hex_digits w v)"
proof (induction w arbitrary: v rule: nat_induct)
  case (Suc w)
  show ?case
  proof (cases w)
    case 0
    with Suc.prems show ?thesis by (simp add: pad_hex_def hex_of_nat.simps)
  next
    case (Suc w')
    have "v div 16 < 16 ^ w" using Suc.prems by (simp add: div_less_iff_less_mult mult.commute)
    with Suc.IH Suc show ?thesis by (simp add: pad_hex_step)
  qed
qed simp

lemma length_pad_hex: "0 < w \<Longrightarrow> v < 16 ^ w \<Longrightarrow> length (pad_hex w v) = w"
  by (simp add: pad_hex_digits)

text \<open>The parser reads the digits of a number that fits into a chunk.\<close>

lemma hex_value_mono: "a * 16 ^ length ds \<le> hex_value a ds"
proof (induction ds arbitrary: a)
  case (Cons d ds)
  have "a * 16 ^ length (d # ds) \<le> (16 * a + d) * 16 ^ length ds" by (simp add: algebra_simps)
  also have "\<dots> \<le> hex_value (16 * a + d) ds" by (rule Cons.IH)
  finally show ?case by simp
qed simp

lemma hex_value_ge: "a \<le> hex_value a ds"
proof -
  have "a * 1 \<le> a * 16 ^ length ds" by (rule mult_le_mono2) simp
  with hex_value_mono [of a ds] show ?thesis by linarith
qed

lemma unat_of_nat_small: "n < 2 ^ LENGTH('a) \<Longrightarrow> unat (of_nat n :: 'a::len word) = n"
  by (simp add: unsigned_of_nat take_bit_nat_eq_self)

lemma chunk_room:
  fixes chunk :: u32
  assumes "16 * unat chunk + d < 2 ^ 32" and "d < 16"
  shows "chunk AND NOT (push_bit (CHUNKSZ - 4) 1 - 1) = 0"
    and "unat (push_bit 4 chunk OR of_nat d) = 16 * unat chunk + d"
proof -
  have small: "unat chunk < 2 ^ 28" using assms(1) by simp
  have "chunk = take_bit 28 chunk"
    using small by (metis take_bit_nat_eq_self unsigned_take_bit_eq word_unat_eq_iff)
  then have "chunk = chunk AND mask 28" by (simp add: take_bit_eq_mask)
  then have "chunk AND NOT (mask 28) = chunk AND (mask 28 AND NOT (mask 28))"
    by (metis and.assoc)
  then have "chunk AND NOT (mask 28) = 0" by simp
  then show "chunk AND NOT (push_bit (CHUNKSZ - 4) 1 - 1) = 0"
    by (simp add: CHUNKSZ_def mask_eq_exp_minus_1)
  have d: "unat (of_nat d :: u32) = d" using assms(2) by (simp add: unat_of_nat)
  have "push_bit 4 chunk AND of_nat d = 0"
  proof (rule bit_eqI)
    fix n
    have "\<not> bit d n" if "4 \<le> n"
    proof -
      have "take_bit 4 d = d" using assms(2) by (simp add: take_bit_nat_eq_self)
      then show ?thesis using that by (metis bit_take_bit_iff leD)
    qed
    then show "bit (push_bit 4 chunk AND of_nat d) n = bit 0 n"
      by (auto simp: bit_simps bit_and_iff bit_push_bit_iff)
  qed
  then have "push_bit 4 chunk OR of_nat d = push_bit 4 chunk + of_nat d"
    by (simp add: disjunctive_add_eq_or)
  also have "\<dots> = of_nat (16 * unat chunk + d)"
    by (simp add: push_bit_eq_mult)
  finally have "unat (push_bit 4 chunk OR of_nat d) = unat (of_nat (16 * unat chunk + d) :: u32)"
    by (rule arg_cong)
  also have "\<dots> = 16 * unat chunk + d"
    by (rule unat_of_nat_small) (use assms(1) in simp)
  finally show "unat (push_bit 4 chunk OR of_nat d) = 16 * unat chunk + d" .
qed

lemma parse_digits:
  assumes "\<forall>d \<in> set ds. d < 16" and "\<not> isspace c" and "hex_value (unat chunk) ds < 2 ^ 32"
  shows "\<exists>c' chunk'. \<not> isspace c' \<and> unat chunk' = hex_value (unat chunk) ds \<and>
    parse_chunk (map hex_digit ds @ rest) c chunk nd td
      = parse_chunk rest c' chunk' (nd + length ds) (td + length ds)"
  using assms
proof (induction ds arbitrary: c chunk nd td)
  case (Cons d ds)
  let ?chunk = "push_bit 4 chunk OR of_nat d"
  have d: "d < 16" using Cons.prems(1) by simp
  have "16 * unat chunk + d < 2 ^ 32"
    using Cons.prems(3) hex_value_ge [of "16 * unat chunk + d" ds] by simp
  note room = chunk_room [OF this d]
  have "hex_value (unat ?chunk) ds < 2 ^ 32" using Cons.prems(3) room(2) by simp
  from Cons.IH [OF _ hex_digit_class(2) [OF d] this, of "Suc nd" "Suc td"] Cons.prems(1,2) room
    hex_digit_class [OF d]
  show ?case by simp
qed auto

text \<open>One printed chunk, at the end of the text or in front of a comma.\<close>

lemma parse_chunk_pad_hex:
  assumes "0 < w" and "v < 16 ^ w" and "w \<le> 8" and "\<not> isspace c"
  shows "\<exists>c' chunk. unat chunk = v \<and> parse_chunk (pad_hex w v) c 0 0 td = Inr ([], c', chunk, w, td + w)"
    and "\<exists>chunk. unat chunk = v \<and>
      parse_chunk (pad_hex w v @ CHR '','' # rest) c 0 0 td = Inr (rest, CHR '','', chunk, w, td + w)"
proof -
  have "v < 2 ^ 32"
    using assms(2) power_increasing [OF assms(3), of "16::nat"] by simp
  then have *: "hex_value (unat (0::u32)) (hex_digits w v) < 2 ^ 32"
    and v: "hex_value (unat (0::u32)) (hex_digits w v) = v"
    using hex_value_digits [OF assms(2)] by simp_all
  have all: "\<forall>d \<in> set (hex_digits w v). d < 16" using hex_digits_less by blast
  note digits = parse_digits [OF all assms(4) *, of _ 0 td, unfolded v]
  note pad = pad_hex_digits [OF assms(1,2)]
  show "\<exists>c' chunk. unat chunk = v \<and> parse_chunk (pad_hex w v) c 0 0 td = Inr ([], c', chunk, w, td + w)"
    using digits [of "[]"] pad by fastforce
  show "\<exists>chunk. unat chunk = v \<and>
      parse_chunk (pad_hex w v @ CHR '','' # rest) c 0 0 td = Inr (rest, CHR '','', chunk, w, td + w)"
    using digits [of "CHR '','' # rest"] pad by fastforce
qed

text \<open>The text \<open>bitmap_scnprintf\<close> prints when the buffer is large enough.\<close>

fun scn_text :: "u64 list \<Rightarrow> nat \<Rightarrow> nat \<Rightarrow> string \<Rightarrow> bool \<Rightarrow> string" where
  "scn_text maskp 0 chunksz sep first = ''''"
| "scn_text maskp (Suc j) chunksz sep first =
     (let val = chunk_val maskp (32 * j) chunksz
      in if val \<noteq> 0 \<or> \<not> first \<or> j = 0
         then sep @ pad_hex ((chunksz + 3) div 4) (unat val) @ scn_text maskp j 32 '','' False
         else scn_text maskp j 32 sep first)"

definition bitmap_text :: "u64 list \<Rightarrow> nat \<Rightarrow> string" where
  "bitmap_text maskp nmaskbits = scn_text maskp ((nmaskbits + 31) div 32) (first_chunksz nmaskbits) '''' True"

lemma scnprintf_loop_fits:
  "length out + length (scn_text maskp j chunksz sep first) < buflen \<Longrightarrow>
   scnprintf_loop buflen maskp j chunksz sep first (out, length out)
     = Some (out @ scn_text maskp j chunksz sep first,
             length out + length (scn_text maskp j chunksz sep first))"
proof (induction j arbitrary: out chunksz sep first)
  case (Suc j)
  show ?case
  proof (cases "chunk_val maskp (32 * j) chunksz \<noteq> 0 \<or> \<not> first \<or> j = 0")
    case True
    let ?s = "sep @ pad_hex ((chunksz + 3) div 4) (unat (chunk_val maskp (32 * j) chunksz))"
    have fits: "length out + length ?s + length (scn_text maskp j 32 '','' False) < buflen"
      using Suc.prems True by (simp add: Let_def)
    then have "snprintf_at buflen (out, length out) ?s = Some (out @ ?s, length (out @ ?s))"
      by (simp add: snprintf_at_def)
    with Suc.IH [of "out @ ?s" 32 "'',''" False] fits True show ?thesis
      by (simp add: Let_def CHUNKSZ_def)
  next
    case False
    with Suc show ?thesis by (simp add: Let_def CHUNKSZ_def)
  qed
qed simp

lemma bitmap_scnprintf_fits:
  "length (bitmap_text maskp n) < buflen \<Longrightarrow>
   bitmap_scnprintf buflen maskp n = Some (bitmap_text maskp n, length (bitmap_text maskp n))"
  using scnprintf_loop_fits [of "[]" maskp "(n + 31) div 32" "first_chunksz n" "''''" True buflen]
  by (simp add: bitmap_scnprintf_def bitmap_text_def CHUNKSZ_def)

lemma bit_chunk_val:
  assumes "sz \<le> 32"
  shows "bit (chunk_val m (32 * j) sz) b \<longleftrightarrow> b < sz \<and> array_bit m (32 * j + b)"
proof (cases "b < sz")
  case True
  have "(32 * j) mod 64 + b < 64 \<and> (32 * j) mod 64 + b = (32 * j + b) mod 64
      \<and> (32 * j + b) div 64 = (32 * j) div 64"
  proof (cases "even j")
    case True
    then obtain k where "j = 2 * k" by (elim evenE)
    then have "32 * j = 64 * k" by simp
    with \<open>b < sz\<close> assms show ?thesis by simp
  next
    case False
    then obtain k where "j = 2 * k + 1" by (elim oddE)
    then have e: "32 * j = 32 + 64 * k" by simp
    have "(32 + b + 64 * k) mod 64 = 32 + b" "(32 + b + 64 * k) div 64 = k"
      using \<open>b < sz\<close> assms by (simp_all only: mod_add_multiple div_add_multiple)
    then show ?thesis unfolding e using \<open>b < sz\<close> assms by (simp add: ac_simps)
  qed
  moreover have "(push_bit sz 1 - 1 :: u64) = mask sz" by (simp add: mask_eq_exp_minus_1 push_bit_eq_mult)
  ultimately show ?thesis
    using True assms
    by (auto simp: chunk_val_def Let_def bit_and_iff bit_drop_bit_eq bit_simps array_bit_def)
next
  case False
  moreover have "(push_bit sz 1 - 1 :: u64) = mask sz" by (simp add: mask_eq_exp_minus_1 push_bit_eq_mult)
  ultimately show ?thesis
    by (auto simp: chunk_val_def Let_def bit_and_iff bit_simps)
qed

lemma chunk_val_less: "sz \<le> 32 \<Longrightarrow> unat (chunk_val m (32 * j) sz) < 2 ^ sz"
proof -
  assume "sz \<le> 32"
  then have "chunk_val m (32 * j) sz = take_bit sz (chunk_val m (32 * j) sz)"
    by (intro bit_eqI) (auto simp: bit_chunk_val bit_take_bit_iff)
  then show ?thesis
    by (metis unsigned_take_bit_eq take_bit_nat_less_exp)
qed

lemma length_chunk_text:
  assumes "0 < sz" and "sz \<le> 32"
  shows "length (pad_hex ((sz + 3) div 4) (unat (chunk_val m (32 * j) sz))) = (sz + 3) div 4"
    and "unat (chunk_val m (32 * j) sz) < 16 ^ ((sz + 3) div 4)"
proof -
  have "(2::nat) ^ sz \<le> 2 ^ (4 * ((sz + 3) div 4))" by (intro power_increasing) auto
  with chunk_val_less [OF assms(2), of m j]
  show "unat (chunk_val m (32 * j) sz) < 16 ^ ((sz + 3) div 4)"
    by (simp add: power_mult)
  then show "length (pad_hex ((sz + 3) div 4) (unat (chunk_val m (32 * j) sz))) = (sz + 3) div 4"
    using assms by (intro length_pad_hex) auto
qed

lemma length_scn_text:
  "0 < sz \<Longrightarrow> sz \<le> 32 \<Longrightarrow> length (scn_text m j sz sep first) \<le> length sep + 9 * j"
proof (induction j arbitrary: sz sep first)
  case (Suc j)
  have "(sz + 3) div 4 \<le> 8" using Suc.prems by simp
  with Suc.IH [of 32 "'',''" False] Suc.IH [of 32 sep first] length_chunk_text(1) [OF Suc.prems, of m j]
  show ?case by (auto simp: Let_def)
qed simp

lemma first_chunksz_bounds: "0 < first_chunksz n" "first_chunksz n \<le> 32"
  by (auto simp: first_chunksz_def CHUNKSZ_def intro: less_imp_le)

text \<open>Nine characters per chunk of 32 bits bound the text.\<close>

lemma length_bitmap_text: "length (bitmap_text m n) \<le> 9 * ((n + 31) div 32)"
  using length_scn_text [OF first_chunksz_bounds, of m _ n "''''" True] by (simp add: bitmap_text_def)

section \<open>Printing and parsing\<close>

text \<open>\<open>holds_from mk m k n\<close>: the mask \<open>mk\<close> holds the bits of \<open>m\<close> from bit \<open>k\<close> on, shifted down.\<close>

definition holds_from :: "u64 list \<Rightarrow> u64 list \<Rightarrow> nat \<Rightarrow> nat \<Rightarrow> bool" where
  "holds_from mk m k n \<longleftrightarrow> wf_bitmap mk n \<and>
     (\<forall>i < 64 * length mk. array_bit mk i \<longleftrightarrow> i + k < n \<and> array_bit m (i + k))"

lemma array_bit_or_first:
  assumes "0 < length mk" and "i < 64 * length mk"
  shows "array_bit (mk[0 := mk ! 0 OR ucast (chunk::u32)]) i \<longleftrightarrow> array_bit mk i \<or> bit chunk i"
proof (cases "i < 64")
  case True
  with assms show ?thesis by (auto simp: array_bit_def bit_or_iff bit_simps)
next
  case False
  then have "i div 64 \<noteq> 0" "\<not> bit chunk i"
    using bit_imp_le_length [of chunk i] by (auto simp: div_eq_0_iff)
  then show ?thesis by (simp add: array_bit_def)
qed

text \<open>One chunk is shifted into the mask.\<close>

lemma holds_from_shift:
  assumes mk: "holds_from mk m (32 * Suc j) n" and n: "32 < n"
    and sz: "sz \<le> 32" "32 * j + sz \<le> n"
    and above: "\<forall>i. 32 * j + sz \<le> i \<and> i < 32 * Suc j \<and> i < n \<longrightarrow> \<not> array_bit m i"
    and chunk: "unat chunk = unat (chunk_val m (32 * j) sz)"
  defines "mk' \<equiv> raw_bitmap_shift_left_inplace mk CHUNKSZ n"
  shows "holds_from (mk'[0 := mk' ! 0 OR ucast (chunk::u32)]) m (32 * j) n"
proof -
  have wf: "wf_bitmap mk n" using mk by (simp add: holds_from_def)
  then have len: "0 < length mk" using n by (simp add: wf_bitmap_def longs_pos)
  have eq: "mk' = raw_bitmap_shift_left mk mk 32 n"
    by (simp add: mk'_def shift_left_inplace CHUNKSZ_def)
  have "ucast chunk = chunk_val m (32 * j) sz"
  proof -
    have "unat (ucast chunk :: u64) = unat chunk"
      using unsigned_less [of chunk, where ?'a = nat]
      by (simp add: unsigned_ucast_eq take_bit_nat_eq_self)
    with chunk show ?thesis by (simp add: word_unat_eq_iff)
  qed
  moreover have "bit (ucast chunk :: u64) b \<longleftrightarrow> bit chunk b" for b
    using bit_imp_le_length [of chunk b] by (auto simp: bit_simps)
  ultimately have bits: "bit chunk b \<longleftrightarrow> b < sz \<and> array_bit m (32 * j + b)" for b
    using bit_chunk_val [OF sz(1), of m j b] by simp
  have "array_bit (mk'[0 := mk' ! 0 OR ucast chunk]) i \<longleftrightarrow> i + 32 * j < n \<and> array_bit m (i + 32 * j)"
    if i: "i < 64 * length mk" for i
  proof -
    have "array_bit mk' i \<longleftrightarrow> i < n \<and> 32 \<le> i \<and> array_bit mk (i - 32)"
      unfolding eq by (rule array_bit_shift_left [OF wf i n])
    moreover have "array_bit mk (i - 32) \<longleftrightarrow> i - 32 + 32 * Suc j < n \<and> array_bit m (i - 32 + 32 * Suc j)"
      using mk i by (simp add: holds_from_def)
    moreover have "array_bit (mk'[0 := mk' ! 0 OR ucast chunk]) i \<longleftrightarrow> array_bit mk' i \<or> bit chunk i"
      using i len by (intro array_bit_or_first) (simp_all add: eq)
    moreover have "i < 32 \<Longrightarrow> i < sz \<and> array_bit m (32 * j + i) \<longleftrightarrow> i + 32 * j < n \<and> array_bit m (i + 32 * j)"
      using above [rule_format, of "32 * j + i"] sz(2) by (cases "i < sz") (auto simp: add.commute)
    ultimately show ?thesis using bits [of i] sz(1)
      by (cases "32 \<le> i") (auto simp: add.commute)
  qed
  then show ?thesis using wf by (simp add: holds_from_def wf_bitmap_def eq)
qed

lemma scn_text_rest:
  "scn_text m j 32 '','' False
     = (case j of 0 \<Rightarrow> '''' | Suc i \<Rightarrow> CHR '','' # pad_hex 8 (unat (chunk_val m (32 * i) 32)) @ scn_text m i 32 '','' False)"
  by (cases j) (simp_all add: Let_def)

lemma pad_hex_nonempty [simp]: "pad_hex w v \<noteq> []"
  by (simp add: pad_hex_def hex_of_nat.simps [of v])

lemma parse_rest:
  assumes "32 < n" and "0 < nchunks" and "nbits + 32 * Suc j \<le> n" and "\<not> isspace c"
    and "holds_from mk m (32 * Suc j) n"
  shows "\<exists>mk'. holds_from mk' m 0 n \<and>
    bitmap_parse_loop (pad_hex 8 (unat (chunk_val m (32 * j) 32)) @ scn_text m j 32 '','' False)
      c nchunks nbits td mk n = (Parsed, mk')"
  using assms
proof (induction j arbitrary: c nchunks nbits td mk)
  case 0
  let ?v = "unat (chunk_val m (32 * 0) 32)"
  have v: "?v < 16 ^ 8" using chunk_val_less [of 32 m 0] by simp
  obtain c' chunk where chunk: "unat chunk = ?v"
    "parse_chunk (pad_hex 8 ?v) c 0 0 td = Inr ([], c', chunk, 8, td + 8)"
    using parse_chunk_pad_hex(1) [OF _ v _ 0(4), of td] by auto
  let ?mk = "raw_bitmap_shift_left_inplace mk CHUNKSZ n"
  have "holds_from (?mk[0 := ?mk ! 0 OR ucast chunk]) m (32 * 0) n"
    by (rule holds_from_shift [OF 0(5,1) _ _ _ chunk(1)]) (use 0(3) in auto)
  with chunk 0 show ?case
    by (subst bitmap_parse_loop.simps) (simp add: Let_def CHUNKSZ_def)
next
  case (Suc j)
  let ?v = "unat (chunk_val m (32 * Suc j) 32)"
  let ?rest = "pad_hex 8 (unat (chunk_val m (32 * j) 32)) @ scn_text m j 32 '','' False"
  have v: "?v < 16 ^ 8" using chunk_val_less [of 32 m "Suc j"] by simp
  obtain chunk where chunk: "unat chunk = ?v"
    "parse_chunk (pad_hex 8 ?v @ CHR '','' # ?rest) c 0 0 td = Inr (?rest, CHR '','', chunk, 8, td + 8)"
    using parse_chunk_pad_hex(2) [OF _ v _ Suc(5), of ?rest td] by auto
  let ?mk = "raw_bitmap_shift_left_inplace mk CHUNKSZ n"
  have "holds_from (?mk[0 := ?mk ! 0 OR ucast chunk]) m (32 * Suc j) n"
    by (rule holds_from_shift [OF Suc(6,2) _ _ _ chunk(1)]) (use Suc(4) in auto)
  with Suc(4) have "\<exists>mk'. holds_from mk' m 0 n \<and> bitmap_parse_loop ?rest CHR '','' (nchunks + 1)
      (nbits + 32) (td + 8) (?mk[0 := ?mk ! 0 OR ucast chunk]) n = (Parsed, mk')"
    by (intro Suc.IH [OF Suc(2)]) simp_all
  with chunk Suc(3,4) show ?case
    by (subst scn_text_rest, subst bitmap_parse_loop.simps) (simp add: Let_def CHUNKSZ_def)
qed

lemma chunk_val_0_iff: "sz \<le> 32 \<Longrightarrow> chunk_val m (32 * j) sz = 0 \<longleftrightarrow> (\<forall>b < sz. \<not> array_bit m (32 * j + b))"
  by (auto simp: bit_eq_iff bit_chunk_val)

lemma fls_le:
  assumes "unat chunk < 2 ^ sz" and "chunk \<noteq> 0"
  shows "fls chunk \<le> sz"
proof -
  have "(2::nat) ^ (fls chunk - 1) < 2 ^ sz" "0 < fls chunk"
    using fls_bounds [OF assms(2)] assms(1) by linarith+
  then show ?thesis by (simp add: power_strict_increasing_iff)
qed

lemma holds_from_zero:
  assumes "wf_bitmap mk n" and "\<forall>i < 64 * length mk. \<not> array_bit mk i"
    and "\<forall>i. k \<le> i \<and> i < n \<longrightarrow> \<not> array_bit m i"
  shows "holds_from mk m k n"
  using assms by (auto simp: holds_from_def)

text \<open>The first chunk that is printed: zero chunks in front of it are skipped.\<close>

lemma parse_first:
  assumes "32 < n" and "0 < sz" "sz \<le> 32" and "32 * j + sz \<le> n"
    and above: "\<forall>i. 32 * j + sz \<le> i \<and> i < n \<longrightarrow> \<not> array_bit m i"
    and wf: "wf_bitmap mk n" and zero: "\<forall>i < 64 * length mk. \<not> array_bit mk i"
  shows "\<exists>mk'. holds_from mk' m 0 n \<and>
    bitmap_parse_loop (scn_text m (Suc j) sz '''' True) NUL 0 0 0 mk n = (Parsed, mk')"
  using assms(2-5)
proof (induction j arbitrary: sz)
  case 0
  let ?w = "(sz + 3) div 4" and ?v = "unat (chunk_val m (32 * 0) sz)"
  have w: "0 < ?w" "?w \<le> 8" using 0(1,2) by auto
  obtain c' chunk where chunk: "unat chunk = ?v"
    "parse_chunk (pad_hex ?w ?v) NUL 0 0 0 = Inr ([], c', chunk, ?w, 0 + ?w)"
    using parse_chunk_pad_hex(1) [OF w(1) length_chunk_text(2) [OF 0(1,2)] w(2) separator_class(1), where td = 0] by blast
  let ?mk = "raw_bitmap_shift_left_inplace mk CHUNKSZ n"
  have next0: "holds_from mk m (32 * Suc 0) n"
    using holds_from_zero [OF wf zero] 0(2,4) by simp
  have first: "holds_from (?mk[0 := ?mk ! 0 OR ucast chunk]) m (32 * 0) n"
    by (rule holds_from_shift [OF next0 assms(1) 0(2,3) _ chunk(1)]) (use 0(4) in simp)
  show ?case
  proof (cases "chunk = 0")
    case True
    then have "\<not> array_bit m i" if "i < n" for i
      using 0(4) chunk(1) chunk_val_0_iff [OF 0(2), of m 0] that
      by (cases "i < sz") (auto simp: unsigned_eq_0_iff)
    then have "holds_from mk m 0 n" by (intro holds_from_zero [OF wf zero]) blast
    with True chunk w show ?thesis
      by (subst bitmap_parse_loop.simps) (simp add: Let_def)
  next
    case False
    have "fls chunk \<le> sz"
      by (rule fls_le [OF _ False]) (use chunk(1) chunk_val_less [OF 0(2), of m 0] in simp)
    with False chunk w first 0(3) show ?thesis
      by (subst bitmap_parse_loop.simps) (simp add: Let_def)
  qed
next
  case (Suc j)
  show ?case
  proof (cases "chunk_val m (32 * Suc j) sz = 0")
    case True
    have "\<not> array_bit m i" if "32 * j + 32 \<le> i" "i < n" for i
    proof (cases "i < 32 * Suc j + sz")
      case True
      then have "i = 32 * Suc j + (i - 32 * Suc j)" "i - 32 * Suc j < sz" using that by auto
      with \<open>chunk_val m (32 * Suc j) sz = 0\<close> chunk_val_0_iff [OF Suc(3), of m "Suc j"]
      show ?thesis by metis
    next
      case False
      with Suc(5) that show ?thesis by simp
    qed
    then have "\<exists>mk'. holds_from mk' m 0 n \<and>
        bitmap_parse_loop (scn_text m (Suc j) 32 '''' True) NUL 0 0 0 mk n = (Parsed, mk')"
      by (intro Suc.IH) (use Suc(4) in simp_all)
    moreover have "scn_text m (Suc (Suc j)) sz '''' True = scn_text m (Suc j) 32 '''' True"
      using True by (subst scn_text.simps(2)) (simp add: Let_def)
    ultimately show ?thesis by simp
  next
    case False
    let ?w = "(sz + 3) div 4" and ?v = "unat (chunk_val m (32 * Suc j) sz)"
    let ?rest = "pad_hex 8 (unat (chunk_val m (32 * j) 32)) @ scn_text m j 32 '','' False"
    have w: "0 < ?w" "?w \<le> 8" using Suc(2,3) by auto
    obtain chunk where chunk: "unat chunk = ?v"
      "parse_chunk (pad_hex ?w ?v @ CHR '','' # ?rest) NUL 0 0 0 = Inr (?rest, CHR '','', chunk, ?w, 0 + ?w)"
      using parse_chunk_pad_hex(2) [OF w(1) length_chunk_text(2) [OF Suc(2,3)] w(2) separator_class(1), where td = 0] by blast
    have nz: "chunk \<noteq> 0" using chunk(1) False by (auto simp: unsigned_eq_0_iff)
    have fls: "fls chunk \<le> sz"
      by (rule fls_le [OF _ nz]) (use chunk(1) chunk_val_less [OF Suc(3), of m "Suc j"] in simp)
    let ?mk = "raw_bitmap_shift_left_inplace mk CHUNKSZ n"
    have next0: "holds_from mk m (32 * Suc (Suc j)) n"
      using holds_from_zero [OF wf zero] Suc(3,5) by simp
    have first: "holds_from (?mk[0 := ?mk ! 0 OR ucast chunk]) m (32 * Suc j) n"
      by (rule holds_from_shift [OF next0 assms(1) Suc(3,4) _ chunk(1)]) (use Suc(5) in simp)
    have "\<exists>mk'. holds_from mk' m 0 n \<and> bitmap_parse_loop ?rest CHR '','' 1 (fls chunk) ?w
        (?mk[0 := ?mk ! 0 OR ucast chunk]) n = (Parsed, mk')"
      by (rule parse_rest [OF assms(1) _ _ _ first]) (use fls Suc(4) in simp_all)
    moreover have "scn_text m (Suc (Suc j)) sz '''' True = pad_hex ?w ?v @ CHR '','' # ?rest"
      using False by (subst scn_text.simps(2), subst scn_text_rest) (simp add: Let_def)
    ultimately show ?thesis using chunk w nz fls Suc(4)
      by (subst bitmap_parse_loop.simps) (simp add: Let_def)
  qed
qed

lemma array_bit_zero:
  assumes "wf_bitmap dst n" and "i < 64 * length dst"
  shows "\<not> array_bit (bitmap_zero dst n) i"
proof -
  have "i div 64 < length dst" using assms(2) by (simp add: div_less_iff_less_mult mult.commute)
  then show ?thesis
    using assms(1) by (simp add: bitmap_zero_loop array_bit_def wf_bitmap_def)
qed

lemma length_zero [simp]: "length (bitmap_zero dst n) = length dst"
  by (simp add: bitmap_zero_def)

lemma wf_zero [simp]: "wf_bitmap (bitmap_zero dst n) n = wf_bitmap dst n"
  by (simp add: wf_bitmap_def)

text \<open>
  Parsing what \<open>bitmap_scnprintf\<close> printed succeeds and gives a clean mask with the same bits,
  whatever the destination held before.
\<close>

lemma parse_bitmap_text:
  assumes "32 < n" and "wf_bitmap dst n"
  shows "\<exists>mk. raw_bitmap_parse (bitmap_text m n) dst n = (Parsed, mk) \<and> clean_bitmap mk n
    \<and> bits_of mk n = bits_of m n"
proof -
  define q r where "q = n div 32" and "r = n mod 32"
  have n: "n = 32 * q + r" "r < 32" by (simp_all add: q_def r_def)
  define j where "j = (if r = 0 then q - 1 else q)"
  have "(n + 31) div 32 = Suc j" "32 * j + first_chunksz n = n"
  proof -
    have f: "first_chunksz n = (if r = 0 then 32 else r)"
      by (simp add: first_chunksz_def CHUNKSZ_def r_def)
    have "q \<noteq> 0" using n assms(1) by auto
    then show "32 * j + first_chunksz n = n" unfolding f j_def using n by auto
    have "(n + 31) div 32 = (if r = 0 then q else Suc q)"
    proof (cases "r = 0")
      case True
      have "(31 + 32 * q) div 32 = q" by (rule div_add_multiple) simp
      with True n show ?thesis by (simp add: add.commute)
    next
      case False
      then have "n + 31 = (r - 1) + 32 * Suc q" using n by simp
      moreover have "((r - 1) + 32 * Suc q) div 32 = Suc q"
        by (rule div_add_multiple) (use n in simp)
      ultimately show ?thesis using False by simp
    qed
    with \<open>q \<noteq> 0\<close> show "(n + 31) div 32 = Suc j" by (simp add: j_def)
  qed
  note top = this
  have "\<exists>mk'. holds_from mk' m 0 n \<and> bitmap_parse_loop (scn_text m (Suc j) (first_chunksz n) '''' True)
      NUL 0 0 0 (bitmap_zero dst n) n = (Parsed, mk')"
    by (rule parse_first [OF assms(1) first_chunksz_bounds])
      (use top(2) assms(2) array_bit_zero [OF assms(2)] in auto)
  then obtain mk where mk: "holds_from mk m 0 n" "raw_bitmap_parse (bitmap_text m n) dst n = (Parsed, mk)"
    by (auto simp: raw_bitmap_parse_def bitmap_text_def top(1))
  then have "wf_bitmap mk n" "n \<le> 64 * length mk"
    using longs_bound [of n] by (auto simp: holds_from_def wf_bitmap_def)
  with mk show ?thesis by (auto simp: holds_from_def clean_bitmap_def bits_of_def)
qed

section \<open>CPU lists\<close>

text \<open>A list of ranges in the notation of the kernel's \<open>cpulist\<close> files.\<close>

fun dec_digits :: "nat \<Rightarrow> nat list" where
  "dec_digits v = (if v < 10 then [v] else dec_digits (v div 10) @ [v mod 10])"

declare dec_digits.simps [simp del]

definition dec_digit :: "nat \<Rightarrow> char" where
  "dec_digit d = ''0123456789'' ! d"

definition dec_of_nat :: "nat \<Rightarrow> string" where
  "dec_of_nat v = map dec_digit (dec_digits v)"

definition range_text :: "nat \<times> nat \<Rightarrow> string" where
  "range_text = (\<lambda>(a, b). if a = b then dec_of_nat a else dec_of_nat a @ CHR ''-'' # dec_of_nat b)"

fun list_text :: "(nat \<times> nat) list \<Rightarrow> string" where
  "list_text [] = ''''"
| "list_text [r] = range_text r"
| "list_text (r # rs) = range_text r @ CHR '','' # list_text rs"

lemma dec_digit_class:
  assumes "d < 10"
  shows "isdigit (dec_digit d)" "\<not> isspace (dec_digit d)" "dec_digit d \<noteq> NUL"
    "dec_digit d \<noteq> CHR '',''" "dec_digit d \<noteq> CHR ''-''" "of_char (dec_digit d) - 48 = int d"
proof -
  have "isdigit (dec_digit d) \<and> \<not> isspace (dec_digit d) \<and> dec_digit d \<noteq> NUL
      \<and> dec_digit d \<noteq> CHR '','' \<and> dec_digit d \<noteq> CHR ''-'' \<and> of_char (dec_digit d) - 48 = int d"
    using less_16_cases [OF less_trans [OF assms, of 16, simplified]] assms
    by (elim disjE) (simp_all add: isdigit_def isspace_def dec_digit_def NUL_def)
  then show "isdigit (dec_digit d)" "\<not> isspace (dec_digit d)" "dec_digit d \<noteq> NUL"
    "dec_digit d \<noteq> CHR '',''" "dec_digit d \<noteq> CHR ''-''" "of_char (dec_digit d) - 48 = int d" by blast+
qed

lemma dash_class [simp]: "\<not> isspace CHR ''-''" "CHR ''-'' \<noteq> NUL" "\<not> isdigit CHR '',''"
  by (simp_all add: isspace_def isdigit_def NUL_def)

abbreviation dec_value :: "nat \<Rightarrow> nat list \<Rightarrow> nat" where
  "dec_value \<equiv> foldl (\<lambda>a d. 10 * a + d)"

lemma dec_digits_props: "d \<in> set (dec_digits v) \<Longrightarrow> d < 10" "dec_digits v \<noteq> []"
  "dec_value 0 (dec_digits v) = v"
proof -
  show "d \<in> set (dec_digits v) \<Longrightarrow> d < 10"
    by (induction v rule: dec_digits.induct) (subst (asm) (2) dec_digits.simps, auto split: if_splits)
  show "dec_digits v \<noteq> []" by (subst dec_digits.simps) simp
  show "dec_value 0 (dec_digits v) = v"
    by (induction v rule: dec_digits.induct) (subst dec_digits.simps, simp)
qed

lemma dec_value_ge: "a \<le> dec_value a ds"
proof (induction ds arbitrary: a)
  case (Cons d ds)
  have "a \<le> 10 * a + d" by simp
  with Cons.IH [of "10 * a + d"] show ?case by (simp del: One_nat_def)
qed simp

lemma parselist_digits:
  assumes "ds \<noteq> []" and "\<forall>d \<in> set ds. d < 10" and "\<not> isspace c" and "int (dec_value b ds) \<le> INT_MAX"
  shows "\<exists>c'. \<not> isspace c' \<and> parselist_item (map dec_digit ds @ rest) c a (int b) e r td
    = parselist_item rest c' (if r then a else int (dec_value b ds)) (int (dec_value b ds)) False r
        (td + length ds)"
  using assms
proof (induction ds arbitrary: c a b e td)
  case (Cons d ds)
  let ?b = "10 * b + d"
  have d: "d < 10" using Cons.prems(2) by simp
  note cls = dec_digit_class [OF d]
  have "int ?b \<le> INT_MAX" using Cons.prems(4) dec_value_ge [of ?b ds] by simp
  with cls Cons.prems(3) have step: "parselist_item (map dec_digit (d # ds) @ rest) c a (int b) e r td
      = parselist_item (map dec_digit ds @ rest) (dec_digit d) (if r then a else int ?b) (int ?b) False r (Suc td)"
    by (simp add: Let_def mult.commute)
  show ?case
  proof (cases "ds = []")
    case True
    with step cls(2) show ?thesis by auto
  next
    case False
    with Cons.prems have "\<exists>c'. \<not> isspace c' \<and>
        parselist_item (map dec_digit ds @ rest) (dec_digit d) (if r then a else int ?b) (int ?b) False r (Suc td)
      = parselist_item rest c' (if r then (if r then a else int ?b) else int (dec_value ?b ds))
          (int (dec_value ?b ds)) False r (Suc td + length ds)"
      by (intro Cons.IH cls(2)) simp_all
    then show ?thesis unfolding step by (cases r) simp_all
  qed
qed simp

lemma parselist_number:
  assumes "int v \<le> INT_MAX" and "\<not> isspace c"
  shows "\<exists>c' k. \<not> isspace c' \<and> parselist_item (dec_of_nat v @ rest) c a 0 e r td
    = parselist_item rest c' (if r then a else int v) (int v) False r (td + k)"
  using parselist_digits [of "dec_digits v" c 0 rest a e r td] dec_digits_props assms
  by (fastforce simp: dec_of_nat_def)

lemma parselist_range:
  assumes "snd r \<le> m" and "int m \<le> INT_MAX" and "fst r \<le> snd r" and "\<not> isspace c"
  shows "\<exists>c' td'. parselist_item (range_text r) c 0 0 True False td
      = Inr ([], c', int (fst r), int (snd r), td')"
    and "\<exists>td'. parselist_item (range_text r @ CHR '','' # rest) c 0 0 True False td
      = Inr (rest, CHR '','', int (fst r), int (snd r), td')"
proof -
  obtain a b where r: "r = (a, b)" by (cases r)
  have max: "int a \<le> INT_MAX" "int b \<le> INT_MAX" using assms r by auto
  have item: "\<exists>c' td'. \<not> isspace c' \<and> parselist_item (range_text r @ rest) c 0 0 True False td
      = parselist_item rest c' (int a) (int b) False (a \<noteq> b) td'" for rest
  proof (cases "a = b")
    case True
    with parselist_number [OF max(1) assms(4), of rest 0 True False td] show ?thesis
      by (auto simp: r range_text_def)
  next
    case False
    obtain c1 k1 where 1: "\<not> isspace c1" "parselist_item (dec_of_nat a @ CHR ''-'' # dec_of_nat b @ rest) c 0 0 True False td
      = parselist_item (CHR ''-'' # dec_of_nat b @ rest) c1 (int a) (int a) False False (td + k1)"
      using parselist_number [OF max(1) assms(4), of "CHR ''-'' # dec_of_nat b @ rest" 0 True False td] by auto
    obtain c2 k2 where 2: "\<not> isspace c2" "parselist_item (dec_of_nat b @ rest) CHR ''-'' (int a) 0 True True (td + k1)
      = parselist_item rest c2 (int a) (int b) False True (td + k1 + k2)"
      using parselist_number [OF max(2) dash_class(1), of rest "int a" True True "td + k1"] by auto
    from False 1 2 show ?thesis by (auto simp: r range_text_def)
  qed
  from item [of "[]"] show "\<exists>c' td'. parselist_item (range_text r) c 0 0 True False td
      = Inr ([], c', int (fst r), int (snd r), td')" by (auto simp: r)
  from item [of "CHR '','' # rest"] show "\<exists>td'. parselist_item (range_text r @ CHR '','' # rest) c 0 0 True False td
      = Inr (rest, CHR '','', int (fst r), int (snd r), td')" by (auto simp: r)
qed

text \<open>The range loop stays inside the array and sets the bits of the range.\<close>

lemma set_bit_range_ok:
  assumes "0 \<le> a" and "b < 64 * int (length mk)"
  shows "\<exists>mk'. set_bit_range a b mk = Some mk' \<and> length mk' = length mk \<and>
    (\<forall>i < 64 * length mk. array_bit mk' i \<longleftrightarrow> array_bit mk i \<or> (a \<le> int i \<and> int i \<le> b))"
  using assms
proof (induction "nat (b + 1 - a)" arbitrary: a mk)
  case 0
  then show ?case by (auto simp: set_bit_range_def)
next
  case (Suc k)
  then have ab: "a \<le> b" by simp
  then have le: "a < 64 * int (length mk)" using Suc(4) by simp
  from set_bit_c_Some [OF Suc(3) le] obtain mk1 where mk1: "set_bit_c a mk = Some mk1"
    "length mk1 = length mk" "\<forall>i < 64 * length mk. array_bit mk1 i = (i = nat a \<or> array_bit mk i)" by auto
  have "k = nat (b + 1 - (a + 1))" using Suc(2) by simp
  from Suc(1) [OF this, of mk1] Suc(3,4) ab mk1(2) obtain mk' where mk': "set_bit_range (a + 1) b mk1 = Some mk'"
    "length mk' = length mk"
    "\<forall>i < 64 * length mk. array_bit mk' i \<longleftrightarrow> array_bit mk1 i \<or> (a + 1 \<le> int i \<and> int i \<le> b)" by auto
  have "set_bit_range a b mk = set_bit_range (a + 1) b mk1"
    using ab mk1(1) by (simp add: set_bit_range_def upto_rec1)
  with mk' mk1(3) ab Suc(3) show ?case by auto
qed

lemma parselist_loop_text:
  assumes "wf_bitmap mk n" and "int n \<le> INT_MAX" and "rs \<noteq> []"
    and "\<forall>(a, b) \<in> set rs. a \<le> b \<and> b < n" and "\<not> isspace c"
  shows "\<exists>mk'. bitmap_parselist_loop (list_text rs) c td mk n = (Parsed, mk') \<and> wf_bitmap mk' n \<and>
    (\<forall>i < 64 * length mk. array_bit mk' i \<longleftrightarrow> array_bit mk i \<or> (\<exists>(a, b) \<in> set rs. a \<le> i \<and> i \<le> b))"
  using assms
proof (induction rs arbitrary: mk c td rule: list_text.induct)
  case (2 r)
  obtain a b where r: "r = (a, b)" by (cases r)
  have ab: "a \<le> b" "b < n" using 2(4) r by auto
  have "int b < 64 * int (length mk)"
    using ab(2) longs_bound [of n] 2(1) by (simp add: wf_bitmap_def)
  from set_bit_range_ok [OF _ this, of "int a"] obtain mk' where mk': "set_bit_range (int a) (int b) mk = Some mk'"
    "length mk' = length mk"
    "\<forall>i < 64 * length mk. array_bit mk' i \<longleftrightarrow> array_bit mk i \<or> (int a \<le> int i \<and> int i \<le> int b)" by auto
  obtain c' td' where "parselist_item (range_text r) c 0 0 True False td = Inr ([], c', int a, int b, td')"
    using parselist_range(1) [of r n c td] ab 2(2,5) r by auto
  with mk' ab 2(1) r show ?case
    by (subst bitmap_parselist_loop.simps) (auto simp: wf_bitmap_def)
next
  case (3 r r' rs)
  obtain a b where r: "r = (a, b)" by (cases r)
  have ab: "a \<le> b" "b < n" using 3(5) r by auto
  have "int b < 64 * int (length mk)"
    using ab(2) longs_bound [of n] 3(2) by (simp add: wf_bitmap_def)
  from set_bit_range_ok [OF _ this, of "int a"] obtain mk1 where mk1: "set_bit_range (int a) (int b) mk = Some mk1"
    "length mk1 = length mk"
    "\<forall>i < 64 * length mk. array_bit mk1 i \<longleftrightarrow> array_bit mk i \<or> (int a \<le> int i \<and> int i \<le> int b)" by auto
  let ?rest = "list_text (r' # rs)"
  obtain td' where item: "parselist_item (range_text r @ CHR '','' # ?rest) c 0 0 True False td
      = Inr (?rest, CHR '','', int a, int b, td')"
    using parselist_range(2) [of r n c ?rest td] ab 3(3,6) r by auto
  have wf1: "wf_bitmap mk1 n" using 3(2) mk1(2) by (simp add: wf_bitmap_def)
  from 3(1) [OF wf1 3(3), of "CHR '',''" td'] 3(5) mk1(2) obtain mk' where
    mk': "bitmap_parselist_loop ?rest CHR '','' td' mk1 n = (Parsed, mk')" "wf_bitmap mk' n"
    "\<forall>i < 64 * length mk. array_bit mk' i \<longleftrightarrow> array_bit mk1 i \<or> (\<exists>(a, b) \<in> set (r' # rs). a \<le> i \<and> i \<le> b)"
    by auto
  have "?rest \<noteq> []" using dec_digits_props(2)
    by (cases rs; cases r') (auto simp: range_text_def dec_of_nat_def)
  with item mk1(1) ab mk' have "bitmap_parselist_loop (list_text (r # r' # rs)) c td mk n = (Parsed, mk')"
    by (subst bitmap_parselist_loop.simps) simp
  with mk' mk1(3) r show ?case by auto
qed simp

lemma parselist_list_text:
  assumes "wf_bitmap dst n" and "int n \<le> INT_MAX" and "rs \<noteq> []"
    and "\<forall>(a, b) \<in> set rs. a \<le> b \<and> b < n"
  shows "\<exists>mk. raw_bitmap_parselist (list_text rs) dst n = (Parsed, mk) \<and> wf_bitmap mk n \<and>
    bits_of mk n = (\<Union>(a, b) \<in> set rs. {a..b})"
proof -
  from parselist_loop_text [of "bitmap_zero dst n", OF _ assms(2-4), of NUL 0] assms(1)
  obtain mk where mk: "raw_bitmap_parselist (list_text rs) dst n = (Parsed, mk)" "wf_bitmap mk n"
    "\<forall>i < 64 * length dst. array_bit mk i \<longleftrightarrow> array_bit (bitmap_zero dst n) i \<or> (\<exists>(a, b) \<in> set rs. a \<le> i \<and> i \<le> b)"
    by (auto simp: raw_bitmap_parselist_def)
  have "n \<le> 64 * length dst" using assms(1) longs_bound [of n] by (simp add: wf_bitmap_def)
  with mk(3) array_bit_zero [OF assms(1)]
  have "array_bit mk i \<longleftrightarrow> (\<exists>(a, b) \<in> set rs. a \<le> i \<and> i \<le> b)" if "i < n" for i
    using that by auto
  then have "bits_of mk n = {i. i < n \<and> (\<exists>(a, b) \<in> set rs. a \<le> i \<and> i \<le> b)}"
    by (auto simp: bits_of_def)
  also have "\<dots> = (\<Union>(a, b) \<in> set rs. {a..b})" using assms(4) by fastforce
  finally show ?thesis using mk by blast
qed

text \<open>For any input, the numbers read are not negative, so the range loop stays in the array.\<close>

lemma parselist_item_nonneg:
  "parselist_item buf c a b e r td = Inr (buf', c', a', b', td') \<Longrightarrow> 0 \<le> a \<Longrightarrow> 0 \<le> b \<Longrightarrow> 0 \<le> a' \<and> 0 \<le> b'"
proof (induction buf c a b e r td rule: parselist_item.induct)
  case (2 c buf old_c a b e r td)
  have "0 \<le> b * 10 + (of_char c - 48)" if "isdigit c"
  proof -
    have "(48::int) \<le> of_char c"
      using that of_nat_mono [of 48 "of_char c", where ?'a = int]
      by (simp add: isdigit_def of_nat_of_char)
    with 2(6) show ?thesis by simp
  qed
  with 2 show ?case by (auto simp: Let_def split: if_splits)
qed auto

lemma wf_or_first: "wf_bitmap (mk[0 := w]) n = wf_bitmap mk n"
  by (simp add: wf_bitmap_def)

lemma wf_parse_loop:
  "wf_bitmap mk n \<Longrightarrow> wf_bitmap (snd (bitmap_parse_loop buf c nchunks nbits td mk n)) n"
proof (induction buf c nchunks nbits td mk n rule: bitmap_parse_loop.induct)
  case (1 buf c nchunks nbits td mk n)
  have "wf_bitmap (raw_bitmap_shift_left_inplace mk CHUNKSZ n) n"
    using 1(3) by (simp add: shift_left_inplace wf_bitmap_def)
  with 1 show ?case
    by (subst bitmap_parse_loop.simps)
      (auto simp: Let_def wf_or_first split: sum.split)
qed

text \<open>A loop that has printed a chunk prints nine characters for each of the others, or overruns.\<close>

lemma scnprintf_overrun:
  "0 < j \<Longrightarrow> buflen + 9 < len + 9 * j \<Longrightarrow> scnprintf_loop buflen m j 32 '','' False (out, len) = None"
proof (induction j arbitrary: out len)
  case (Suc j)
  show ?case
  proof (cases "len > buflen")
    case True
    then show ?thesis by (simp add: snprintf_at_def Let_def)
  next
    case False
    let ?v = "unat (chunk_val m (32 * j) 32)"
    have "length (pad_hex 8 ?v) = 8" using chunk_val_less [of 32 m j] by (intro length_pad_hex) simp_all
    with False Suc.IH [of "9 + len"] Suc.prems show ?thesis
      by (simp add: snprintf_at_def Let_def CHUNKSZ_def)
  qed
qed simp

section \<open>Properties\<close>

text \<open>
  (C28) Printing and parsing: a buffer with room for the text gets the whole of it, and parsing that
  text gives a bitmap with exactly the bits of the one that was printed and a clean last word,
  whatever the destination held before. This covers the leading chunk that is not a multiple of
  32 bits wide, the zero chunks that are not printed and the bitmap without any bit.
\<close>

theorem print_parse_roundtrip:
  assumes "32 < n" and "wf_bitmap dst n" and "9 * ((n + 31) div 32) < buflen"
  shows "\<exists>out mk. bitmap_scnprintf buflen m n = Some (out, length out) \<and>
    raw_bitmap_parse out dst n = (Parsed, mk) \<and> clean_bitmap mk n \<and> bits_of mk n = bits_of m n"
  using bitmap_scnprintf_fits [of m n buflen] length_bitmap_text [of m n] parse_bitmap_text [OF assms(1,2), of m]
    assms(3) by fastforce

text \<open>
  (C32) The parser of CPU lists reads every non-empty list of ranges in the kernel's notation, single
  numbers and \<open>a-b\<close>, and sets exactly the bits of their union.
\<close>

theorem parselist_reads_ranges:
  assumes "wf_bitmap dst n" and "int n \<le> INT_MAX" and "rs \<noteq> []"
    and "\<forall>(a, b) \<in> set rs. a \<le> b \<and> b < n"
  shows "\<exists>mk. raw_bitmap_parselist (list_text rs) dst n = (Parsed, mk) \<and> wf_bitmap mk n \<and>
    bits_of mk n = (\<Union>(a, b) \<in> set rs. {a..b})"
  by (rule parselist_list_text [OF assms])


text \<open>The parsers never change the size of the mask.\<close>

lemma length_set_bit_c: "set_bit_c i m = Some m' \<Longrightarrow> length m' = length m"
  by (auto simp: set_bit_c_def Let_def split: option.splits)

lemma length_set_bit_range: "set_bit_range a b m = Some m' \<Longrightarrow> length m' = length m"
proof -
  have "\<forall>m'. fold (\<lambda>i m. Option.bind m (set_bit_c i)) xs (Some m) = Some m' \<longrightarrow> length m' = length m" for xs
    by (rule fold_invariant_on [where I = "\<lambda>om. \<forall>m'. om = Some m' \<longrightarrow> length m' = length m"])
      (auto simp: bind_eq_Some_conv length_set_bit_c)
  then show "set_bit_range a b m = Some m' \<Longrightarrow> length m' = length m" by (simp add: set_bit_range_def)
qed

lemma length_parselist_loop: "length (snd (bitmap_parselist_loop buf c td m n)) = length m"
proof (induction buf c td m n rule: bitmap_parselist_loop.induct)
  case (1 buf c td m n)
  show ?case
    by (subst bitmap_parselist_loop.simps)
      (auto split: sum.split option.split simp: length_set_bit_range 1)
qed

lemma length_parse_loop: "length (snd (bitmap_parse_loop buf c nc nb td m n)) = length m"
proof (induction buf c nc nb td m n rule: bitmap_parse_loop.induct)
  case (1 buf c nc nb td m n)
  show ?case
    by (subst bitmap_parse_loop.simps) (use 1 in \<open>auto split: sum.split simp: Let_def shift_left_inplace\<close>)
qed

end
