(* ===== verification/Cpumask.thy ===== *)
theory Cpumask
  imports Bitmap_Text
begin

text \<open>
  The CPU masks of \<open>cpumask.h\<close>: bitmaps of \<open>NR_CPUS\<close> bits. The locale \<open>cpu_sets\<close> states what the
  rest of the program relies on, sets of CPU numbers with the usual operations, and derives the
  consequences; it is interpreted on the bitmap operations at the end.
\<close>

section \<open>Operations\<close>

definition NR_CPUS :: nat where
  "NR_CPUS = 4096"

type_synonym cpumask = "u64 list"

definition cpu_set :: "int \<Rightarrow> cpumask \<Rightarrow> cpumask option" where
  "cpu_set cpu dst = set_bit_c cpu dst"

definition cpu_clear :: "int \<Rightarrow> cpumask \<Rightarrow> cpumask option" where
  "cpu_clear cpu dst = clear_bit cpu dst"

definition cpus_setall :: "cpumask \<Rightarrow> cpumask" where
  "cpus_setall dst = bitmap_fill dst NR_CPUS"

definition cpus_clear :: "cpumask \<Rightarrow> cpumask" where
  "cpus_clear dst = bitmap_zero dst NR_CPUS"

definition cpu_isset :: "int \<Rightarrow> cpumask \<Rightarrow> bool option" where
  "cpu_isset cpu cpumask = test_bit cpu cpumask"

definition cpus_and :: "cpumask \<Rightarrow> cpumask \<Rightarrow> cpumask \<Rightarrow> cpumask" where
  "cpus_and dst src1 src2 = bitmap_and dst src1 src2 NR_CPUS"

definition cpus_or :: "cpumask \<Rightarrow> cpumask \<Rightarrow> cpumask \<Rightarrow> cpumask" where
  "cpus_or dst src1 src2 = bitmap_or dst src1 src2 NR_CPUS"

definition cpus_xor :: "cpumask \<Rightarrow> cpumask \<Rightarrow> cpumask \<Rightarrow> cpumask" where
  "cpus_xor dst src1 src2 = bitmap_xor dst src1 src2 NR_CPUS"

definition cpus_andnot :: "cpumask \<Rightarrow> cpumask \<Rightarrow> cpumask \<Rightarrow> cpumask" where
  "cpus_andnot dst src1 src2 = bitmap_andnot dst src1 src2 NR_CPUS"

definition cpus_complement :: "cpumask \<Rightarrow> cpumask \<Rightarrow> cpumask" where
  "cpus_complement dst src = bitmap_complement dst src NR_CPUS"

definition cpus_equal :: "cpumask \<Rightarrow> cpumask \<Rightarrow> bool" where
  "cpus_equal src1 src2 = bitmap_equal src1 src2 NR_CPUS"

definition cpus_intersects :: "cpumask \<Rightarrow> cpumask \<Rightarrow> bool" where
  "cpus_intersects src1 src2 = bitmap_intersects src1 src2 NR_CPUS"

definition cpus_empty :: "cpumask \<Rightarrow> bool" where
  "cpus_empty src = bitmap_empty src NR_CPUS"

definition cpus_full :: "cpumask \<Rightarrow> bool" where
  "cpus_full src = bitmap_full src NR_CPUS"

definition cpus_weight :: "cpumask \<Rightarrow> nat" where
  "cpus_weight src = bitmap_weight src NR_CPUS"

definition cpus_shift_right :: "cpumask \<Rightarrow> cpumask \<Rightarrow> nat \<Rightarrow> cpumask" where
  "cpus_shift_right dst src n = bitmap_shift_right dst src n NR_CPUS"

definition cpus_shift_left :: "cpumask \<Rightarrow> cpumask \<Rightarrow> nat \<Rightarrow> cpumask" where
  "cpus_shift_left dst src n = bitmap_shift_left dst src n NR_CPUS"

definition cpus_copy :: "cpumask \<Rightarrow> cpumask \<Rightarrow> cpumask" where
  "cpus_copy dst src = bitmap_copy dst src NR_CPUS"

definition CPU_MASK_ALL :: cpumask where
  "CPU_MASK_ALL = replicate (BITS_TO_LONGS NR_CPUS - 1) (NOT 0) @ [BITMAP_LAST_WORD_MASK NR_CPUS]"

definition CPU_MASK_NONE :: cpumask where
  "CPU_MASK_NONE = replicate (BITS_TO_LONGS NR_CPUS) 0"

definition CPU_MASK_CPU0 :: cpumask where
  "CPU_MASK_CPU0 = (replicate (BITS_TO_LONGS NR_CPUS) 0)[0 := 1]"

text \<open>\<open>sizeof(m)\<close> is larger than a word, so the macro takes its second branch.\<close>

definition cpumask_of_cpu :: "int \<Rightarrow> cpumask option" where
  "cpumask_of_cpu cpu = cpu_set cpu (cpus_clear (replicate (BITS_TO_LONGS NR_CPUS) 0))"

definition cpumask_scnprintf :: "nat \<Rightarrow> cpumask \<Rightarrow> (string \<times> nat) option" where
  "cpumask_scnprintf len src = bitmap_scnprintf len src NR_CPUS"

definition cpumask_parse_user :: "string \<Rightarrow> cpumask \<Rightarrow> parse_code \<times> cpumask" where
  "cpumask_parse_user buf dst = raw_bitmap_parse buf dst NR_CPUS"

definition cpulist_parse :: "string \<Rightarrow> cpumask \<Rightarrow> parse_code \<times> cpumask" where
  "cpulist_parse buf dst = raw_bitmap_parselist buf dst NR_CPUS"

definition num_online_cpus :: "cpumask \<Rightarrow> nat" where
  "num_online_cpus cpu_online_map = cpus_weight cpu_online_map"

definition cpu_online :: "int \<Rightarrow> cpumask \<Rightarrow> bool option" where
  "cpu_online cpu cpu_online_map = cpu_isset cpu cpu_online_map"

section \<open>The interface\<close>

locale cpu_sets =
  fixes univ :: "nat set"
    and wf :: "'m \<Rightarrow> bool"
    and cpus :: "'m \<Rightarrow> nat set"
    and set_op clear_op :: "int \<Rightarrow> 'm \<Rightarrow> 'm option"
    and isset :: "int \<Rightarrow> 'm \<Rightarrow> bool option"
    and and_op or_op :: "'m \<Rightarrow> 'm \<Rightarrow> 'm \<Rightarrow> 'm"
    and compl_op :: "'m \<Rightarrow> 'm \<Rightarrow> 'm"
    and equal_op intersects_op :: "'m \<Rightarrow> 'm \<Rightarrow> bool"
    and empty_op :: "'m \<Rightarrow> bool"
    and weight_op :: "'m \<Rightarrow> nat"
  assumes univ: "finite univ" "cpus a \<subseteq> univ"
    and set_op: "\<lbrakk> wf m; c \<in> univ \<rbrakk> \<Longrightarrow> \<exists>m'. set_op (int c) m = Some m' \<and> wf m' \<and> cpus m' = insert c (cpus m)"
    and clear_op: "\<lbrakk> wf m; c \<in> univ \<rbrakk> \<Longrightarrow> \<exists>m'. clear_op (int c) m = Some m' \<and> wf m' \<and> cpus m' = cpus m - {c}"
    and isset: "\<lbrakk> wf m; c \<in> univ \<rbrakk> \<Longrightarrow> isset (int c) m = Some (c \<in> cpus m)"
    and and_op: "wf d \<Longrightarrow> cpus (and_op d a b) = cpus a \<inter> cpus b" "wf d \<Longrightarrow> wf (and_op d a b)"
    and or_op: "wf d \<Longrightarrow> cpus (or_op d a b) = cpus a \<union> cpus b" "wf d \<Longrightarrow> wf (or_op d a b)"
    and compl_op: "wf d \<Longrightarrow> cpus (compl_op d a) = univ - cpus a" "wf d \<Longrightarrow> wf (compl_op d a)"
    and equal_op: "equal_op a b \<longleftrightarrow> cpus a = cpus b"
    and intersects_op: "intersects_op a b \<longleftrightarrow> cpus a \<inter> cpus b \<noteq> {}"
    and empty_op: "empty_op a \<longleftrightarrow> cpus a = {}"
    and weight_op: "weight_op a = card (cpus a)"
begin

lemma finite_cpus [simp]: "finite (cpus a)"
  using univ finite_subset by blast

lemma intersects_via_and: "wf d \<Longrightarrow> intersects_op a b \<longleftrightarrow> \<not> empty_op (and_op d a b)"
  by (simp add: intersects_op empty_op and_op)

lemma weight_empty: "empty_op a \<longleftrightarrow> weight_op a = 0"
  by (simp add: empty_op weight_op)

lemma weight_and_or:
  "wf d \<Longrightarrow> wf d' \<Longrightarrow> weight_op (or_op d a b) + weight_op (and_op d' a b) = weight_op a + weight_op b"
  using card_Un_Int [OF finite_cpus finite_cpus, of a b] by (simp only: weight_op and_op or_op)

text \<open>The usable CPUs: those online that are not banned.\<close>

lemma usable:
  "wf d \<Longrightarrow> wf d' \<Longrightarrow> cpus (and_op d online (compl_op d' banned)) = cpus online - cpus banned"
  using univ(2) by (auto simp: and_op compl_op)

lemma usable_isset:
  assumes "wf d" "wf d'" and "c \<in> univ"
  shows "isset (int c) (and_op d online (compl_op d' banned)) = Some (c \<in> cpus online \<and> c \<notin> cpus banned)"
  using assms by (simp add: isset and_op(2) usable)

lemma set_isset:
  assumes "wf m" "c \<in> univ" "c' \<in> univ"
  shows "\<exists>m'. set_op (int c) m = Some m' \<and> isset (int c') m' = Some (c' = c \<or> c' \<in> cpus m)"
  using set_op [OF assms(1,2)] assms(3) by (auto simp: isset)

lemma weight_set:
  assumes "wf m" "c \<in> univ"
  shows "\<exists>m'. set_op (int c) m = Some m' \<and> weight_op m' = weight_op m + (if c \<in> cpus m then 0 else 1)"
  using set_op [OF assms] by (auto simp: weight_op card_insert_if)

end

section \<open>The masks implement the interface\<close>

definition cpus_of :: "cpumask \<Rightarrow> nat set" where
  "cpus_of m = bits_of m NR_CPUS"

definition wf_cpumask :: "cpumask \<Rightarrow> bool" where
  "wf_cpumask m \<longleftrightarrow> length m = 64"

lemma longs_NR_CPUS [simp]: "BITS_TO_LONGS NR_CPUS = 64"
  by (simp add: BITS_TO_LONGS_def NR_CPUS_def)

lemma wf_cpumask_bitmap: "wf_cpumask m \<longleftrightarrow> wf_bitmap m NR_CPUS"
  unfolding wf_bitmap_def wf_cpumask_def longs_NR_CPUS by (simp add: NR_CPUS_def)

lemma cpus_of_eqI:
  assumes "wf_cpumask m" and "\<And>i. i < NR_CPUS \<Longrightarrow> array_bit m i \<longleftrightarrow> i \<in> S" and "S \<subseteq> {..<NR_CPUS}"
  shows "cpus_of m = S"
  using assms by (auto simp: cpus_of_def bits_of_def)

lemma length_writes [simp]:
  assumes "wf_bitmap dst n"
  shows "length (bitmap_and dst a b n) = length dst" "length (bitmap_or dst a b n) = length dst"
    "length (bitmap_xor dst a b n) = length dst" "length (bitmap_andnot dst a b n) = length dst"
    "length (bitmap_copy dst a n) = length dst"
  by (simp_all add: write_as_loop [OF assms])

lemma NR_CPUS_pos [simp]: "0 < NR_CPUS"
  by (simp add: NR_CPUS_def)

interpretation mask: cpu_sets "{..<NR_CPUS}" wf_cpumask cpus_of cpu_set cpu_clear cpu_isset cpus_and
  cpus_or cpus_complement cpus_equal cpus_intersects cpus_empty cpus_weight
proof
  have len: "64 * int (length m) = int NR_CPUS" "64 * length m = NR_CPUS" if "wf_cpumask m" for m
    using that by (simp_all add: wf_cpumask_def NR_CPUS_def)
  show "finite {..<NR_CPUS}" "cpus_of a \<subseteq> {..<NR_CPUS}" for a
    by (auto simp: cpus_of_def bits_of_def)
  show "\<exists>m'. cpu_set (int c) m = Some m' \<and> wf_cpumask m' \<and> cpus_of m' = insert c (cpus_of m)"
    if "wf_cpumask m" "c \<in> {..<NR_CPUS}" for m c
    using set_bit_c_Some [of "int c" m] that len [OF that(1)]
    by (auto simp: cpu_set_def wf_cpumask_def cpus_of_def bits_of_def)
  show "\<exists>m'. cpu_clear (int c) m = Some m' \<and> wf_cpumask m' \<and> cpus_of m' = cpus_of m - {c}"
    if "wf_cpumask m" "c \<in> {..<NR_CPUS}" for m c
    using clear_bit_Some [of "int c" m] that len [OF that(1)]
    by (auto simp: cpu_clear_def wf_cpumask_def cpus_of_def bits_of_def)
  show "cpu_isset (int c) m = Some (c \<in> cpus_of m)"
    if "wf_cpumask m" "c \<in> {..<NR_CPUS}" for m c
    using test_bit_Some [of "int c" m] that len [OF that(1)]
    by (auto simp: cpu_isset_def cpus_of_def bits_of_def)
  show "cpus_of (cpus_and d a b) = cpus_of a \<inter> cpus_of b" "wf_cpumask (cpus_and d a b)"
    "cpus_of (cpus_or d a b) = cpus_of a \<union> cpus_of b" "wf_cpumask (cpus_or d a b)"
    if "wf_cpumask d" for d a b
    using that by (simp_all add: cpus_of_def cpus_and_def cpus_or_def wf_cpumask_bitmap bits_of_writes)
      (simp_all add: wf_bitmap_def)
  show "cpus_of (cpus_complement d a) = {..<NR_CPUS} - cpus_of a" "wf_cpumask (cpus_complement d a)"
    if "wf_cpumask d" for d a
    using that array_bit_complement [of d NR_CPUS] len [OF that]
    by (auto simp: cpus_of_def bits_of_def cpus_complement_def wf_cpumask_bitmap) (simp_all add: wf_bitmap_def)
  show "cpus_equal a b \<longleftrightarrow> cpus_of a = cpus_of b" for a b
    by (auto simp: cpus_equal_def cpus_of_def bitmap_equal_iff)
  show "cpus_intersects a b \<longleftrightarrow> cpus_of a \<inter> cpus_of b \<noteq> {}" for a b
    by (auto simp: cpus_intersects_def cpus_of_def bitmap_intersects_iff)
  show "cpus_empty a \<longleftrightarrow> cpus_of a = {}" for a
    by (auto simp: cpus_empty_def cpus_of_def bitmap_empty_iff)
  show "cpus_weight a = card (cpus_of a)" for a
    by (auto simp: cpus_weight_def cpus_of_def bitmap_weight_card)
qed

lemma last_bit_CPU_MASK_ALL: "chunk_val CPU_MASK_ALL (32 * 127) 32 \<noteq> 0"
proof -
  have "CPU_MASK_ALL ! 63 = NOT 0"
    by (simp add: CPU_MASK_ALL_def nth_append BITMAP_LAST_WORD_MASK_def) (simp add: NR_CPUS_def)
  then have "array_bit CPU_MASK_ALL (32 * 127 + 0)" by (simp add: array_bit_def bit_not_iff)
  then show ?thesis unfolding chunk_val_0_iff [of 32, OF order_refl] by force
qed

section \<open>Properties\<close>

text \<open>
  The CPUs the daemon may use, \<open>cpu_online_map & ~banned_cpus\<close> built with the mask operations, are
  the online CPUs that are not banned, and the test of a CPU number agrees with that.
\<close>

theorem usable_cpus:
  assumes "wf_cpumask d" and "wf_cpumask d'" and "c < NR_CPUS"
  shows "cpus_of (cpus_and d online (cpus_complement d' banned)) = cpus_of online - cpus_of banned
    \<and> cpu_isset (int c) (cpus_and d online (cpus_complement d' banned)) = Some (c \<in> cpus_of online \<and> c \<notin> cpus_of banned)
    \<and> cpus_weight (cpus_and d online (cpus_complement d' banned)) = card (cpus_of online - cpus_of banned)"
  using mask.usable [OF assms(1,2)] mask.usable_isset [OF assms(1,2)] assms(3) by (simp add: mask.weight_op)

text \<open>
  (C40) \<open>cpumask_scnprintf\<close> of a full mask into a buffer of 512 bytes, the size \<open>sock_handle\<close> uses for the
  setup reply, writes behind the buffer: the remaining size wraps around once the text is longer.
\<close>

theorem full_mask_overruns_512_bytes: "cpumask_scnprintf 512 CPU_MASK_ALL = None"
proof -
  let ?v = "unat (chunk_val CPU_MASK_ALL (32 * 127) 32)"
  have len: "length (pad_hex 8 ?v) = 8"
    using chunk_val_less [of 32 CPU_MASK_ALL 127] by (intro length_pad_hex) simp_all
  have "scnprintf_loop 512 CPU_MASK_ALL (Suc 127) 32 [] True ([], 0)
      = scnprintf_loop 512 CPU_MASK_ALL 127 32 '','' False (pad_hex 8 ?v, 8)"
    using last_bit_CPU_MASK_ALL len by (subst scnprintf_loop.simps(2)) (simp add: Let_def CHUNKSZ_def snprintf_at_def)
  also have "\<dots> = None" by (rule scnprintf_overrun) simp_all
  finally show ?thesis
    by (simp add: cpumask_scnprintf_def bitmap_scnprintf_def NR_CPUS_def first_chunksz_def CHUNKSZ_def)
qed

end
