(* ===== verification/Topology.thy ===== *)
theory Topology
  imports Cpumask
begin

text \<open>
  The data model of the daemon (\<open>types.h\<close>, \<open>irqbalance.h\<close> and the globals of the source files): the
  topology objects and the interrupts live in two stores indexed by address, the lists hold
  addresses. The invariant \<open>irqs_ok\<close> says that the list an interrupt is on and its
  \<open>assigned_obj\<close> field always agree.
\<close>

section \<open>Constants\<close>

definition BALANCE_NONE :: int where "BALANCE_NONE = 0"
definition BALANCE_PACKAGE :: int where "BALANCE_PACKAGE = 1"
definition BALANCE_CACHE :: int where "BALANCE_CACHE = 2"
definition BALANCE_CORE :: int where "BALANCE_CORE = 3"

lemmas balance_levels = BALANCE_NONE_def BALANCE_PACKAGE_def BALANCE_CACHE_def BALANCE_CORE_def

definition IRQ_NODEF :: int where "IRQ_NODEF = - 1"
definition IRQ_OTHER :: int where "IRQ_OTHER = 0"
definition IRQ_LEGACY :: int where "IRQ_LEGACY = 1"
definition IRQ_SCSI :: int where "IRQ_SCSI = 2"
definition IRQ_VIDEO :: int where "IRQ_VIDEO = 3"
definition IRQ_ETH :: int where "IRQ_ETH = 4"
definition IRQ_GBETH :: int where "IRQ_GBETH = 5"
definition IRQ_10GBETH :: int where "IRQ_10GBETH = 6"
definition IRQ_VIRT_EVENT :: int where "IRQ_VIRT_EVENT = 7"

definition IRQ_TYPE_LEGACY :: int where "IRQ_TYPE_LEGACY = 0"
definition IRQ_TYPE_MSI :: int where "IRQ_TYPE_MSI = 1"
definition IRQ_TYPE_MSIX :: int where "IRQ_TYPE_MSIX = 2"
definition IRQ_TYPE_VIRT_EVENT :: int where "IRQ_TYPE_VIRT_EVENT = 3"

definition IRQ_FLAG_BANNED :: int where "IRQ_FLAG_BANNED = 1"

definition NUMA_NO_NODE :: int where "NUMA_NO_NODE = - 1"

section \<open>Objects and interrupts\<close>

datatype obj_type_e = OBJ_TYPE_CPU | OBJ_TYPE_CACHE | OBJ_TYPE_PACKAGE | OBJ_TYPE_NODE

text \<open>The values of the enumeration; they grow from the CPUs to the NUMA nodes.\<close>

fun obj_type_value :: "obj_type_e \<Rightarrow> nat" where
  "obj_type_value OBJ_TYPE_CPU = 0"
| "obj_type_value OBJ_TYPE_CACHE = 1"
| "obj_type_value OBJ_TYPE_PACKAGE = 2"
| "obj_type_value OBJ_TYPE_NODE = 3"

lemma obj_type_value_inj: "obj_type_value a = obj_type_value b \<Longrightarrow> a = b"
  by (cases a; cases b) simp_all

instantiation obj_type_e :: linorder
begin

definition less_eq_obj_type_e :: "obj_type_e \<Rightarrow> obj_type_e \<Rightarrow> bool" where
  "less_eq_obj_type_e a b \<longleftrightarrow> obj_type_value a \<le> obj_type_value b"

definition less_obj_type_e :: "obj_type_e \<Rightarrow> obj_type_e \<Rightarrow> bool" where
  "less_obj_type_e a b \<longleftrightarrow> obj_type_value a < obj_type_value b"

instance
  by standard (auto simp: less_eq_obj_type_e_def less_obj_type_e_def intro: obj_type_value_inj)

end

datatype master_list = NumaNodes | Packages | CacheDomains | Cpus

text \<open>Addresses of objects and of interrupts.\<close>

type_synonym obj_ref = nat
type_synonym irq_ref = nat

record topo_obj =
  t_load :: u64
  t_last_load :: u64
  t_irq_count :: u64
  t_obj_type :: obj_type_e
  t_number :: int
  t_powersave_mode :: bool
  t_mask :: cpumask
  t_interrupts :: "irq_ref list"
  t_parent :: "obj_ref option"
  t_children :: "obj_ref list"
  t_numa_nodes :: "obj_ref list"
  t_obj_type_list :: "master_list option"
  t_slots_left :: int

record irq_info =
  i_irq :: int
  i_class :: int
  i_type :: int
  i_level :: int
  i_flags :: int
  i_numa_node :: "obj_ref option"
  i_cpumask :: cpumask
  i_irq_count :: u64
  i_last_irq_count :: u64
  i_load :: u64
  i_moved :: bool
  i_existing :: bool
  i_assigned_obj :: "obj_ref option"
  i_name :: "string option"

text \<open>
  The globals. Entries of the stores that no list mentions are memory that is not allocated. The
  last three fields stand for the allocator: the next addresses it hands out, and which of its
  coming calls fail (all later ones succeed).
\<close>

record state =
  objs :: "obj_ref \<Rightarrow> topo_obj"
  irqs :: "irq_ref \<Rightarrow> irq_info"
  interrupts_db :: "irq_ref list"
  banned_irqs :: "irq_ref list"
  rebalance_irq_list :: "irq_ref list"
  numa_nodes :: "obj_ref list"
  packages :: "obj_ref list"
  cache_domains :: "obj_ref list"
  cpus :: "obj_ref list"
  numa_avail :: bool
  banned_cpus :: cpumask
  unbanned_cpus :: cpumask
  cpu_online_map :: cpumask
  cycle_count :: u64
  power_thresh :: u64
  migrate_ratio :: u64
  need_rescan :: bool
  need_rebuild :: bool
  deepest_cache :: u64
  HZ :: int
  cache_domain_count :: int
  thermal_banned_cpus :: cpumask
  cl_banned_irqs :: "irq_ref list"
  cl_banned_modules :: "string list"
  polscript :: "string option"
  cpu_ban_string :: "string option"
  banned_cpumask_from_ui :: "string option"
  proc_int_has_msi :: bool
  msi_found_in_sysfs :: bool
  next_obj :: obj_ref
  next_irq :: irq_ref
  mem_fails :: "bool list"

text \<open>Memory from \<open>calloc\<close>.\<close>

definition zero_obj :: topo_obj where
  "zero_obj = \<lparr> t_load = 0, t_last_load = 0, t_irq_count = 0, t_obj_type = OBJ_TYPE_CPU, t_number = 0,
     t_powersave_mode = False, t_mask = CPU_MASK_NONE, t_interrupts = [], t_parent = None,
     t_children = [], t_numa_nodes = [], t_obj_type_list = None, t_slots_left = 0 \<rparr>"

definition zero_irq :: irq_info where
  "zero_irq = \<lparr> i_irq = 0, i_class = 0, i_type = 0, i_level = 0, i_flags = 0, i_numa_node = None,
     i_cpumask = CPU_MASK_NONE, i_irq_count = 0, i_last_irq_count = 0, i_load = 0, i_moved = False,
     i_existing = False, i_assigned_obj = None, i_name = None \<rparr>"

definition upd_obj :: "obj_ref \<Rightarrow> (topo_obj \<Rightarrow> topo_obj) \<Rightarrow> state \<Rightarrow> state" where
  "upd_obj d f s = s\<lparr> objs := (objs s)(d := f (objs s d)) \<rparr>"

definition upd_irq :: "irq_ref \<Rightarrow> (irq_info \<Rightarrow> irq_info) \<Rightarrow> state \<Rightarrow> state" where
  "upd_irq r f s = s\<lparr> irqs := (irqs s)(r := f (irqs s r)) \<rparr>"

text \<open>
  The fuel of the recursions over the topology: the four kinds of objects bound its depth, since
  every child has a smaller kind than its parent.
\<close>

definition TOPO_DEPTH :: nat where
  "TOPO_DEPTH = 4"

definition tree_descends :: "state \<Rightarrow> bool" where
  "tree_descends s \<longleftrightarrow> (\<forall>d. \<forall>c \<in> set (t_children (objs s d)). t_obj_type (objs s c) < t_obj_type (objs s d))"

lemma type_value_less_depth: "obj_type_value t < TOPO_DEPTH"
  by (cases t) (simp_all add: TOPO_DEPTH_def)

section \<open>Iterators\<close>

text \<open>
  Both iterators fetch the next entry before they call back, and no callback of the program
  unlinks any other entry than its own, so they visit the entries the list had at the start.
  An empty \<open>GList\<close> is the null pointer, for which \<open>for_each_irq\<close> takes the whole database.
\<close>

definition for_each_object :: "obj_ref list \<Rightarrow> (obj_ref \<Rightarrow> 's \<Rightarrow> 's) \<Rightarrow> 's \<Rightarrow> 's" where
  "for_each_object list cb s = fold cb list s"

definition for_each_irq :: "irq_ref list \<Rightarrow> irq_ref list \<Rightarrow> (irq_ref \<Rightarrow> 's \<Rightarrow> 's) \<Rightarrow> 's \<Rightarrow> 's" where
  "for_each_irq db list cb s = fold cb (if list = [] then db else list) s"

section \<open>Moving an interrupt between lists\<close>

text \<open>A \<open>GList **\<close> is the address of one of the lists an interrupt can be on.\<close>

datatype irq_list = RebalanceList | Interrupts obj_ref

fun get_list :: "irq_list \<Rightarrow> state \<Rightarrow> irq_ref list" where
  "get_list RebalanceList s = rebalance_irq_list s"
| "get_list (Interrupts d) s = t_interrupts (objs s d)"

fun set_list :: "irq_list \<Rightarrow> irq_ref list \<Rightarrow> state \<Rightarrow> state" where
  "set_list RebalanceList xs s = s\<lparr> rebalance_irq_list := xs \<rparr>"
| "set_list (Interrupts d) xs s = upd_obj d (t_interrupts_update (\<lambda>_. xs)) s"

text \<open>\<open>compare_ints(a, b) == 0\<close>.\<close>

definition same_irq :: "state \<Rightarrow> int \<Rightarrow> irq_ref \<Rightarrow> bool" where
  "same_irq s irq e \<longleftrightarrow> i_irq (irqs s e) = irq"

definition get_irq_info :: "int \<Rightarrow> state \<Rightarrow> irq_ref option" where
  "get_irq_info irq s =
     (case find (same_irq s irq) (interrupts_db s) of
        Some e \<Rightarrow> Some e
      | None \<Rightarrow> find (same_irq s irq) (banned_irqs s))"

definition migrate_irq :: "irq_list \<Rightarrow> irq_list \<Rightarrow> irq_ref \<Rightarrow> state \<Rightarrow> state" where
  "migrate_irq from to info s =
     (let irq = i_irq (irqs s info)
      in case find (same_irq s irq) (get_list from s) of
           None \<Rightarrow> s
         | Some tmp \<Rightarrow>
             let s = set_list from (remove_first (same_irq s irq) (get_list from s)) s;
                 s = set_list to (get_list to s @ [tmp]) s
             in upd_irq info (i_moved_update (\<lambda>_. True)) s)"

definition list_of :: "obj_ref option \<Rightarrow> irq_list" where
  "list_of d = (case d of None \<Rightarrow> RebalanceList | Some d \<Rightarrow> Interrupts d)"

definition slots_inc :: "topo_obj \<Rightarrow> topo_obj" where
  "slots_inc d = (if t_slots_left d \<noteq> INT_MAX then d\<lparr> t_slots_left := t_slots_left d + 1 \<rparr> else d)"

definition slots_dec :: "topo_obj \<Rightarrow> topo_obj" where
  "slots_dec d = (if t_slots_left d \<noteq> INT_MAX then d\<lparr> t_slots_left := t_slots_left d - 1 \<rparr> else d)"

definition migrate_irq_obj :: "obj_ref option \<Rightarrow> obj_ref option \<Rightarrow> irq_ref \<Rightarrow> state \<Rightarrow> state" where
  "migrate_irq_obj from to info s =
     (let from = (case from of None \<Rightarrow> i_assigned_obj (irqs s info) | Some d \<Rightarrow> Some d);
          s = migrate_irq (list_of from) (list_of to) info s
      in if \<not> i_moved (irqs s info) then s
         else
           let s = (case from of None \<Rightarrow> s | Some d \<Rightarrow> upd_obj d slots_inc s);
               s = (case to of None \<Rightarrow> s
                    | Some d \<Rightarrow>
                        let s = upd_obj d slots_dec s
                        in upd_obj d (t_load_update (\<lambda>l. l + (i_load (irqs s info) + 1))) s)
           in upd_irq info (i_assigned_obj_update (\<lambda>_. to)) s)"

definition force_rebalance_irq :: "irq_ref \<Rightarrow> state \<Rightarrow> state" where
  "force_rebalance_irq info s =
     (if i_level (irqs s info) = BALANCE_NONE then s
      else if i_assigned_obj (irqs s info) = None
      then s\<lparr> rebalance_irq_list := rebalance_irq_list s @ [info] \<rparr>
      else migrate_irq_obj (i_assigned_obj (irqs s info)) None info s)"


section \<open>Frame conditions\<close>

lemma upd_obj_sel [simp]:
  "objs (upd_obj d f s) = (objs s)(d := f (objs s d))" "irqs (upd_obj d f s) = irqs s"
  "interrupts_db (upd_obj d f s) = interrupts_db s" "banned_irqs (upd_obj d f s) = banned_irqs s"
  "rebalance_irq_list (upd_obj d f s) = rebalance_irq_list s" "numa_nodes (upd_obj d f s) = numa_nodes s"
  "packages (upd_obj d f s) = packages s" "cache_domains (upd_obj d f s) = cache_domains s"
  "cpus (upd_obj d f s) = cpus s" "numa_avail (upd_obj d f s) = numa_avail s"
  "banned_cpus (upd_obj d f s) = banned_cpus s" "unbanned_cpus (upd_obj d f s) = unbanned_cpus s"
  "cpu_online_map (upd_obj d f s) = cpu_online_map s" "cycle_count (upd_obj d f s) = cycle_count s"
  "power_thresh (upd_obj d f s) = power_thresh s" "migrate_ratio (upd_obj d f s) = migrate_ratio s"
  "need_rescan (upd_obj d f s) = need_rescan s"
  "need_rebuild (upd_obj d f s) = need_rebuild s"
  "deepest_cache (upd_obj d f s) = deepest_cache s"
  "HZ (upd_obj d f s) = HZ s"
  "cache_domain_count (upd_obj d f s) = cache_domain_count s"
  "thermal_banned_cpus (upd_obj d f s) = thermal_banned_cpus s"
  "cl_banned_irqs (upd_obj d f s) = cl_banned_irqs s"
  "cl_banned_modules (upd_obj d f s) = cl_banned_modules s"
  "polscript (upd_obj d f s) = polscript s"
  "cpu_ban_string (upd_obj d f s) = cpu_ban_string s"
  "banned_cpumask_from_ui (upd_obj d f s) = banned_cpumask_from_ui s"
  "proc_int_has_msi (upd_obj d f s) = proc_int_has_msi s"
  "msi_found_in_sysfs (upd_obj d f s) = msi_found_in_sysfs s"
  "next_obj (upd_obj d f s) = next_obj s"
  "next_irq (upd_obj d f s) = next_irq s"
  "mem_fails (upd_obj d f s) = mem_fails s"
  by (simp_all add: upd_obj_def)

lemma upd_irq_sel [simp]:
  "irqs (upd_irq r f s) = (irqs s)(r := f (irqs s r))" "objs (upd_irq r f s) = objs s"
  "interrupts_db (upd_irq r f s) = interrupts_db s" "banned_irqs (upd_irq r f s) = banned_irqs s"
  "rebalance_irq_list (upd_irq r f s) = rebalance_irq_list s" "numa_nodes (upd_irq r f s) = numa_nodes s"
  "packages (upd_irq r f s) = packages s" "cache_domains (upd_irq r f s) = cache_domains s"
  "cpus (upd_irq r f s) = cpus s" "numa_avail (upd_irq r f s) = numa_avail s"
  "banned_cpus (upd_irq r f s) = banned_cpus s" "unbanned_cpus (upd_irq r f s) = unbanned_cpus s"
  "cpu_online_map (upd_irq r f s) = cpu_online_map s" "cycle_count (upd_irq r f s) = cycle_count s"
  "power_thresh (upd_irq r f s) = power_thresh s" "migrate_ratio (upd_irq r f s) = migrate_ratio s"
  "need_rescan (upd_irq r f s) = need_rescan s"
  "need_rebuild (upd_irq r f s) = need_rebuild s"
  "deepest_cache (upd_irq r f s) = deepest_cache s"
  "HZ (upd_irq r f s) = HZ s"
  "cache_domain_count (upd_irq r f s) = cache_domain_count s"
  "thermal_banned_cpus (upd_irq r f s) = thermal_banned_cpus s"
  "cl_banned_irqs (upd_irq r f s) = cl_banned_irqs s"
  "cl_banned_modules (upd_irq r f s) = cl_banned_modules s"
  "polscript (upd_irq r f s) = polscript s"
  "cpu_ban_string (upd_irq r f s) = cpu_ban_string s"
  "banned_cpumask_from_ui (upd_irq r f s) = banned_cpumask_from_ui s"
  "proc_int_has_msi (upd_irq r f s) = proc_int_has_msi s"
  "msi_found_in_sysfs (upd_irq r f s) = msi_found_in_sysfs s"
  "next_obj (upd_irq r f s) = next_obj s"
  "next_irq (upd_irq r f s) = next_irq s"
  "mem_fails (upd_irq r f s) = mem_fails s"
  by (simp_all add: upd_irq_def)

text \<open>What placing and activating interrupts never touches: the shape of the topology.\<close>

definition shape :: "topo_obj \<Rightarrow> obj_type_e \<times> int \<times> cpumask \<times> obj_ref option \<times> obj_ref list \<times> obj_ref list" where
  "shape d = (t_obj_type d, t_number d, t_mask d, t_parent d, t_children d, t_numa_nodes d)"

definition same_frame :: "state \<Rightarrow> state \<Rightarrow> bool" where
  "same_frame s s' \<longleftrightarrow> (\<forall>d. shape (objs s' d) = shape (objs s d)) \<and>
     interrupts_db s' = interrupts_db s \<and> banned_irqs s' = banned_irqs s \<and>
     numa_nodes s' = numa_nodes s \<and> packages s' = packages s \<and> cache_domains s' = cache_domains s \<and>
     cpus s' = cpus s \<and> numa_avail s' = numa_avail s \<and> banned_cpus s' = banned_cpus s \<and>
     unbanned_cpus s' = unbanned_cpus s \<and> cpu_online_map s' = cpu_online_map s \<and>
     cycle_count s' = cycle_count s \<and> power_thresh s' = power_thresh s \<and>
     migrate_ratio s' = migrate_ratio s \<and>
     need_rescan s' = need_rescan s \<and> need_rebuild s' = need_rebuild s \<and> deepest_cache s' = deepest_cache s \<and>
     HZ s' = HZ s \<and> cache_domain_count s' = cache_domain_count s \<and> thermal_banned_cpus s' = thermal_banned_cpus s \<and>
     cl_banned_irqs s' = cl_banned_irqs s \<and> cl_banned_modules s' = cl_banned_modules s \<and> polscript s' = polscript s \<and>
     cpu_ban_string s' = cpu_ban_string s \<and> banned_cpumask_from_ui s' = banned_cpumask_from_ui s \<and> proc_int_has_msi s' = proc_int_has_msi s \<and>
     msi_found_in_sysfs s' = msi_found_in_sysfs s \<and> next_obj s' = next_obj s \<and> next_irq s' = next_irq s \<and>
     mem_fails s' = mem_fails s \<and>
     (\<forall>r. i_irq (irqs s' r) = i_irq (irqs s r))"

lemma same_frame_refl [simp]: "same_frame s s"
  by (simp add: same_frame_def)

lemma same_frame_trans [trans]: "same_frame s s' \<Longrightarrow> same_frame s' s'' \<Longrightarrow> same_frame s s''"
  by (simp add: same_frame_def)

lemma same_frame_upd_obj: "(\<And>d. shape (f d) = shape d) \<Longrightarrow> same_frame s (upd_obj d f s)"
  by (simp add: same_frame_def)

lemma same_frame_upd_irq: "(\<And>r. i_irq (f r) = i_irq r) \<Longrightarrow> same_frame s (upd_irq r f s)"
  by (simp add: same_frame_def)

lemma same_frame_set_list: "same_frame s (set_list l xs s)"
  by (cases l) (auto simp: same_frame_def shape_def)

lemma shape_slots [simp]: "shape (slots_inc d) = shape d" "shape (slots_dec d) = shape d"
  by (simp_all add: shape_def slots_inc_def slots_dec_def)

lemma same_frame_migrate_irq: "same_frame s (migrate_irq from to r s)"
  unfolding migrate_irq_def Let_def
  by (cases "find (same_irq s (i_irq (irqs s r))) (get_list from s)")
    (simp_all, rule same_frame_trans [OF same_frame_trans [OF same_frame_set_list same_frame_set_list]
        same_frame_upd_irq], simp)

lemma shape_load [simp]: "shape (t_load_update f d) = shape d"
  by (simp add: shape_def)

lemma same_frame_migrate_irq_obj: "same_frame s (migrate_irq_obj from to r s)"
proof -
  define f where "f = (case from of None \<Rightarrow> i_assigned_obj (irqs s r) | Some d \<Rightarrow> Some d)"
  define s1 where "s1 = migrate_irq (list_of f) (list_of to) r s"
  define s2 where "s2 = (case f of None \<Rightarrow> s1 | Some d \<Rightarrow> upd_obj d slots_inc s1)"
  define s3 where "s3 = (case to of None \<Rightarrow> s2 | Some d \<Rightarrow> upd_obj d (t_load_update (\<lambda>l. l + (i_load (irqs (upd_obj d slots_dec s2) r) + 1)))
      (upd_obj d slots_dec s2))"
  have 1: "same_frame s s1" unfolding s1_def by (rule same_frame_migrate_irq)
  have 2: "same_frame s1 s2" unfolding s2_def by (cases f) (simp_all add: same_frame_upd_obj)
  have 3: "same_frame s2 s3" unfolding s3_def
    by (cases to) (simp_all, rule same_frame_trans [OF same_frame_upd_obj same_frame_upd_obj], simp_all)
  have 4: "same_frame s3 (upd_irq r (i_assigned_obj_update (\<lambda>_. to)) s3)"
    by (rule same_frame_upd_irq) simp
  have "migrate_irq_obj from to r s
      = (if \<not> i_moved (irqs s1 r) then s1 else upd_irq r (i_assigned_obj_update (\<lambda>_. to)) s3)"
    unfolding migrate_irq_obj_def Let_def s3_def s2_def s1_def f_def by (rule refl)
  with same_frame_trans [OF same_frame_trans [OF same_frame_trans [OF 1 2] 3] 4] 1
  show ?thesis by simp
qed

section \<open>Interrupts and their lists\<close>

text \<open>
  The invariant of the balancer: no interrupt is twice on a list, an interrupt on a list is in the
  database and is on the list its \<open>assigned_obj\<close> names, and an interrupt that is assigned to an
  object is on that object's list. The numbers of the interrupts in the database are unique.
\<close>

definition irqs_ok :: "state \<Rightarrow> bool" where
  "irqs_ok s \<longleftrightarrow> distinct (interrupts_db s) \<and>
     inj_on (\<lambda>r. i_irq (irqs s r)) (set (interrupts_db s)) \<and>
     (\<forall>l. distinct (get_list l s) \<and> set (get_list l s) \<subseteq> set (interrupts_db s)) \<and>
     (\<forall>l. \<forall>r \<in> set (get_list l s). l = list_of (i_assigned_obj (irqs s r))) \<and>
     (\<forall>r \<in> set (interrupts_db s). \<forall>d. i_assigned_obj (irqs s r) = Some d \<longrightarrow> r \<in> set (t_interrupts (objs s d)))"

lemma list_of_simps [simp]: "list_of None = RebalanceList" "list_of (Some d) = Interrupts d"
  by (simp_all add: list_of_def)

lemma list_of_inj [simp]: "list_of a = list_of b \<longleftrightarrow> a = b"
  by (cases a; cases b) simp_all

lemma get_list_set_list: "get_list l (set_list l' xs s) = (if l = l' then xs else get_list l s)"
  by (cases l; cases l') auto

lemma get_list_upd_obj: "(\<And>d. t_interrupts (f d) = t_interrupts d) \<Longrightarrow> get_list l (upd_obj d f s) = get_list l s"
  by (cases l) auto

lemma get_list_upd_irq [simp]: "get_list l (upd_irq r f s) = get_list l s"
  by (cases l) auto

lemma irqs_set_list [simp]: "irqs (set_list l xs s) = irqs s"
  by (cases l) auto

lemma interrupts_slots [simp]: "t_interrupts (slots_inc d) = t_interrupts d" "t_interrupts (slots_dec d) = t_interrupts d"
  by (simp_all add: slots_inc_def slots_dec_def)

text \<open>Where an interrupt that can be migrated is found.\<close>

definition on_its_list :: "state \<Rightarrow> irq_ref \<Rightarrow> bool" where
  "on_its_list s r \<longleftrightarrow> r \<in> set (get_list (list_of (i_assigned_obj (irqs s r))) s)"

lemma find_on_list:
  assumes "irqs_ok s" and "r \<in> set (get_list l s)"
  shows "find (same_irq s (i_irq (irqs s r))) (get_list l s) = Some r"
    and "set (remove_first (same_irq s (i_irq (irqs s r))) (get_list l s)) = set (get_list l s) - {r}"
proof -
  have sub: "set (get_list l s) \<subseteq> set (interrupts_db s)" and inj: "inj_on (\<lambda>r. i_irq (irqs s r)) (set (interrupts_db s))"
    and dist: "distinct (get_list l s)"
    using assms(1) by (auto simp: irqs_ok_def)
  show "find (same_irq s (i_irq (irqs s r))) (get_list l s) = Some r"
  proof (rule find_unique [OF assms(2)])
    show "same_irq s (i_irq (irqs s r)) r" by (simp add: same_irq_def)
    show "\<forall>y \<in> set (get_list l s). same_irq s (i_irq (irqs s r)) y \<longrightarrow> y = r"
      using sub inj assms(2) by (auto simp: same_irq_def inj_on_def)
  qed
  then show "set (remove_first (same_irq s (i_irq (irqs s r))) (get_list l s)) = set (get_list l s) - {r}"
    by (rule set_remove_first_distinct [OF dist])
qed

lemma migrate_irq_obj_effect:
  fixes s :: state and r :: irq_ref and l :: irq_list and "from" to :: "obj_ref option"
  assumes ok: "irqs_ok s" and on: "on_its_list s r"
    and frm: "from = None \<or> from = i_assigned_obj (irqs s r)"
  defines "s' \<equiv> migrate_irq_obj from to r s"
  shows "irqs s' = (irqs s)(r := (irqs s r)\<lparr> i_moved := True, i_assigned_obj := to \<rparr>)"
    and "get_list l s' = (let src = list_of (i_assigned_obj (irqs s r));
           xs = (if l = src then remove_first (same_irq s (i_irq (irqs s r))) (get_list l s) else get_list l s)
         in if l = list_of to then xs @ [r] else xs)"
    and "same_frame s s'"
proof -
  let ?src = "i_assigned_obj (irqs s r)"
  have src: "(case from of None \<Rightarrow> ?src | Some d \<Rightarrow> Some d) = ?src"
    using frm by (auto split: option.split)
  note found = find_on_list(1) [OF ok on [unfolded on_its_list_def]]
  define s1 where "s1 = migrate_irq (list_of ?src) (list_of to) r s"
  have irqs1: "irqs s1 = (irqs s)(r := (irqs s r)\<lparr> i_moved := True \<rparr>)"
    by (simp add: s1_def migrate_irq_def Let_def found)
  have lists1: "get_list l s1 = (let xs = (if l = list_of ?src then
      remove_first (same_irq s (i_irq (irqs s r))) (get_list l s) else get_list l s)
         in if l = list_of to then xs @ [r] else xs)" for l
    by (auto simp: s1_def migrate_irq_def Let_def found get_list_set_list)
  have moved: "i_moved (irqs s1 r)" by (simp add: irqs1)
  have s': "s' = upd_irq r (i_assigned_obj_update (\<lambda>_. to)) (case to of None \<Rightarrow> (case ?src of None \<Rightarrow> s1 | Some d \<Rightarrow> upd_obj d slots_inc s1)
     | Some d \<Rightarrow> upd_obj d (t_load_update (\<lambda>l. l + (i_load (irqs s r) + 1)))
         (upd_obj d slots_dec (case ?src of None \<Rightarrow> s1 | Some d \<Rightarrow> upd_obj d slots_inc s1)))"
    unfolding s'_def migrate_irq_obj_def Let_def src s1_def [symmetric] using moved
    by (auto split: option.split simp: irqs1)
  show "irqs s' = (irqs s)(r := (irqs s r)\<lparr> i_moved := True, i_assigned_obj := to \<rparr>)"
    unfolding s' by (auto split: option.split simp: irqs1)
  show "get_list l s' = (let src = list_of ?src;
       xs = (if l = src then remove_first (same_irq s (i_irq (irqs s r))) (get_list l s) else get_list l s)
     in if l = list_of to then xs @ [r] else xs)"
    unfolding Let_def lists1 [unfolded Let_def, symmetric] s'
    by (auto split: option.split simp: get_list_upd_obj)
  show "same_frame s s'" unfolding s'_def by (rule same_frame_migrate_irq_obj)
qed

lemma set_list_migrate:
  assumes ok: "irqs_ok s" and on: "on_its_list s r"
    and frm: "from = None \<or> from = i_assigned_obj (irqs s r)"
  shows "set (get_list l (migrate_irq_obj from to r s))
    = (if l = list_of to then insert r (set (get_list l s)) else set (get_list l s) - {r})"
proof -
  let ?src = "list_of (i_assigned_obj (irqs s r))"
  have "set (remove_first (same_irq s (i_irq (irqs s r))) (get_list ?src s)) = set (get_list ?src s) - {r}"
    by (rule find_on_list(2) [OF ok on [unfolded on_its_list_def]])
  moreover have "l \<noteq> ?src \<Longrightarrow> r \<notin> set (get_list l s)" using ok by (auto simp: irqs_ok_def)
  ultimately show ?thesis
    unfolding migrate_irq_obj_effect(2) [OF ok on frm] Let_def
    by (cases "l = ?src"; cases "l = list_of to") auto
qed

text \<open>Migrating an interrupt keeps the invariant and puts it on the list of its new object.\<close>

lemma irqs_ok_migrate [inv_intros]:
  assumes ok: "irqs_ok s" and on: "on_its_list s r"
    and frm: "from = None \<or> from = i_assigned_obj (irqs s r)"
  shows "irqs_ok (migrate_irq_obj from to r s)"
proof -
  let ?s = "migrate_irq_obj from to r s" and ?src = "list_of (i_assigned_obj (irqs s r))"
  note eff = migrate_irq_obj_effect [OF ok on frm, where to = to]
  note sets = set_list_migrate [OF ok on frm, where to = to]
  note rem = find_on_list(2) [OF ok on [unfolded on_its_list_def]]
  have only: "r \<notin> set (get_list l s)" if "l \<noteq> ?src" for l
    using ok that by (auto simp: irqs_ok_def)
  have dist: "distinct (get_list l ?s)" for l
    using ok rem only [of l] by (auto simp: eff(2) Let_def irqs_ok_def)
  have db: "interrupts_db ?s = interrupts_db s" using eff(3) by (simp add: same_frame_def)
  have rdb: "r \<in> set (interrupts_db s)" using ok on by (auto simp: irqs_ok_def on_its_list_def)
  have irq: "i_irq (irqs ?s q) = i_irq (irqs s q)" for q using eff(3) by (simp add: same_frame_def)
  have "l = list_of (i_assigned_obj (irqs ?s q))" if "q \<in> set (get_list l ?s)" for l q
  proof (cases "q = r")
    case True
    with that show ?thesis by (auto simp: sets eff(1) split: if_splits)
  next
    case False
    with that have "q \<in> set (get_list l s)" by (auto simp: sets split: if_splits)
    with ok have "l = list_of (i_assigned_obj (irqs s q))" unfolding irqs_ok_def by blast
    with False show ?thesis by (simp add: eff(1))
  qed
  moreover have "q \<in> set (t_interrupts (objs ?s d))"
    if "q \<in> set (interrupts_db s)" "i_assigned_obj (irqs ?s q) = Some d" for q d
  proof -
    have "q = r \<or> q \<in> set (get_list (Interrupts d) s)"
      using that ok by (auto simp: eff(1) irqs_ok_def split: if_splits)
    moreover have "q = r \<Longrightarrow> to = Some d" using that by (simp add: eff(1))
    ultimately have "q \<in> set (get_list (Interrupts d) ?s)"
      unfolding sets by (cases "to = Some d") (auto simp del: get_list.simps)
    then show ?thesis by simp
  qed
  moreover have "set (get_list l ?s) \<subseteq> set (interrupts_db s)" for l
    using ok rdb by (auto simp: sets irqs_ok_def)
  ultimately show ?thesis using ok dist by (simp add: irqs_ok_def db irq)
qed

lemma on_its_list_migrate:
  assumes "irqs_ok s" and "on_its_list s r" and "from = None \<or> from = i_assigned_obj (irqs s r)"
  shows "on_its_list (migrate_irq_obj from to r s) r"
    and "q \<noteq> r \<Longrightarrow> on_its_list s q \<Longrightarrow> on_its_list (migrate_irq_obj from to r s) q"
proof -
  note sets = set_list_migrate [OF assms, where to = to]
  note irqs = migrate_irq_obj_effect(1) [OF assms, where to = to]
  show "on_its_list (migrate_irq_obj from to r s) r"
    unfolding on_its_list_def sets irqs by simp
  assume "q \<noteq> r" "on_its_list s q"
  then show "on_its_list (migrate_irq_obj from to r s) q"
    unfolding on_its_list_def sets irqs by auto
qed

text \<open>
  \<open>force_rebalance_irq\<close> appends an unassigned interrupt without looking whether it is on the
  rebalance list already; it keeps the invariant when it is not.
\<close>

lemma irqs_ok_force_rebalance [inv_intros]:
  assumes ok: "irqs_ok s" and db: "r \<in> set (interrupts_db s)"
    and fresh: "i_assigned_obj (irqs s r) = None \<longrightarrow> r \<notin> set (rebalance_irq_list s)"
  shows "irqs_ok (force_rebalance_irq r s)"
proof (cases "i_assigned_obj (irqs s r)")
  case None
  let ?s = "s\<lparr> rebalance_irq_list := rebalance_irq_list s @ [r] \<rparr>"
  have lists: "get_list l ?s = (if l = RebalanceList then get_list l s @ [r] else get_list l s)" for l
    by (cases l) auto
  have notin: "r \<notin> set (get_list RebalanceList s)" using None fresh by simp
  have "distinct (rebalance_irq_list s)" "set (rebalance_irq_list s) \<subseteq> set (interrupts_db s)"
    using ok [unfolded irqs_ok_def] get_list.simps(1) [of s] by metis+
  then have "irqs_ok ?s" unfolding irqs_ok_def lists
    using ok db None notin by (simp add: irqs_ok_def)
  with None show ?thesis using ok by (auto simp: force_rebalance_irq_def)
next
  case (Some d)
  then have "on_its_list s r" using ok db by (auto simp: on_its_list_def irqs_ok_def)
  with Some irqs_ok_migrate [OF ok] ok show ?thesis by (simp add: force_rebalance_irq_def)
qed

text \<open>What a migration does to the counters of the objects.\<close>

lemma t_interrupts_update_sel [simp]:
  "t_load (objs (set_list l xs s) d) = t_load (objs s d)"
  "t_slots_left (objs (set_list l xs s) d) = t_slots_left (objs s d)"
  "t_powersave_mode (objs (set_list l xs s) d) = t_powersave_mode (objs s d)"
  by (cases l; simp)+

lemma migrate_irq_counters [simp]:
  "t_load (objs (migrate_irq l l' r s) d) = t_load (objs s d)"
  "t_slots_left (objs (migrate_irq l l' r s) d) = t_slots_left (objs s d)"
  "t_powersave_mode (objs (migrate_irq l l' r s) d) = t_powersave_mode (objs s d)"
  by (simp_all add: migrate_irq_def Let_def split: option.split)

lemma slots_sel [simp]:
  "t_load (slots_inc d) = t_load d" "t_load (slots_dec d) = t_load d"
  "t_powersave_mode (slots_inc d) = t_powersave_mode d" "t_powersave_mode (slots_dec d) = t_powersave_mode d"
  "t_slots_left (slots_inc d) = (if t_slots_left d = INT_MAX then INT_MAX else t_slots_left d + 1)"
  "t_slots_left (slots_dec d) = (if t_slots_left d = INT_MAX then INT_MAX else t_slots_left d - 1)"
  by (simp_all add: slots_inc_def slots_dec_def)

lemma migrate_irq_irqs: "irqs (migrate_irq l l' r s) q =
    (if q = r \<and> find (same_irq s (i_irq (irqs s r))) (get_list l s) \<noteq> None
     then (irqs s r)\<lparr> i_moved := True \<rparr> else irqs s q)"
  by (simp add: migrate_irq_def Let_def split: option.split)

lemma migrate_irq_obj_counters:
  assumes ok: "irqs_ok s" and on: "on_its_list s r"
    and frm: "from = None \<or> from = i_assigned_obj (irqs s r)"
  shows "t_load (objs (migrate_irq_obj from to r s) d)
      = t_load (objs s d) + (if to = Some d then i_load (irqs s r) + 1 else 0)"
    and "t_slots_left (objs (migrate_irq_obj from to r s) d)
      = (let x = t_slots_left (objs s d);
             y = (if i_assigned_obj (irqs s r) = Some d \<and> x \<noteq> INT_MAX then x + 1 else x)
         in if to = Some d \<and> y \<noteq> INT_MAX then y - 1 else y)"
    and "t_powersave_mode (objs (migrate_irq_obj from to r s) d) = t_powersave_mode (objs s d)"
proof -
  have src: "(case from of None \<Rightarrow> i_assigned_obj (irqs s r) | Some d \<Rightarrow> Some d) = i_assigned_obj (irqs s r)"
    using frm by (auto split: option.split)
  note found = find_on_list(1) [OF ok on [unfolded on_its_list_def]]
  show "t_load (objs (migrate_irq_obj from to r s) d)
      = t_load (objs s d) + (if to = Some d then i_load (irqs s r) + 1 else 0)"
    "t_slots_left (objs (migrate_irq_obj from to r s) d)
      = (let x = t_slots_left (objs s d);
             y = (if i_assigned_obj (irqs s r) = Some d \<and> x \<noteq> INT_MAX then x + 1 else x)
         in if to = Some d \<and> y \<noteq> INT_MAX then y - 1 else y)"
    "t_powersave_mode (objs (migrate_irq_obj from to r s) d) = t_powersave_mode (objs s d)"
    unfolding migrate_irq_obj_def Let_def src
    by (auto simp: migrate_irq_irqs found split: option.split)
qed

lemma irqs_ok_upd_irq:
  assumes "\<And>x. i_irq (f x) = i_irq x" "\<And>x. i_assigned_obj (f x) = i_assigned_obj x"
  shows "irqs_ok (upd_irq r f s) = irqs_ok s"
proof -
  have "i_irq (((irqs s)(r := f (irqs s r))) q) = i_irq (irqs s q)"
    "i_assigned_obj (((irqs s)(r := f (irqs s r))) q) = i_assigned_obj (irqs s q)" for q
    using assms by auto
  then show ?thesis by (simp add: irqs_ok_def)
qed

lemma same_frame_force_rebalance: "same_frame s (force_rebalance_irq r s)"
proof -
  have "same_frame s (s\<lparr> rebalance_irq_list := xs \<rparr>)" for xs by (simp add: same_frame_def)
  then show ?thesis by (simp add: force_rebalance_irq_def same_frame_migrate_irq_obj)
qed

definition assigned_to :: "obj_ref \<Rightarrow> irq_ref \<Rightarrow> state \<Rightarrow> bool" where
  "assigned_to d r s \<longleftrightarrow> r \<in> set (interrupts_db s) \<and> i_assigned_obj (irqs s r) = Some d"

lemma interrupts_assigned: "irqs_ok s \<Longrightarrow> r \<in> set (t_interrupts (objs s d)) \<Longrightarrow> assigned_to d r s"
  unfolding irqs_ok_def assigned_to_def
  by (metis get_list.simps(2) list_of_inj list_of_simps(2) subsetD)

section \<open>Properties\<close>

text \<open>
  Moving an interrupt with \<open>migrate_irq_obj\<close> keeps the lists and the \<open>assigned_obj\<close> fields in
  agreement: the interrupt ends on the list of its target and on no other list, its \<open>moved\<close> flag is
  set, and no other interrupt changes.
\<close>

theorem migrate_irq_obj_keeps_lists:
  assumes "irqs_ok s" and "on_its_list s r" and "from = None \<or> from = i_assigned_obj (irqs s r)"
  shows "irqs_ok (migrate_irq_obj from to r s)
    \<and> irqs (migrate_irq_obj from to r s) = (irqs s)(r := (irqs s r)\<lparr> i_moved := True, i_assigned_obj := to \<rparr>)
    \<and> (\<forall>l. (r \<in> set (get_list l (migrate_irq_obj from to r s))) = (l = list_of to))
    \<and> (\<forall>l q. q \<noteq> r \<longrightarrow> (q \<in> set (get_list l (migrate_irq_obj from to r s))) = (q \<in> set (get_list l s)))"
  using irqs_ok_migrate [OF assms, where to = to] migrate_irq_obj_effect(1) [OF assms, where to = to]
  by (simp add: set_list_migrate [OF assms])

text \<open>
  The bookkeeping of a migration: the target's load grows by the load of the interrupt plus one,
  modulo the width of the counter, its free slots shrink by one and those of the source grow by
  one, where an unlimited counter (\<open>INT_MAX\<close>) stays unlimited.
\<close>

theorem migrate_irq_obj_accounts:
  assumes "irqs_ok s" and "on_its_list s r" and "i_assigned_obj (irqs s r) = Some d" and "d \<noteq> b"
  shows "t_load (objs (migrate_irq_obj (Some d) (Some b) r s) b) = t_load (objs s b) + i_load (irqs s r) + 1
    \<and> t_load (objs (migrate_irq_obj (Some d) (Some b) r s) d) = t_load (objs s d)
    \<and> t_slots_left (objs (migrate_irq_obj (Some d) (Some b) r s) b)
        = (if t_slots_left (objs s b) = INT_MAX then INT_MAX else t_slots_left (objs s b) - 1)
    \<and> t_slots_left (objs (migrate_irq_obj (Some d) (Some b) r s) d)
        = (if t_slots_left (objs s d) = INT_MAX then INT_MAX else t_slots_left (objs s d) + 1)"
proof -
  have "Some d = None \<or> Some d = i_assigned_obj (irqs s r)" using assms(3) by simp
  note c = migrate_irq_obj_counters [OF assms(1,2) this]
  show ?thesis unfolding c using assms(3,4) by (auto simp: Let_def add.assoc)
qed

text \<open>
  Forcing a rebalance of an interrupt in the database that is not yet waiting keeps the
  agreement, and puts the interrupt on the rebalance list unless its balance level is none.
\<close>

theorem force_rebalance_irq_enqueues:
  assumes "irqs_ok s" and "r \<in> set (interrupts_db s)"
    and "i_assigned_obj (irqs s r) = None \<longrightarrow> r \<notin> set (rebalance_irq_list s)"
  shows "irqs_ok (force_rebalance_irq r s)
    \<and> (i_level (irqs s r) = BALANCE_NONE \<longrightarrow> force_rebalance_irq r s = s)
    \<and> (i_level (irqs s r) \<noteq> BALANCE_NONE \<longrightarrow>
         r \<in> set (rebalance_irq_list (force_rebalance_irq r s)) \<and>
         i_assigned_obj (irqs (force_rebalance_irq r s) r) = None)"
proof (cases "i_assigned_obj (irqs s r)")
  case None
  with irqs_ok_force_rebalance [OF assms] show ?thesis by (auto simp: force_rebalance_irq_def)
next
  case (Some d)
  then have on: "on_its_list s r" using assms(1,2) by (auto simp: on_its_list_def irqs_ok_def)
  have frm: "Some d = None \<or> Some d = i_assigned_obj (irqs s r)" using Some by simp
  have "r \<in> set (get_list RebalanceList (migrate_irq_obj (Some d) None r s))"
    by (simp add: set_list_migrate [OF assms(1) on frm] del: get_list.simps)
  moreover have "i_assigned_obj (irqs (migrate_irq_obj (Some d) None r s) r) = None"
    by (simp add: migrate_irq_obj_effect(1) [OF assms(1) on frm])
  ultimately show ?thesis using irqs_ok_force_rebalance [OF assms] Some by (auto simp: force_rebalance_irq_def)
qed

end
