(* ===== verification/Ctext.thy ===== *)
theory Ctext
  imports Bitmap_Text
begin

text \<open>
  The functions of the C library and of GLib with which the daemon reads text: numbers
  (\<open>strtoul\<close>, \<open>strtol\<close>), searching (\<open>strstr\<close>, \<open>strchr\<close>, \<open>strcasecmp\<close>), tokens (\<open>strtok_r\<close>), and the
  \<open>%d\<close> conversion of \<open>sprintf\<close>. A string is the list of its characters without the terminator.
\<close>

section \<open>Searching\<close>

definition g_str_has_prefix :: "string \<Rightarrow> string \<Rightarrow> bool" where
  "g_str_has_prefix s p \<longleftrightarrow> take (length p) s = p"

text \<open>\<open>strstr(s, sub) != NULL\<close>\<close>

fun strstr :: "string \<Rightarrow> string \<Rightarrow> bool" where
  "strstr [] sub = (sub = [])"
| "strstr (c # s) sub = (g_str_has_prefix (c # s) sub \<or> strstr s sub)"

text \<open>\<open>strchr\<close>: the text before and the text after the first occurrence.\<close>

fun strchr :: "string \<Rightarrow> char \<Rightarrow> (string \<times> string) option" where
  "strchr [] c = None"
| "strchr (x # s) c =
     (if x = c then Some ([], s)
      else case strchr s c of None \<Rightarrow> None | Some (a, b) \<Rightarrow> Some (x # a, b))"

text \<open>\<open>strcasecmp(a, b) == 0\<close>\<close>

definition strcaseeq :: "string \<Rightarrow> string \<Rightarrow> bool" where
  "strcaseeq a b \<longleftrightarrow> map toupper a = map toupper b"

definition isblank :: "char \<Rightarrow> bool" where
  "isblank c \<longleftrightarrow> c = CHR '' '' \<or> of_char c = (9 :: nat)"

text \<open>The part behind the last slash.\<close>

definition basename :: "string \<Rightarrow> string" where
  "basename s = rev (takeWhile (\<lambda>c. c \<noteq> CHR ''/'') (rev s))"

text \<open>\<open>strtok_r\<close> with blanks as delimiters: the next token and the rest of the text.\<close>

definition strtok :: "string \<Rightarrow> (string \<times> string) option" where
  "strtok s =
     (let s = dropWhile (\<lambda>c. c = CHR '' '') s
      in if s = [] then None
         else Some (takeWhile (\<lambda>c. c \<noteq> CHR '' '') s, drop 1 (dropWhile (\<lambda>c. c \<noteq> CHR '' '') s)))"

section \<open>Numbers\<close>

definition digit_val :: "nat \<Rightarrow> char \<Rightarrow> nat option" where
  "digit_val base c = (if (if base = 16 then isxdigit c else isdigit c) then Some (unhex c) else None)"

text \<open>Reads digits as long as there are any.\<close>

fun read_digits :: "nat \<Rightarrow> string \<Rightarrow> nat \<Rightarrow> nat \<times> string" where
  "read_digits base [] v = (v, [])"
| "read_digits base (c # s) v =
     (case digit_val base c of None \<Rightarrow> (v, c # s) | Some d \<Rightarrow> read_digits base s (base * v + d))"

definition starts_with_digit :: "nat \<Rightarrow> string \<Rightarrow> bool" where
  "starts_with_digit base s = (case s of [] \<Rightarrow> False | c # _ \<Rightarrow> digit_val base c \<noteq> None)"

text \<open>
  White space, an optional sign and, for base 16, an optional \<open>0x\<close> in front of the digits. The
  result is the sign, the number and the rest; no number leaves the text where it was.
\<close>

definition read_number :: "nat \<Rightarrow> string \<Rightarrow> (bool \<times> nat \<times> string) option" where
  "read_number base s =
     (let s = dropWhile isspace s;
          (neg, s) = (case s of c # t \<Rightarrow> if c = CHR ''-'' then (True, t) else if c = CHR ''+'' then (False, t)
                               else (False, s) | [] \<Rightarrow> (False, s));
          s = (if base = 16 \<and> (g_str_has_prefix s ''0x'' \<or> g_str_has_prefix s ''0X'')
                 \<and> starts_with_digit base (drop 2 s) then drop 2 s else s)
      in if starts_with_digit base s
         then let (v, rest) = read_digits base s 0 in Some (neg, v, rest) else None)"

text \<open>The value and \<open>endptr\<close>; also \<open>strtoull\<close>, which has the same width.\<close>

definition strtoul :: "nat \<Rightarrow> string \<Rightarrow> u64 \<times> string" where
  "strtoul base s =
     (case read_number base s of
        None \<Rightarrow> (0, s)
      | Some (neg, v, rest) \<Rightarrow>
          (if v \<ge> 2 ^ 64 then - 1 else if neg then - of_nat v else of_nat v, rest))"

definition strtol :: "nat \<Rightarrow> string \<Rightarrow> int \<times> string" where
  "strtol base s =
     (case read_number base s of
        None \<Rightarrow> (0, s)
      | Some (neg, v, rest) \<Rightarrow>
          (if neg then max (- int v) (- (2 ^ 63)) else min (int v) (2 ^ 63 - 1), rest))"

text \<open>A \<open>long\<close> that is assigned to an \<open>int\<close>.\<close>

definition int_of_long :: "int \<Rightarrow> int" where
  "int_of_long i = int_of_u64 (of_int i)"

definition atoi :: "string \<Rightarrow> int" where
  "atoi s = int_of_long (fst (strtol 10 s))"

text \<open>\<open>(int) strtoul(s, NULL, base)\<close>\<close>

definition int_strtoul :: "nat \<Rightarrow> string \<Rightarrow> int" where
  "int_strtoul base s = int_of_u64 (fst (strtoul base s))"

text \<open>The conversion \<open>%d\<close>.\<close>

definition dec_of_int :: "int \<Rightarrow> string" where
  "dec_of_int i = (if i < 0 then CHR ''-'' # dec_of_nat (nat (- i)) else dec_of_nat (nat i))"

section \<open>Facts\<close>

lemma read_digits_rest: "length (snd (read_digits base s v)) \<le> length s"
  by (induction base s v rule: read_digits.induct) (auto split: option.split)

lemma strtok_shorter:
  assumes "strtok s = Some (t, rest)"
  shows "length rest < length s"
proof -
  define u where "u = dropWhile (\<lambda>c. c = CHR '' '') s"
  define w where "w = dropWhile (\<lambda>c. c \<noteq> CHR '' '') u"
  from assms have "u \<noteq> []" "rest = drop 1 w"
    by (auto simp: strtok_def Let_def u_def w_def split: if_splits)
  moreover have "length w \<le> length u" "length u \<le> length s"
    unfolding w_def u_def by (rule length_dropWhile_le)+
  moreover from \<open>u \<noteq> []\<close> have "0 < length u" by simp
  ultimately have "length w - 1 < length s" by linarith
  with \<open>rest = drop 1 w\<close> show ?thesis by simp
qed

lemma strchr_eq: "strchr s c = Some (a, b) \<Longrightarrow> s = a @ c # b \<and> c \<notin> set a"
  by (induction s arbitrary: a b) (auto split: if_splits option.splits)

text \<open>The digits of a decimal number are read back.\<close>

lemma read_digits_append:
  assumes "\<forall>d \<in> set ds. d < 10" "\<not> starts_with_digit 10 rest"
  shows "read_digits 10 (map dec_digit ds @ rest) v = (dec_value v ds, rest)"
  using assms
proof (induction ds arbitrary: v)
  case Nil
  then show ?case by (cases rest) (auto simp: starts_with_digit_def)
next
  case (Cons d ds)
  from Cons.prems have d: "d < 10" by simp
  have "unhex (dec_digit d) = d" using less_16_cases [OF less_trans [OF d, of 16, simplified]] d
    by (elim disjE) (simp_all add: unhex_def isdigit_def dec_digit_def)
  with dec_digit_class(1) [OF d] have "digit_val 10 (dec_digit d) = Some d" by (simp add: digit_val_def)
  with Cons show ?case by simp
qed

end
