(* ===== verification/Sysfs.thy ===== *)
theory Sysfs
  imports Topology Ctext "HOL-Library.Monad_Syntax"
begin

text \<open>
  What the daemon reads from the system around it, and the functions of \<open>cputree.c\<close> that read one
  line of a file. The system is a parameter of the model: a record of what the calls return.
\<close>

record dirent =
  d_name :: string
  d_isdir :: bool

record file_stat =
  st_isdir :: bool
  st_isreg :: bool
  st_ixusr :: bool

text \<open>
  \<open>file_lines\<close>: the lines \<open>getline\<close> yields, with their newlines, or None where \<open>fopen\<close> fails.
  \<open>popen_script\<close>: what a script prints and its exit status, or None where \<open>popen\<close> fails.
\<close>

record sys =
  file_lines :: "string \<Rightarrow> string list option"
  dir_entries :: "string \<Rightarrow> dirent list option"
  readlink :: "string \<Rightarrow> string option"
  stat :: "string \<Rightarrow> file_stat option"
  popen_script :: "string \<Rightarrow> string \<Rightarrow> int \<Rightarrow> (string \<times> int) option"
  getenv :: "string \<Rightarrow> string option"
  nprocessors_onln :: int

section \<open>Reading a line\<close>

definition process_one_line :: "sys \<Rightarrow> string \<Rightarrow> (string \<Rightarrow> 'a \<Rightarrow> 'a) \<Rightarrow> 'a \<Rightarrow> int \<times> 'a" where
  "process_one_line sys path cb data =
     (case file_lines sys path of
        None \<Rightarrow> (- 1, data)
      | Some [] \<Rightarrow> (- 1, data)
      | Some (line # _) \<Rightarrow> (0, cb line data))"

definition get_hex :: "string \<Rightarrow> int \<Rightarrow> int" where
  "get_hex line data = int_strtoul 16 line"

definition get_int :: "string \<Rightarrow> int \<Rightarrow> int" where
  "get_int line data = int_strtoul 10 line"

definition get_mask_from_bitmap :: "string \<Rightarrow> cpumask \<Rightarrow> cpumask" where
  "get_mask_from_bitmap line m = snd (cpumask_parse_user line m)"

definition get_mask_from_cpulist :: "string \<Rightarrow> cpumask \<Rightarrow> cpumask" where
  "get_mask_from_cpulist line m =
     (if line \<noteq> [] \<and> line ! 0 \<noteq> CHR 0x0A then snd (cpulist_parse line m) else m)"

section \<open>Memory\<close>

definition mem_next :: "state \<Rightarrow> bool \<times> state" where
  "mem_next s = (mem_fails s = [] \<or> \<not> hd (mem_fails s), s\<lparr> mem_fails := tl (mem_fails s) \<rparr>)"

definition calloc_obj :: "state \<Rightarrow> obj_ref option \<times> state" where
  "calloc_obj s =
     (let (ok, s) = mem_next s
      in if ok then (Some (next_obj s), s\<lparr> objs := (objs s)(next_obj s := zero_obj), next_obj := next_obj s + 1 \<rparr>)
         else (None, s))"

definition calloc_irq :: "state \<Rightarrow> irq_ref option \<times> state" where
  "calloc_irq s =
     (let (ok, s) = mem_next s
      in if ok then (Some (next_irq s), s\<lparr> irqs := (irqs s)(next_irq s := zero_irq), next_irq := next_irq s + 1 \<rparr>)
         else (None, s))"

text \<open>\<open>free_cpu_topo\<close>: the lists of the object and the object itself are gone.\<close>

definition free_cpu_topo :: "obj_ref \<Rightarrow> state \<Rightarrow> state" where
  "free_cpu_topo obj s = upd_obj obj (\<lambda>_. zero_obj) s"


section \<open>Masks keep their size\<close>

lemma wf_parse [simp]:
  "wf_cpumask (snd (cpumask_parse_user buf m)) = wf_cpumask m" "wf_cpumask (snd (cpulist_parse buf m)) = wf_cpumask m"
  by (simp_all add: wf_cpumask_def cpumask_parse_user_def cpulist_parse_def raw_bitmap_parse_def raw_bitmap_parselist_def
      length_parse_loop length_parselist_loop)

lemma wf_NONE [simp]: "wf_cpumask CPU_MASK_NONE" "wf_cpumask (cpus_clear CPU_MASK_NONE)" "wf_cpumask (cpus_setall CPU_MASK_NONE)"
  by (simp_all add: wf_cpumask_def CPU_MASK_NONE_def cpus_clear_def cpus_setall_def)

lemma wf_read_mask [simp]:
  "wf_cpumask m \<Longrightarrow> wf_cpumask (snd (process_one_line sys path get_mask_from_bitmap m))"
  "wf_cpumask m \<Longrightarrow> wf_cpumask (snd (process_one_line sys path get_mask_from_cpulist m))"
  by (auto simp: process_one_line_def get_mask_from_bitmap_def get_mask_from_cpulist_def split: option.split list.split)

lemma wf_cpu_set: "cpu_set c m = Some m' \<Longrightarrow> wf_cpumask m' = wf_cpumask m"
  by (simp add: cpu_set_def wf_cpumask_def length_set_bit_c)

end
