(* ===== verification/Numa.thy ===== *)
theory Numa
  imports Sysfs
begin

text \<open>The NUMA nodes of \<open>numa.c\<close> and their connection to the tree of packages, caches and CPUs.\<close>

definition SYSFS_NODE_PATH :: string where
  "SYSFS_NODE_PATH = ''/sys/devices/system/node''"

definition add_one_node :: "sys \<Rightarrow> int \<Rightarrow> state \<Rightarrow> state" where
  "add_one_node sys nodeid s =
     (case calloc_obj s of
        (None, s) \<Rightarrow> s\<lparr> need_rebuild := True \<rparr>
      | (Some d, s) \<Rightarrow>
          let node_mask = (if nodeid = NUMA_NO_NODE then cpus_setall CPU_MASK_NONE
                      else snd (process_one_line sys (SYSFS_NODE_PATH @ ''/node'' @ dec_of_int nodeid @ ''/cpumap'')
                                  get_mask_from_bitmap (cpus_clear CPU_MASK_NONE)));
              s = upd_obj d (\<lambda>x. x\<lparr> t_mask := node_mask, t_obj_type := OBJ_TYPE_NODE, t_number := nodeid,
                                    t_obj_type_list := Some NumaNodes \<rparr>) s
          in s\<lparr> numa_nodes := numa_nodes s @ [d] \<rparr>)"

definition is_node_dir :: "dirent \<Rightarrow> bool" where
  "is_node_dir e \<longleftrightarrow> d_isdir e \<and> g_str_has_prefix (d_name e) ''node'' \<and>
     length (d_name e) > 4 \<and> isdigit (d_name e ! 4)"

definition build_numa_node_list :: "sys \<Rightarrow> state \<Rightarrow> state" where
  "build_numa_node_list sys s =
     (let s = add_one_node sys NUMA_NO_NODE s
      in if \<not> numa_avail s then s
         else case dir_entries sys SYSFS_NODE_PATH of
           None \<Rightarrow> s
         | Some es \<Rightarrow>
             fold (\<lambda>e s. if is_node_dir e then add_one_node sys (int_strtoul 10 (drop 4 (d_name e))) s else s) es s)"

definition free_numa_node_list :: "state \<Rightarrow> state" where
  "free_numa_node_list s = (fold free_cpu_topo (numa_nodes s) s)\<lparr> numa_nodes := [] \<rparr>"

definition get_numa_node :: "int \<Rightarrow> state \<Rightarrow> obj_ref option" where
  "get_numa_node nodeid s =
     (let number = (if numa_avail s then nodeid else NUMA_NO_NODE)
      in find (\<lambda>d. t_number (objs s d) = number) (numa_nodes s))"

fun connect_cpu_mem_topo :: "nat \<Rightarrow> obj_ref \<Rightarrow> state \<Rightarrow> state" where
  "connect_cpu_mem_topo 0 p s = s"
| "connect_cpu_mem_topo (Suc fuel) p s =
     (let len = length (t_numa_nodes (objs s p))
      in if len = 0 then s
         else if len > 1 then for_each_object (t_children (objs s p)) (connect_cpu_mem_topo fuel) s
         else
           let node = hd (t_numa_nodes (objs s p));
               s = (if t_obj_type (objs s p) = OBJ_TYPE_PACKAGE \<and> t_parent (objs s p) = None
                    then upd_obj p (t_parent_update (\<lambda>_. Some node)) s else s)
           in if p \<in> set (t_children (objs s node)) then s
              else upd_obj node (t_children_update (\<lambda>cs. cs @ [p])) s)"


section \<open>The shape of the topology\<close>

text \<open>The master list of each kind of object.\<close>

fun master :: "obj_type_e \<Rightarrow> state \<Rightarrow> obj_ref list" where
  "master OBJ_TYPE_CPU s = cpus s"
| "master OBJ_TYPE_CACHE s = cache_domains s"
| "master OBJ_TYPE_PACKAGE s = packages s"
| "master OBJ_TYPE_NODE s = numa_nodes s"

definition live :: "obj_ref set \<Rightarrow> state \<Rightarrow> obj_ref set" where
  "live X s = X \<union> (\<Union>t. set (master t s))"

definition blank :: "topo_obj \<Rightarrow> bool" where
  "blank d \<longleftrightarrow> t_children d = [] \<and> t_numa_nodes d = [] \<and> t_parent d = None"

text \<open>
  The objects of a master list have its kind, children are smaller than their parents, and no
  object outside of the lists, and outside of the set \<open>X\<close> of CPUs that are about to be added, is
  part of the tree.
\<close>

definition topo_inv :: "obj_ref set \<Rightarrow> state \<Rightarrow> bool" where
  "topo_inv X s \<longleftrightarrow>
     (\<forall>t. \<forall>d \<in> set (master t s). t_obj_type (objs s d) = t) \<and> (\<forall>d \<in> X. t_obj_type (objs s d) = OBJ_TYPE_CPU) \<and>
     (\<forall>d. d \<in> live X s \<or> blank (objs s d)) \<and> (\<forall>d \<in> live X s. d < next_obj s) \<and>
     (\<forall>d. \<forall>c \<in> set (t_children (objs s d)). c \<in> live X s \<and> t_obj_type (objs s c) < t_obj_type (objs s d)) \<and>
     (\<forall>d. set (t_numa_nodes (objs s d)) \<subseteq> set (numa_nodes s)) \<and>
     (\<forall>d p. t_parent (objs s d) = Some p \<longrightarrow> d \<in> set (t_children (objs s p)))"

lemma topo_invD:
  assumes "topo_inv X s"
  shows "d \<in> set (master t s) \<Longrightarrow> t_obj_type (objs s d) = t" and "d \<in> X \<Longrightarrow> t_obj_type (objs s d) = OBJ_TYPE_CPU"
    and "d \<in> live X s \<or> blank (objs s d)" and "d \<in> live X s \<Longrightarrow> d < next_obj s"
    and "c \<in> set (t_children (objs s d)) \<Longrightarrow> c \<in> live X s \<and> t_obj_type (objs s c) < t_obj_type (objs s d)"
    and "n \<in> set (t_numa_nodes (objs s d)) \<Longrightarrow> n \<in> set (numa_nodes s)"
    and "t_parent (objs s d) = Some p \<Longrightarrow> d \<in> set (t_children (objs s p))"
  using assms unfolding topo_inv_def by blast+

lemma topo_inv_descends: "topo_inv X s \<Longrightarrow> tree_descends s"
  by (simp add: topo_inv_def tree_descends_def)

lemma master_live: "d \<in> set (master t s) \<Longrightarrow> d \<in> live X s"
  by (auto simp: live_def)

text \<open>Whether the invariant holds depends on the shapes and on the lists only.\<close>

lemma master_cong:
  assumes "numa_nodes s' = numa_nodes s" "packages s' = packages s" "cache_domains s' = cache_domains s" "cpus s' = cpus s"
  shows "master t s' = master t s" "live X s' = live X s"
proof -
  show *: "master t s' = master t s" for t using assms by (cases t) simp_all
  show "live X s' = live X s" by (simp add: live_def *)
qed

lemma topo_inv_shape:
  assumes shp: "\<And>d. shape (objs s' d) = shape (objs s d)" and nxt: "next_obj s' = next_obj s"
    and lists: "numa_nodes s' = numa_nodes s" "packages s' = packages s" "cache_domains s' = cache_domains s" "cpus s' = cpus s"
  shows "topo_inv X s' = topo_inv X s"
proof -
  have "t_obj_type (objs s' d) = t_obj_type (objs s d)" "t_children (objs s' d) = t_children (objs s d)"
    "t_numa_nodes (objs s' d) = t_numa_nodes (objs s d)" "t_parent (objs s' d) = t_parent (objs s d)" for d
    using shp [of d] by (simp_all add: shape_def)
  with master_cong [OF lists] nxt lists(1) show ?thesis by (simp add: topo_inv_def blank_def)
qed

lemma topo_inv_same_frame: "same_frame s s' \<Longrightarrow> topo_inv X s' = topo_inv X s"
  by (rule topo_inv_shape) (simp_all add: same_frame_def)

text \<open>Changes of the globals other than the lists, and of the fields of an object other than its shape.\<close>

lemma topo_inv_cong:
  assumes "objs s' = objs s" "next_obj s' = next_obj s" "numa_nodes s' = numa_nodes s" "packages s' = packages s"
    "cache_domains s' = cache_domains s" "cpus s' = cpus s"
  shows "topo_inv X s' = topo_inv X s"
  using master_cong [OF assms(3-6)] assms(1-3) by (simp add: topo_inv_def)

definition keeps_links :: "(topo_obj \<Rightarrow> topo_obj) \<Rightarrow> bool" where
  "keeps_links f \<longleftrightarrow> (\<forall>d. t_obj_type (f d) = t_obj_type d \<and> t_children (f d) = t_children d \<and>
     t_numa_nodes (f d) = t_numa_nodes d \<and> t_parent (f d) = t_parent d)"

lemma topo_inv_upd_obj:
  assumes "keeps_links f"
  shows "topo_inv X (upd_obj d f s) = topo_inv X s"
proof -
  have f: "t_obj_type (f x) = t_obj_type x" "t_children (f x) = t_children x" "t_numa_nodes (f x) = t_numa_nodes x"
    "t_parent (f x) = t_parent x" for x
    using assms by (simp_all add: keeps_links_def)
  have shp: "t_obj_type (objs (upd_obj d f s) e) = t_obj_type (objs s e)"
    "t_children (objs (upd_obj d f s) e) = t_children (objs s e)"
    "t_numa_nodes (objs (upd_obj d f s) e) = t_numa_nodes (objs s e)" "t_parent (objs (upd_obj d f s) e) = t_parent (objs s e)" for e
    by (auto simp: f)
  have "master t (upd_obj d f s) = master t s" "live X (upd_obj d f s) = live X s" for t
    by (rule master_cong; simp)+
  then show ?thesis unfolding topo_inv_def blank_def shp by simp
qed

text \<open>
  A new object without links: it stays unused, is put on the list of its kind, or is a CPU about
  to be added.
\<close>

lemma topo_inv_new:
  assumes inv: "topo_inv X s" and ob: "objs s' = (objs s)(next_obj s := x)" "next_obj s' = next_obj s + 1"
    and x: "blank x" "t_obj_type x = k"
    and live': "live X s \<subseteq> live X' s'" "live X' s' \<subseteq> insert (next_obj s) (live X s)"
    and lists: "\<And>t. set (master t s') \<subseteq> set (master t s) \<union> (if t = k then {next_obj s} else {})"
    and X': "X' \<subseteq> X \<union> (if k = OBJ_TYPE_CPU then {next_obj s} else {})"
    and nodes: "set (numa_nodes s) \<subseteq> set (numa_nodes s')"
  shows "topo_inv X' s'"
proof -
  let ?d = "next_obj s"
  have notin: "?d \<notin> live X s" using topo_invD(4) [OF inv] by blast
  have child: "c \<in> live X' s' \<and> t_obj_type (objs s' c) < t_obj_type (objs s' d)" if "c \<in> set (t_children (objs s' d))" for c d
  proof -
    from that x(1) have d: "d \<noteq> ?d" "c \<in> set (t_children (objs s d))" by (auto simp: ob blank_def split: if_splits)
    from topo_invD(5) [OF inv d(2)] notin have "c \<noteq> ?d" by auto
    with topo_invD(5) [OF inv d(2)] d(1) live' show ?thesis by (auto simp: ob)
  qed
  have typed: "t_obj_type (objs s' d) = t" if "d \<in> set (master t s')" for t d
  proof (cases "d = ?d")
    case True
    with that x(2) notin master_live [of d t s X] lists [of t] show ?thesis by (auto simp: ob split: if_splits)
  next
    case False
    with that topo_invD(1) [OF inv, of d t] lists [of t] show ?thesis by (auto simp: ob split: if_splits)
  qed
  have pending: "t_obj_type (objs s' d) = OBJ_TYPE_CPU" if "d \<in> X'" for d
    using that X' x(2) topo_invD(2) [OF inv, of d] notin by (auto simp: ob live_def split: if_splits)
  have dead: "d \<in> live X' s' \<or> blank (objs s' d)" for d using topo_invD(3) [OF inv, of d] x(1) live' by (auto simp: ob)
  have below: "d < next_obj s'" if "d \<in> live X' s'" for d
    using that topo_invD(4) [OF inv, of d] live' by (auto simp: ob less_Suc_eq)
  have numa: "n \<in> set (numa_nodes s')" if "n \<in> set (t_numa_nodes (objs s' d))" for n d
    using that topo_invD(6) [OF inv, of n d] nodes x(1) by (auto simp: ob blank_def split: if_splits)
  have par: "d \<in> set (t_children (objs s' p))" if "t_parent (objs s' d) = Some p" for d p
  proof -
    from that x(1) have "t_parent (objs s d) = Some p" by (auto simp: ob blank_def split: if_splits)
    from topo_invD(7) [OF inv this] topo_invD(3) [OF inv, of ?d] notin show ?thesis by (auto simp: ob blank_def)
  qed
  show ?thesis unfolding topo_inv_def using typed pending dead below child numa par by blast
qed

lemma topo_inv_new_master:
  assumes inv: "topo_inv X s" and ob: "objs s' = (objs s)(next_obj s := x)" "next_obj s' = next_obj s + 1"
    and x: "blank x" "t_obj_type x = k"
    and lists: "\<And>t. master t s' = (if t = k then master t s @ [next_obj s] else master t s)"
  shows "topo_inv X s'"
proof (rule topo_inv_new [OF inv ob x])
  show "live X s \<subseteq> live X s'" "live X s' \<subseteq> insert (next_obj s) (live X s)"
    by (auto simp: live_def lists split: if_splits)
  show "set (numa_nodes s) \<subseteq> set (numa_nodes s')" using lists [of OBJ_TYPE_NODE] by (auto split: if_splits)
qed (simp_all add: lists)


text \<open>Adding a link.\<close>

lemma topo_inv_link:
  assumes inv: "topo_inv X s" and d: "d \<in> live X s"
    and c: "set (t_children (f (objs s d))) \<subseteq> set (t_children (objs s d)) \<union> {c \<in> live X s. t_obj_type (objs s c) < t_obj_type (objs s d)}"
    and n: "set (t_numa_nodes (f (objs s d))) \<subseteq> set (t_numa_nodes (objs s d)) \<union> set (numa_nodes s)"
    and t: "t_obj_type (f (objs s d)) = t_obj_type (objs s d)" "set (t_children (objs s d)) \<subseteq> set (t_children (f (objs s d)))"
    and p: "t_parent (f (objs s d)) = t_parent (objs s d) \<or> (\<exists>p. t_parent (f (objs s d)) = Some p \<and> d \<in> set (t_children (objs s p)))"
  shows "topo_inv X (upd_obj d f s)"
proof -
  have m: "master t (upd_obj d f s) = master t s" "live X (upd_obj d f s) = live X s" for t
    by (rule master_cong; simp)+
  have ty: "t_obj_type (objs (upd_obj d f s) e) = t_obj_type (objs s e)" for e using t by simp
  have dead: "e \<in> live X s \<or> blank (objs (upd_obj d f s) e)" for e
    using topo_invD(3) [OF inv, of e] d by auto
  have ch: "c \<in> live X s \<and> t_obj_type (objs s c) < t_obj_type (objs s e)"
    if "c \<in> set (t_children (objs (upd_obj d f s) e))" for c e
  proof (cases "e = d")
    case True
    with that have "c \<in> set (t_children (f (objs s d)))" by simp
    with c True topo_invD(5) [OF inv, of c d] show ?thesis by blast
  next
    case False
    with that topo_invD(5) [OF inv, of c e] show ?thesis by simp
  qed
  have numa: "x \<in> set (numa_nodes s)" if "x \<in> set (t_numa_nodes (objs (upd_obj d f s) e))" for x e
    using that n topo_invD(6) [OF inv, of x e] by (auto split: if_splits)
  have par: "e \<in> set (t_children (objs (upd_obj d f s) q))" if "t_parent (objs (upd_obj d f s) e) = Some q" for e q
  proof -
    from that p topo_invD(7) [OF inv, of e q] have "e \<in> set (t_children (objs s q))" by (auto split: if_splits)
    with t(2) show ?thesis by auto
  qed
  have "(\<forall>t. \<forall>d \<in> set (master t s). t_obj_type (objs s d) = t) \<and> (\<forall>d \<in> X. t_obj_type (objs s d) = OBJ_TYPE_CPU)
      \<and> (\<forall>d \<in> live X s. d < next_obj s)" using inv by (simp add: topo_inv_def)
  with dead ch numa par show ?thesis unfolding topo_inv_def m ty by (auto simp del: upd_obj_sel(1))
qed

lemma calloc_obj_Some:
  assumes "calloc_obj s = (Some d, s')"
  obtains fs where "d = next_obj s" "s' = s\<lparr> mem_fails := fs, objs := (objs s)(d := zero_obj), next_obj := d + 1 \<rparr>"
  using assms by (auto simp: calloc_obj_def mem_next_def Let_def split: if_splits)

lemma calloc_obj_None:
  assumes "calloc_obj s = (None, s')"
  obtains fs where "s' = s\<lparr> mem_fails := fs \<rparr>"
  using assms by (auto simp: calloc_obj_def mem_next_def Let_def split: if_splits)

lemma blank_zero [simp]: "blank zero_obj"
  by (simp add: blank_def zero_obj_def)

text \<open>A failed allocation changes nothing but asks for a rebuild.\<close>

lemma topo_inv_flags [simp]:
  "topo_inv X (s\<lparr> mem_fails := fs \<rparr>) = topo_inv X s" "topo_inv X (s\<lparr> need_rebuild := b \<rparr>) = topo_inv X s"
  "topo_inv X (s\<lparr> need_rescan := b \<rparr>) = topo_inv X s"
  by (rule topo_inv_cong; simp)+

lemma topo_inv_add_one_node:
  assumes "topo_inv X s"
  shows "topo_inv X (add_one_node sys nodeid s)"
proof (cases "calloc_obj s")
  case (Pair r s1)
  show ?thesis
  proof (cases r)
    case None
    with Pair have "calloc_obj s = (None, s1)" by simp
    then obtain fs where "s1 = s\<lparr> mem_fails := fs \<rparr>" by (rule calloc_obj_None)
    with Pair None assms show ?thesis by (simp add: add_one_node_def)
  next
    case (Some d)
    with Pair have "calloc_obj s = (Some d, s1)" by simp
    then obtain fs where s1: "d = next_obj s" "s1 = s\<lparr> mem_fails := fs, objs := (objs s)(d := zero_obj), next_obj := d + 1 \<rparr>"
      by (rule calloc_obj_Some)
    let ?x = "objs (add_one_node sys nodeid s) d"
    show ?thesis
    proof (rule topo_inv_new_master [OF assms])
      show "objs (add_one_node sys nodeid s) = (objs s)(next_obj s := ?x)"
        using Pair Some s1 by (simp add: add_one_node_def Let_def)
      show "next_obj (add_one_node sys nodeid s) = next_obj s + 1"
        using Pair Some s1 by (simp add: add_one_node_def Let_def)
      show "blank ?x" using Pair Some s1 by (simp add: add_one_node_def Let_def blank_def zero_obj_def)
      show "t_obj_type ?x = OBJ_TYPE_NODE" using Pair Some s1 by (simp add: add_one_node_def Let_def)
      show "master t (add_one_node sys nodeid s) = (if t = OBJ_TYPE_NODE then master t s @ [next_obj s] else master t s)" for t
        using Pair Some s1 by (cases t) (simp_all add: add_one_node_def Let_def)
    qed
  qed
qed

lemma topo_inv_build_numa: "topo_inv X s \<Longrightarrow> topo_inv X (build_numa_node_list sys s)"
proof -
  assume "topo_inv X s"
  then have 1: "topo_inv X (add_one_node sys NUMA_NO_NODE s)" by (rule topo_inv_add_one_node)
  have "topo_inv X (fold (\<lambda>e s. if is_node_dir e then add_one_node sys (int_strtoul 10 (drop 4 (d_name e))) s else s) es
      (add_one_node sys NUMA_NO_NODE s))" for es
    by (rule fold_invariant_on [where I = "topo_inv X"]) (simp_all add: 1 topo_inv_add_one_node)
  with 1 show ?thesis by (simp add: build_numa_node_list_def Let_def split: option.split)
qed

text \<open>The unspecified node is there unless memory ran out, so a node is found for every interrupt.\<close>

definition no_node_known :: "state \<Rightarrow> bool" where
  "no_node_known s \<longleftrightarrow> (\<exists>d \<in> set (numa_nodes s). t_number (objs s d) = NUMA_NO_NODE)"

lemma get_numa_node_SomeD: "get_numa_node nodeid s = Some d \<Longrightarrow> d \<in> set (numa_nodes s)"
  by (auto simp: get_numa_node_def Let_def dest: find_SomeD)

lemma get_no_node: "no_node_known s \<Longrightarrow> \<exists>d. get_numa_node NUMA_NO_NODE s = Some d"
  unfolding no_node_known_def get_numa_node_def Let_def
  by (cases "find (\<lambda>d. t_number (objs s d) = NUMA_NO_NODE) (numa_nodes s)") (auto simp: find_None_iff)

definition same_kinds :: "state \<Rightarrow> state \<Rightarrow> bool" where
  "same_kinds s s' \<longleftrightarrow> (\<forall>t. master t s' = master t s) \<and> banned_cpus s' = banned_cpus s \<and> unbanned_cpus s' = unbanned_cpus s \<and>
     (\<forall>d. t_obj_type (objs s' d) = t_obj_type (objs s d) \<and> t_mask (objs s' d) = t_mask (objs s d) \<and>
          t_number (objs s' d) = t_number (objs s d))"

lemma same_kinds_refl [simp]: "same_kinds s s"
  by (simp add: same_kinds_def)

lemma same_kinds_trans: "same_kinds s s' \<Longrightarrow> same_kinds s' s'' \<Longrightarrow> same_kinds s s''"
  by (simp add: same_kinds_def)

lemma same_kinds_upd_obj:
  assumes "t_obj_type (f (objs s d)) = t_obj_type (objs s d)" "t_mask (f (objs s d)) = t_mask (objs s d)"
    "t_number (f (objs s d)) = t_number (objs s d)"
  shows "same_kinds s (upd_obj d f s)"
  unfolding same_kinds_def using assms by (auto intro!: master_cong)

lemma same_kinds_live: "same_kinds s s' \<Longrightarrow> live X s' = live X s"
  by (simp add: same_kinds_def live_def)

text \<open>A child is hung below an object of a larger kind.\<close>

lemma topo_inv_child:
  assumes "topo_inv X s" "d \<in> live X s" "c \<in> live X s" "t_obj_type (objs s c) < t_obj_type (objs s d)"
  shows "topo_inv X (upd_obj d (t_children_update (\<lambda>cs. cs @ [c])) s)"
  by (rule topo_inv_link) (use assms in auto)

lemma topo_inv_parent:
  assumes "topo_inv X s" "d \<in> live X s" "d \<in> set (t_children (objs s p))"
  shows "topo_inv X (upd_obj d (t_parent_update (\<lambda>_. Some p)) s)"
  by (rule topo_inv_link) (use assms in auto)

lemma hang_topo:
  assumes "topo_inv X s" "p \<in> live X s" "c \<in> live X s" "t_obj_type (objs s c) < t_obj_type (objs s p)"
  shows "topo_inv X (upd_obj c (t_parent_update (\<lambda>_. Some p)) (upd_obj p (t_children_update (\<lambda>cs. cs @ [c])) s))"
    and "same_kinds s (upd_obj c (t_parent_update (\<lambda>_. Some p)) (upd_obj p (t_children_update (\<lambda>cs. cs @ [c])) s))"
proof -
  let ?t = "upd_obj p (t_children_update (\<lambda>cs. cs @ [c])) s"
  have k: "same_kinds s ?t" "same_kinds ?t (upd_obj c (t_parent_update (\<lambda>_. Some p)) ?t)" by (rule same_kinds_upd_obj; simp)+
  from topo_inv_parent [OF topo_inv_child [OF assms], of c p] assms(3) same_kinds_live [OF k(1)]
  show "topo_inv X (upd_obj c (t_parent_update (\<lambda>_. Some p)) ?t)" by simp
  from k show "same_kinds s (upd_obj c (t_parent_update (\<lambda>_. Some p)) ?t)" by (rule same_kinds_trans)
qed

lemma parent_children_commute:
  "upd_obj a (t_children_update f) (upd_obj b (t_parent_update g) s) = upd_obj b (t_parent_update g) (upd_obj a (t_children_update f) s)"
  by (cases "objs s a") (auto simp: upd_obj_def fun_eq_iff)

text \<open>The end of \<open>connect_cpu_mem_topo\<close>: an object becomes a child of its only node.\<close>

definition join_node :: "obj_ref \<Rightarrow> obj_ref \<Rightarrow> state \<Rightarrow> state" where
  "join_node node p s =
     (let s = (if t_obj_type (objs s p) = OBJ_TYPE_PACKAGE \<and> t_parent (objs s p) = None
               then upd_obj p (t_parent_update (\<lambda>_. Some node)) s else s)
      in if p \<in> set (t_children (objs s node)) then s else upd_obj node (t_children_update (\<lambda>cs. cs @ [p])) s)"

lemma join_node_topo:
  assumes inv: "topo_inv X s" and p: "p \<in> live X s" "t_obj_type (objs s p) < OBJ_TYPE_NODE" and n: "node \<in> set (numa_nodes s)"
  shows "topo_inv X (join_node node p s) \<and> same_kinds s (join_node node p s)"
proof -
  have node: "node \<in> live X s" "t_obj_type (objs s node) = OBJ_TYPE_NODE"
    using n master_live [of node OBJ_TYPE_NODE s X] topo_invD(1) [OF inv, of node OBJ_TYPE_NODE] by simp_all
  let ?t = "upd_obj node (t_children_update (\<lambda>cs. cs @ [p])) s" and ?f = "t_parent_update (\<lambda>_. Some node)"
  have t: "topo_inv X ?t" by (rule topo_inv_child [OF inv node(1) p(1)]) (use node p in simp)
  have kt: "same_kinds s ?t" by (rule same_kinds_upd_obj) simp_all
  have tp: "topo_inv X (upd_obj p ?f ?t)" "same_kinds s (upd_obj p ?f ?t)"
    using hang_topo [OF inv node(1) p(1)] node p by simp_all
  have k: "same_kinds s (upd_obj p ?f s)" by (rule same_kinds_upd_obj) simp_all
  have sp: "topo_inv X (upd_obj p ?f s)" if "p \<in> set (t_children (objs s node))" using topo_inv_parent [OF inv p(1) that] .
  have "join_node node p s \<in> {s, ?t, upd_obj p ?f ?t} \<or> join_node node p s = upd_obj p ?f s \<and> p \<in> set (t_children (objs s node))"
    by (auto simp: join_node_def Let_def parent_children_commute)
  then show ?thesis using inv t tp sp kt k same_kinds_refl by auto
qed

lemma connect_topo:
  assumes "topo_inv X s" "p \<in> live X s" "t_obj_type (objs s p) < OBJ_TYPE_NODE"
  shows "topo_inv X (connect_cpu_mem_topo n p s) \<and> same_kinds s (connect_cpu_mem_topo n p s)"
  using assms
proof (induction n arbitrary: p s)
  case (Suc n)
  let ?cs = "t_children (objs s p)"
  have "topo_inv X (fold (connect_cpu_mem_topo n) ?cs s) \<and> same_kinds s (fold (connect_cpu_mem_topo n) ?cs s)"
  proof (rule fold_invariant_on [where I = "\<lambda>s'. topo_inv X s' \<and> same_kinds s s'"])
    fix c s' assume c: "c \<in> set ?cs" and s': "topo_inv X s' \<and> same_kinds s s'"
    have "c \<in> live X s" "t_obj_type (objs s c) < OBJ_TYPE_NODE"
      using topo_invD(5) [OF Suc.prems(1) c] Suc.prems(3) by auto
    with s' have "c \<in> live X s'" "t_obj_type (objs s' c) < OBJ_TYPE_NODE"
      using same_kinds_live [of s s' X] by (auto simp: same_kinds_def)
    with Suc.IH [of s' c] s' show "topo_inv X (connect_cpu_mem_topo n c s') \<and> same_kinds s (connect_cpu_mem_topo n c s')"
      by (auto intro: same_kinds_trans)
  qed (simp add: Suc.prems)
  moreover have "topo_inv X (join_node (hd (t_numa_nodes (objs s p))) p s) \<and> same_kinds s (join_node (hd (t_numa_nodes (objs s p))) p s)"
    if "t_numa_nodes (objs s p) \<noteq> []"
    by (rule join_node_topo [OF Suc.prems]) (use topo_invD(6) [OF Suc.prems(1), of "hd (t_numa_nodes (objs s p))" p] that in simp)
  ultimately show ?case using Suc.prems
    unfolding connect_cpu_mem_topo.simps Let_def for_each_object_def join_node_def by auto
qed simp

lemma same_kinds_lists:
  assumes "same_kinds s s'"
  shows "numa_nodes s' = numa_nodes s" "packages s' = packages s" "cache_domains s' = cache_domains s" "cpus s' = cpus s"
    "t_obj_type (objs s' d) = t_obj_type (objs s d)" "t_mask (objs s' d) = t_mask (objs s d)"
    "t_number (objs s' d) = t_number (objs s d)" "banned_cpus s' = banned_cpus s" "unbanned_cpus s' = unbanned_cpus s"
  using assms master.simps unfolding same_kinds_def by metis+

end
