(* ===== verification/Cputree.thy ===== *)
theory Cputree
  imports Numa
begin

text \<open>
  The tree of packages, cache domains and CPUs that \<open>cputree.c\<close> reads from sysfs. Accesses to a
  mask with a CPU number outside of it are undefined in C and yield None.
\<close>

section \<open>Banned CPUs\<close>

definition setup_banned_cpus :: "sys \<Rightarrow> state \<Rightarrow> state" where
  "setup_banned_cpus sys s =
     (let banned =
        (if cpu_ban_string s \<noteq> None \<and> banned_cpumask_from_ui s \<noteq> None
         then snd (cpulist_parse (the (banned_cpumask_from_ui s)) (banned_cpus s))
         else case getenv sys ''IRQBALANCE_BANNED_CPUS'' of
           Some (c # env) \<Rightarrow> snd (cpumask_parse_user (c # env) (banned_cpus s))
         | _ \<Rightarrow>
             case getenv sys ''IRQBALANCE_BANNED_CPULIST'' of
               Some env \<Rightarrow> snd (cpulist_parse env (banned_cpus s))
             | None \<Rightarrow>
                 let isolated_cpus = snd (process_one_line sys ''/sys/devices/system/cpu/isolated''
                                            get_mask_from_cpulist (cpus_clear CPU_MASK_NONE));
                     nohz_full = snd (process_one_line sys ''/sys/devices/system/cpu/nohz_full''
                                        get_mask_from_cpulist (cpus_clear CPU_MASK_NONE))
                 in cpus_or (banned_cpus s) nohz_full isolated_cpus)
      in s\<lparr> banned_cpus := cpus_or banned banned (thermal_banned_cpus s) \<rparr>)"

section \<open>Building the tree\<close>

definition add_numa_node_to_topo_obj :: "obj_ref \<Rightarrow> int \<Rightarrow> state \<Rightarrow> state" where
  "add_numa_node_to_topo_obj obj nodeid s =
     (case get_numa_node nodeid s of
        None \<Rightarrow> s
      | Some node \<Rightarrow>
          if numa_avail s \<and> t_number (objs s node) = NUMA_NO_NODE then s
          else
            let s = (if node \<in> set (t_numa_nodes (objs s obj)) then s
                     else upd_obj obj (t_numa_nodes_update (\<lambda>ns. ns @ [node])) s)
            in if \<not> numa_avail s \<and> t_obj_type (objs s obj) = OBJ_TYPE_PACKAGE \<and>
                  obj \<notin> set (t_children (objs s node))
               then upd_obj obj (t_parent_update (\<lambda>_. Some node))
                      (upd_obj node (t_children_update (\<lambda>cs. cs @ [obj])) s)
               else s)"

text \<open>
  The common end of the next two functions: \<open>g_list_find(parent->children, child)\<close>, the two links
  when it is not found, and the NUMA node of the parent.
\<close>

definition link_child :: "obj_ref \<Rightarrow> obj_ref \<Rightarrow> state \<Rightarrow> state" where
  "link_child parent child s =
     (if child \<in> set (t_children (objs s parent)) then s
      else upd_obj child (t_parent_update (\<lambda>_. Some parent))
             (upd_obj parent (t_children_update (\<lambda>cs. cs @ [child])) s))"

definition adopt :: "obj_ref \<Rightarrow> obj_ref \<Rightarrow> int \<Rightarrow> state \<Rightarrow> state" where
  "adopt parent child nodeid s =
     (let s = link_child parent child s
      in if \<not> numa_avail s \<or> nodeid > NUMA_NO_NODE then add_numa_node_to_topo_obj parent nodeid s else s)"

definition add_cache_domain_to_package :: "obj_ref \<Rightarrow> int \<Rightarrow> cpumask \<Rightarrow> int \<Rightarrow> state \<Rightarrow> obj_ref option \<times> state" where
  "add_cache_domain_to_package cache packageid package_mask nodeid s =
     (let (package, s) =
        (case find (\<lambda>p. cpus_equal package_mask (t_mask (objs s p))) (packages s) of
           Some p \<Rightarrow> (Some p, s)
         | None \<Rightarrow>
             case calloc_obj s of
               (None, s) \<Rightarrow> (None, s\<lparr> need_rebuild := True \<rparr>)
             | (Some p, s) \<Rightarrow>
                 let s = upd_obj p (\<lambda>x. x\<lparr> t_mask := package_mask, t_obj_type := OBJ_TYPE_PACKAGE,
                                           t_obj_type_list := Some Packages, t_number := packageid \<rparr>) s
                 in (Some p, s\<lparr> packages := packages s @ [p] \<rparr>))
      in case package of
           None \<Rightarrow> (None, s)
         | Some p \<Rightarrow> (Some p, adopt p cache nodeid s))"

definition add_cpu_to_cache_domain :: "obj_ref \<Rightarrow> cpumask \<Rightarrow> int \<Rightarrow> state \<Rightarrow> obj_ref option \<times> state" where
  "add_cpu_to_cache_domain cpu cache_mask nodeid s =
     (let (cache, s) =
        (case find (\<lambda>c. cpus_equal cache_mask (t_mask (objs s c))) (cache_domains s) of
           Some c \<Rightarrow> (Some c, s)
         | None \<Rightarrow>
             case calloc_obj s of
               (None, s) \<Rightarrow> (None, s\<lparr> need_rebuild := True \<rparr>)
             | (Some c, s) \<Rightarrow>
                 let s = upd_obj c (\<lambda>x. x\<lparr> t_obj_type := OBJ_TYPE_CACHE, t_mask := cache_mask,
                                           t_number := cache_domain_count s, t_obj_type_list := Some CacheDomains \<rparr>) s
                 in (Some c, s\<lparr> cache_domains := cache_domains s @ [c],
                               cache_domain_count := cache_domain_count s + 1 \<rparr>))
      in case cache of
           None \<Rightarrow> (None, s)
         | Some c \<Rightarrow> (Some c, adopt c cpu nodeid s))"

text \<open>
  The loop for the deepest cache that exists, up to \<open>deepest_cache\<close>. The fuel is the number of
  levels left; the size arguments of \<open>snprintf\<close> are much larger than the paths and are left out.
\<close>

definition cache_path :: "string \<Rightarrow> nat \<Rightarrow> string" where
  "cache_path path i = path @ ''/cache/index'' @ dec_of_nat i @ ''/shared_cpu_map''"

fun max_cache_index :: "sys \<Rightarrow> string \<Rightarrow> nat \<Rightarrow> nat \<Rightarrow> nat \<Rightarrow> nat" where
  "max_cache_index sys path 0 cache_index found = found"
| "max_cache_index sys path (Suc left) cache_index found =
     (if stat sys (cache_path path cache_index) = None then found
      else max_cache_index sys path left (cache_index + 1) cache_index)"

definition read_cache_mask :: "sys \<Rightarrow> string \<Rightarrow> cpumask \<Rightarrow> state \<Rightarrow> cpumask" where
  "read_cache_mask sys path cache_mask s =
     (let i = max_cache_index sys path (unat (deepest_cache s)) 1 0
      in if i > 0 then snd (process_one_line sys (cache_path path i) get_mask_from_bitmap cache_mask) else cache_mask)"

definition node_of_entry :: "dirent \<Rightarrow> int option" where
  "node_of_entry e =
     (if g_str_has_prefix (d_name e) ''node''
      then let (v, end) = strtol 10 (drop 4 (d_name e)); num = int_of_long v
           in if end = [] \<and> num \<ge> 0 then Some num else None
      else None)"

fun first_node :: "dirent list \<Rightarrow> int" where
  "first_node [] = NUMA_NO_NODE"
| "first_node (e # es) = (case node_of_entry e of Some num \<Rightarrow> num | None \<Rightarrow> first_node es)"

definition read_package_mask :: "sys \<Rightarrow> string \<Rightarrow> cpumask \<Rightarrow> int \<Rightarrow> state \<Rightarrow> cpumask" where
  "read_package_mask sys path cpu_mask nodeid s =
     (let (rc, package_mask) = process_one_line sys (path @ ''/topology/core_siblings'') get_mask_from_bitmap CPU_MASK_NONE;
          package_mask = (if rc \<noteq> 0 then cpu_mask else package_mask)
      in if numa_avail s
         then (case get_numa_node nodeid s of
                 None \<Rightarrow> package_mask
               | Some node \<Rightarrow>
                   if cpus_weight package_mask > cpus_weight (t_mask (objs s node))
                   then cpus_and package_mask package_mask (t_mask (objs s node)) else package_mask)
         else package_mask)"

definition attach_cpu :: "sys \<Rightarrow> string \<Rightarrow> obj_ref \<Rightarrow> cpumask \<Rightarrow> state \<Rightarrow> state" where
  "attach_cpu sys path cpu cpu_mask s =
     (let packageid = snd (process_one_line sys (path @ ''/topology/physical_package_id'') get_int 0);
          nodeid = (if numa_avail s
                    then (case dir_entries sys path of None \<Rightarrow> NUMA_NO_NODE | Some es \<Rightarrow> first_node es)
                    else NUMA_NO_NODE);
          package_mask = read_package_mask sys path cpu_mask nodeid s;
          cache_mask = read_cache_mask sys path cpu_mask s;
          cache_mask = cpus_and cache_mask cache_mask (unbanned_cpus s);
          package_mask = cpus_and package_mask package_mask (unbanned_cpus s);
          (cache, s) = add_cpu_to_cache_domain cpu cache_mask nodeid s;
          s = (case cache of
                 None \<Rightarrow> s
               | Some c \<Rightarrow> snd (add_cache_domain_to_package c packageid package_mask nodeid s));
          s = upd_obj cpu (t_obj_type_list_update (\<lambda>_. Some Cpus)) s
      in s\<lparr> cpus := cpus s @ [cpu] \<rparr>)"

definition do_one_cpu :: "sys \<Rightarrow> string \<Rightarrow> state \<Rightarrow> state option" where
  "do_one_cpu sys path s =
     (let online_cpus = snd (process_one_line sys ''/sys/devices/system/cpu/online''
                               get_mask_from_cpulist (cpus_clear CPU_MASK_NONE));
          cpunr = atoi (drop 3 (basename path))
      in do {
        online \<leftarrow> cpu_isset cpunr online_cpus;
        if \<not> online then Some s
        else case calloc_obj s of
          (None, s) \<Rightarrow> Some (s\<lparr> need_rebuild := True \<rparr>)
        | (Some cpu, s) \<Rightarrow>
            do {
              online_map \<leftarrow> cpu_set cpunr (cpu_online_map s);
              cpu_mask \<leftarrow> cpu_set cpunr CPU_MASK_NONE;
              let s = s\<lparr> cpu_online_map := online_map \<rparr>;
              let s = upd_obj cpu (\<lambda>x. x\<lparr> t_obj_type := OBJ_TYPE_CPU, t_number := cpunr, t_mask := cpu_mask \<rparr>) s;
              if cpus_intersects cpu_mask (banned_cpus s) then Some (free_cpu_topo cpu s)
              else Some (attach_cpu sys path cpu cpu_mask s)
            }
      })"

text \<open>\<open>sscanf(name, "cpu%d%c", &num, &pad) == 1 && !strchr(name, ' ')\<close>\<close>

definition is_cpu_dir :: "dirent \<Rightarrow> bool" where
  "is_cpu_dir e \<longleftrightarrow> g_str_has_prefix (d_name e) ''cpu'' \<and>
     (case read_number 10 (drop 3 (d_name e)) of None \<Rightarrow> False | Some (_, _, rest) \<Rightarrow> rest = []) \<and>
     CHR '' '' \<notin> set (d_name e)"

definition parse_cpu_tree :: "sys \<Rightarrow> state \<Rightarrow> state option" where
  "parse_cpu_tree sys s =
     (let s = setup_banned_cpus sys s;
          s = s\<lparr> unbanned_cpus := cpus_complement (unbanned_cpus s) (banned_cpus s) \<rparr>
      in case dir_entries sys ''/sys/devices/system/cpu'' of
           None \<Rightarrow> Some s
         | Some es \<Rightarrow>
             do {
               s \<leftarrow> fold (\<lambda>e os. do { s \<leftarrow> os;
                        if is_cpu_dir e then do_one_cpu sys (''/sys/devices/system/cpu/'' @ d_name e) s else Some s })
                     es (Some s);
               Some (for_each_object (packages s) (connect_cpu_mem_topo TOPO_DEPTH) s)
             })"

section \<open>Clearing\<close>

definition clear_irq_stats :: "irq_ref \<Rightarrow> state \<Rightarrow> state" where
  "clear_irq_stats info s = upd_irq info (i_load_update (\<lambda>_. 0)) s"

fun clear_obj_stats :: "nat \<Rightarrow> obj_ref \<Rightarrow> state \<Rightarrow> state" where
  "clear_obj_stats 0 d s = s"
| "clear_obj_stats (Suc fuel) d s =
     (let s = for_each_object (t_children (objs s d)) (clear_obj_stats fuel) s
      in for_each_irq (interrupts_db s) (t_interrupts (objs s d)) clear_irq_stats s)"

definition clear_work_stats :: "state \<Rightarrow> state" where
  "clear_work_stats s = for_each_object (numa_nodes s) (clear_obj_stats TOPO_DEPTH) s"

definition clear_cpu_tree :: "state \<Rightarrow> state" where
  "clear_cpu_tree s =
     (let s = (fold free_cpu_topo (packages s) s)\<lparr> packages := [] \<rparr>;
          s = (fold free_cpu_topo (cache_domains s) s)\<lparr> cache_domains := [], cache_domain_count := 0 \<rparr>;
          s = (fold free_cpu_topo (cpus s) s)\<lparr> cpus := [] \<rparr>
      in s\<lparr> cpu_online_map := cpus_clear (cpu_online_map s) \<rparr>)"

definition find_cpu_core :: "int \<Rightarrow> state \<Rightarrow> obj_ref option" where
  "find_cpu_core cpunr s = find (\<lambda>d. t_number (objs s d) = cpunr) (cpus s)"

definition get_cpu_count :: "state \<Rightarrow> nat" where
  "get_cpu_count s = length (cpus s)"

fun clear_obj_slots :: "nat \<Rightarrow> obj_ref \<Rightarrow> state \<Rightarrow> state" where
  "clear_obj_slots 0 d s = s"
| "clear_obj_slots (Suc fuel) d s =
     for_each_object (t_children (objs s d)) (clear_obj_slots fuel)
       (upd_obj d (t_slots_left_update (\<lambda>_. INT_MAX)) s)"

definition clear_slots :: "state \<Rightarrow> state" where
  "clear_slots s = for_each_object (numa_nodes s) (clear_obj_slots TOPO_DEPTH) s"


section \<open>The tree that is built\<close>

lemma add_numa_node_topo:
  assumes inv: "topo_inv X s" and d: "d \<in> live X s"
  shows "topo_inv X (add_numa_node_to_topo_obj d nodeid s) \<and> same_kinds s (add_numa_node_to_topo_obj d nodeid s)"
proof (cases "get_numa_node nodeid s")
  case (Some node)
  then have "node \<in> set (numa_nodes s)" by (rule get_numa_node_SomeD)
  then have n: "node \<in> live X s" "t_obj_type (objs s node) = OBJ_TYPE_NODE" "node \<in> set (numa_nodes s)"
    using master_live [of node OBJ_TYPE_NODE s X] topo_invD(1) [OF inv, of node OBJ_TYPE_NODE] by simp_all
  let ?s = "if node \<in> set (t_numa_nodes (objs s d)) then s else upd_obj d (t_numa_nodes_update (\<lambda>ns. ns @ [node])) s"
  have s1: "topo_inv X ?s" "same_kinds s ?s"
    using inv n(3) by (auto intro!: topo_inv_link [OF inv d] same_kinds_upd_obj)
  have live1: "live X ?s = live X s" "t_obj_type (objs ?s e) = t_obj_type (objs s e)" for e
    using s1(2) same_kinds_live by (auto simp: same_kinds_def)
  let ?t = "upd_obj node (t_children_update (\<lambda>cs. cs @ [d])) ?s"
  have "topo_inv X (upd_obj d (t_parent_update (\<lambda>_. Some node)) ?t) \<and> same_kinds s (upd_obj d (t_parent_update (\<lambda>_. Some node)) ?t)"
    if "t_obj_type (objs ?s d) = OBJ_TYPE_PACKAGE"
  proof -
    have d1: "node \<in> live X ?s" "d \<in> live X ?s" "t_obj_type (objs ?s d) < t_obj_type (objs ?s node)"
      using that n d live1 by (simp_all add: less_obj_type_e_def)
    from hang_topo [OF s1(1) d1] same_kinds_trans [OF s1(2)] show ?thesis by blast
  qed
  with s1 inv Some show ?thesis
    unfolding add_numa_node_to_topo_obj_def Let_def by (simp del: upd_obj_sel(1))
qed (simp add: add_numa_node_to_topo_obj_def inv)

lemma link_child_topo:
  assumes "topo_inv X s" "p \<in> live X s" "c \<in> live X s" "t_obj_type (objs s c) < t_obj_type (objs s p)"
  shows "topo_inv X (link_child p c s) \<and> same_kinds s (link_child p c s)"
  using hang_topo [OF assms] assms(1) by (simp add: link_child_def)

lemma adopt_topo:
  assumes inv: "topo_inv X s" and live: "p \<in> live X s" "c \<in> live X s" and ty: "t_obj_type (objs s c) < t_obj_type (objs s p)"
  shows "topo_inv X (adopt p c nodeid s) \<and> same_kinds s (adopt p c nodeid s)"
proof -
  have 1: "topo_inv X (link_child p c s)" "same_kinds s (link_child p c s)" using link_child_topo [OF inv live ty] by auto
  have "p \<in> live X (link_child p c s)" using live 1(2) by (simp add: same_kinds_live)
  from add_numa_node_topo [OF 1(1) this, of nodeid] 1 show ?thesis
    unfolding adopt_def Let_def by (auto intro: same_kinds_trans)
qed

text \<open>Objects that were on a list keep their mask, new ones have one of the masks of \<open>M\<close>.\<close>

definition grows :: "obj_ref set \<Rightarrow> cpumask set \<Rightarrow> state \<Rightarrow> state \<Rightarrow> bool" where
  "grows X M s s' \<longleftrightarrow> (\<forall>d \<in> X. t_mask (objs s' d) = t_mask (objs s d)) \<and> banned_cpus s' = banned_cpus s \<and> unbanned_cpus s' = unbanned_cpus s \<and>
     (\<forall>t. \<forall>d \<in> set (master t s'). d \<in> set (master t s) \<and> t_mask (objs s' d) = t_mask (objs s d) \<or> t_mask (objs s' d) \<in> M)"

lemma grows_refl [simp]: "grows X M s s"
  by (simp add: grows_def)

lemma grows_trans: "grows X M s s' \<Longrightarrow> grows X M s' s'' \<Longrightarrow> grows X M s s''"
  unfolding grows_def by metis

lemma grows_mono: "grows X M s s' \<Longrightarrow> M \<subseteq> N \<Longrightarrow> grows X N s s'"
  unfolding grows_def by blast

lemma grows_kinds: "same_kinds s s' \<Longrightarrow> grows X M s s'"
  by (simp add: grows_def same_kinds_def)

lemma grows_calloc_None: "calloc_obj s = (None, s') \<Longrightarrow> grows X M s (s'\<lparr> need_rebuild := True \<rparr>)"
proof -
  assume "calloc_obj s = (None, s')"
  then obtain fs where s': "s' = s\<lparr> mem_fails := fs \<rparr>" by (rule calloc_obj_None)
  have "master t (s'\<lparr> need_rebuild := True \<rparr>) = master t s" for t unfolding s' by (rule master_cong) simp_all
  then show ?thesis by (simp add: grows_def s')
qed

text \<open>Finding or making the cache domain and the package.\<close>

lemma new_master_kinds:
  assumes inv: "topo_inv X s" and al: "calloc_obj s = (Some p, s1)" and f: "blank (f zero_obj)" "t_obj_type (f zero_obj) = k"
    and s': "objs s' = objs (upd_obj p f s1)" "next_obj s' = next_obj s1"
      "banned_cpus s' = banned_cpus s1" "unbanned_cpus s' = unbanned_cpus s1"
    and lists: "\<And>t. master t s' = (if t = k then master t s1 @ [p] else master t s1)"
  shows "topo_inv X s'" "p \<in> set (master k s')" "grows X {t_mask (f zero_obj)} s s'"
    "\<And>d. d \<in> live X s \<Longrightarrow> d \<in> live X s' \<and> t_obj_type (objs s' d) = t_obj_type (objs s d)"
proof -
  obtain fs where s1: "p = next_obj s" "s1 = s\<lparr> mem_fails := fs, objs := (objs s)(p := zero_obj), next_obj := p + 1 \<rparr>"
    using al by (rule calloc_obj_Some)
  have m: "master t s1 = master t s" for t unfolding s1(2) by (rule master_cong) simp_all
  have ob: "objs s' = (objs s)(next_obj s := f zero_obj)" using s'(1) s1 by simp
  show "topo_inv X s'"
    by (rule topo_inv_new_master [OF inv ob _ f]) (use s' s1 lists m in simp_all)
  show "p \<in> set (master k s')" by (simp add: lists)
  have "d \<in> set (master t s) \<and> t_mask (objs s' d) = t_mask (objs s d) \<or> t_mask (objs s' d) = t_mask (f zero_obj)"
    if "d \<in> set (master t s')" for t d
    using that unfolding lists m ob s1(1) by (cases "d = next_obj s") (auto split: if_splits)
  moreover have "t_mask (objs s' d) = t_mask (objs s d)" if "d \<in> X" for d
  proof -
    have "d \<noteq> next_obj s" using topo_invD(4) [OF inv, of d] that by (auto simp: live_def)
    then show ?thesis by (simp add: ob)
  qed
  ultimately show "grows X {t_mask (f zero_obj)} s s'" using s'(3,4) s1(2) by (simp add: grows_def)
  fix d assume d: "d \<in> live X s"
  then have "d \<noteq> next_obj s" using topo_invD(4) [OF inv, of d] by blast
  with d show "d \<in> live X s' \<and> t_obj_type (objs s' d) = t_obj_type (objs s d)"
    by (auto simp: ob live_def lists m)
qed

lemma add_cache_domain_topo:
  assumes inv: "topo_inv X s" and c: "c \<in> live X s" "t_obj_type (objs s c) = OBJ_TYPE_CACHE"
  shows "topo_inv X (snd (add_cache_domain_to_package c packageid m nodeid s)) \<and>
    grows X {m} s (snd (add_cache_domain_to_package c packageid m nodeid s))"
proof (cases "find (\<lambda>p. cpus_equal m (t_mask (objs s p))) (packages s)")
  case (Some p)
  then have "p \<in> set (master OBJ_TYPE_PACKAGE s)" by (auto dest: find_SomeD)
  with adopt_topo [OF inv _ c(1), of p nodeid] c(2) topo_invD(1) [OF inv, of p OBJ_TYPE_PACKAGE] Some show ?thesis
    by (simp add: add_cache_domain_to_package_def Let_def master_live less_obj_type_e_def grows_kinds)
next
  case None
  show ?thesis
  proof (cases "fst (calloc_obj s)")
    case none: None
    obtain s1 where al: "calloc_obj s = (None, s1)" using none by (metis prod.collapse)
    obtain fs where "s1 = s\<lparr> mem_fails := fs \<rparr>" using al by (rule calloc_obj_None)
    with al None inv grows_calloc_None [OF al] show ?thesis by (simp add: add_cache_domain_to_package_def Let_def)
  next
    case (Some p)
    obtain s1 where al: "calloc_obj s = (Some p, s1)" using Some by (metis prod.collapse)
    let ?f = "\<lambda>x. x\<lparr> t_mask := m, t_obj_type := OBJ_TYPE_PACKAGE, t_obj_type_list := Some Packages, t_number := packageid \<rparr>"
    let ?s = "(upd_obj p ?f s1)\<lparr> packages := packages (upd_obj p ?f s1) @ [p] \<rparr>"
    have lists: "master t ?s = (if t = OBJ_TYPE_PACKAGE then master t s1 @ [p] else master t s1)" for t
      by (cases t) simp_all
    have b: "blank (?f zero_obj)" by (simp add: blank_def zero_obj_def)
    note nk = new_master_kinds [where f = ?f and k = OBJ_TYPE_PACKAGE and s' = ?s, OF inv al b _ _ _ _ _ lists]
    have new: "topo_inv X ?s" "p \<in> set (packages ?s)" "c \<in> live X ?s \<and> t_obj_type (objs ?s c) = OBJ_TYPE_CACHE"
      using nk(1,2) nk(4) [OF _ _ _ _ _ c(1)] c(2) by simp_all
    have g: "grows X {m} s ?s" using nk(3) by simp
    from topo_invD(1) [OF new(1), of p OBJ_TYPE_PACKAGE] new(2) have "t_obj_type (objs ?s p) = OBJ_TYPE_PACKAGE" by simp
    with adopt_topo [OF new(1) master_live [of p OBJ_TYPE_PACKAGE] _, of c nodeid] new(2,3)
      grows_trans [OF g grows_kinds [of ?s "adopt p c nodeid ?s"]]
    show ?thesis using None al
      by (simp add: add_cache_domain_to_package_def Let_def less_obj_type_e_def)
  qed
qed

lemma add_cpu_topo:
  assumes inv: "topo_inv X s" and c: "c \<in> live X s" "t_obj_type (objs s c) = OBJ_TYPE_CPU"
  shows "topo_inv X (snd (add_cpu_to_cache_domain c m nodeid s)) \<and> grows X {m} s (snd (add_cpu_to_cache_domain c m nodeid s)) \<and>
    (\<forall>x. fst (add_cpu_to_cache_domain c m nodeid s) = Some x \<longrightarrow> x \<in> set (cache_domains (snd (add_cpu_to_cache_domain c m nodeid s))))"
proof (cases "find (\<lambda>p. cpus_equal m (t_mask (objs s p))) (cache_domains s)")
  case (Some p)
  then have "p \<in> set (master OBJ_TYPE_CACHE s)" by (auto dest: find_SomeD)
  with adopt_topo [OF inv _ c(1), of p nodeid] c(2) topo_invD(1) [OF inv, of p OBJ_TYPE_CACHE] Some
    same_kinds_lists(3) [of s "adopt p c nodeid s"] show ?thesis
    by (simp add: add_cpu_to_cache_domain_def Let_def master_live less_obj_type_e_def grows_kinds)
next
  case None
  show ?thesis
  proof (cases "fst (calloc_obj s)")
    case none: None
    obtain s1 where al: "calloc_obj s = (None, s1)" using none by (metis prod.collapse)
    obtain fs where "s1 = s\<lparr> mem_fails := fs \<rparr>" using al by (rule calloc_obj_None)
    with al None inv grows_calloc_None [OF al] show ?thesis by (simp add: add_cpu_to_cache_domain_def Let_def)
  next
    case (Some p)
    obtain s1 where al: "calloc_obj s = (Some p, s1)" using Some by (metis prod.collapse)
    let ?f = "\<lambda>x. x\<lparr> t_obj_type := OBJ_TYPE_CACHE, t_mask := m, t_number := cache_domain_count s1, t_obj_type_list := Some CacheDomains \<rparr>"
    let ?s = "(upd_obj p ?f s1)\<lparr> cache_domains := cache_domains (upd_obj p ?f s1) @ [p],
      cache_domain_count := cache_domain_count (upd_obj p ?f s1) + 1 \<rparr>"
    have lists: "master t ?s = (if t = OBJ_TYPE_CACHE then master t s1 @ [p] else master t s1)" for t
      by (cases t) simp_all
    have b: "blank (?f zero_obj)" by (simp add: blank_def zero_obj_def)
    note nk = new_master_kinds [where f = ?f and k = OBJ_TYPE_CACHE and s' = ?s, OF inv al b _ _ _ _ _ lists]
    have new: "topo_inv X ?s" "p \<in> set (cache_domains ?s)" "c \<in> live X ?s \<and> t_obj_type (objs ?s c) = OBJ_TYPE_CPU"
      using nk(1,2) nk(4) [OF _ _ _ _ _ c(1)] c(2) by simp_all
    have g: "grows X {m} s ?s" using nk(3) by simp
    from topo_invD(1) [OF new(1), of p OBJ_TYPE_CACHE] new(2) have "t_obj_type (objs ?s p) = OBJ_TYPE_CACHE" by simp
    with adopt_topo [OF new(1) master_live [of p OBJ_TYPE_CACHE] _, of c nodeid] new(2,3)
      grows_trans [OF g grows_kinds [of ?s "adopt p c nodeid ?s"]] same_kinds_lists(3) [of ?s "adopt p c nodeid ?s"]
    show ?thesis using None al
      by (simp add: add_cpu_to_cache_domain_def Let_def less_obj_type_e_def)
  qed
qed

lemma topo_inv_cpu_added: "topo_inv {c} s \<Longrightarrow> topo_inv {} (s\<lparr> cpus := cpus s @ [c] \<rparr>)"
proof -
  assume inv: "topo_inv {c} s"
  let ?s = "s\<lparr> cpus := cpus s @ [c] \<rparr>"
  have m: "set (master t ?s) = set (master t s) \<union> (if t = OBJ_TYPE_CPU then {c} else {})" for t
    by (cases t) simp_all
  have live': "live {} ?s = live {c} s" by (auto simp: live_def m split: if_splits)
  have typed: "t_obj_type (objs s d) = t" if "d \<in> set (master t ?s)" for t d
    using that m [of t] topo_invD(1) [OF inv, of d t] topo_invD(2) [OF inv, of d] by (auto split: if_splits)
  then show ?thesis using inv unfolding topo_inv_def live' by simp
qed

lemma attach_cpu_topo:
  assumes inv: "topo_inv {cpu} s"
  shows "topo_inv {} (attach_cpu sys path cpu cpu_mask s)"
proof -
  have cpu: "cpu \<in> live {cpu} s" "t_obj_type (objs s cpu) = OBJ_TYPE_CPU"
    using topo_invD(2) [OF inv] by (simp_all add: live_def)
  have "topo_inv {cpu} (case fst (add_cpu_to_cache_domain cpu m nodeid s) of
        None \<Rightarrow> snd (add_cpu_to_cache_domain cpu m nodeid s)
      | Some c \<Rightarrow> snd (add_cache_domain_to_package c pid pm nodeid (snd (add_cpu_to_cache_domain cpu m nodeid s))))" for m nodeid pid pm
  proof (cases "fst (add_cpu_to_cache_domain cpu m nodeid s)")
    case None
    with add_cpu_topo [OF inv cpu, of m nodeid] show ?thesis by simp
  next
    case (Some c)
    let ?s = "snd (add_cpu_to_cache_domain cpu m nodeid s)"
    from add_cpu_topo [OF inv cpu, of m nodeid] Some have s1: "topo_inv {cpu} ?s" "c \<in> set (master OBJ_TYPE_CACHE ?s)" by auto
    with Some add_cache_domain_topo [OF s1(1) master_live [OF s1(2)] topo_invD(1) [OF s1(1) s1(2)]] show ?thesis by simp
  qed
  moreover have "topo_inv {} (let s = upd_obj cpu (t_obj_type_list_update (\<lambda>_. Some Cpus)) t in s\<lparr> cpus := cpus s @ [cpu] \<rparr>)"
    if "topo_inv {cpu} t" for t
    using topo_inv_cpu_added [of cpu "upd_obj cpu (t_obj_type_list_update (\<lambda>_. Some Cpus)) t"] that
    by (simp add: topo_inv_upd_obj keeps_links_def)
  ultimately show ?thesis unfolding attach_cpu_def Let_def case_prod_beta by blast
qed


section \<open>Banned CPUs stay outside\<close>

text \<open>No CPU, cache domain or package covers a banned CPU.\<close>

definition avoids_banned :: "state \<Rightarrow> bool" where
  "avoids_banned s \<longleftrightarrow> (\<forall>t d. t \<noteq> OBJ_TYPE_NODE \<longrightarrow> d \<in> set (master t s) \<longrightarrow>
     cpus_of (t_mask (objs s d)) \<inter> cpus_of (banned_cpus s) = {})"

definition tree_inv :: "state \<Rightarrow> bool" where
  "tree_inv s \<longleftrightarrow> topo_inv {} s \<and> avoids_banned s \<and> cpus_of (unbanned_cpus s) \<inter> cpus_of (banned_cpus s) = {}"

lemma tree_inv_kinds: "tree_inv s \<Longrightarrow> topo_inv {} s' \<Longrightarrow> same_kinds s s' \<Longrightarrow> tree_inv s'"
  by (simp add: tree_inv_def avoids_banned_def same_kinds_def)

lemma avoids_grows:
  assumes "avoids_banned s" "grows X M s s'" "\<forall>m \<in> M. cpus_of m \<inter> cpus_of (banned_cpus s) = {}"
  shows "avoids_banned s'"
  using assms unfolding avoids_banned_def grows_def by metis

lemma grows_add_cpu:
  assumes g: "grows X M s s'" and c: "t_mask (objs s' c) \<in> M"
  shows "grows X M s (s'\<lparr> cpus := cpus s' @ [c] \<rparr>)"
proof -
  have m: "set (master t (s'\<lparr> cpus := cpus s' @ [c] \<rparr>)) = set (master t s') \<union> (if t = OBJ_TYPE_CPU then {c} else {})" for t
    by (cases t) simp_all
  have "d \<in> set (master t s) \<and> t_mask (objs s' d) = t_mask (objs s d) \<or> t_mask (objs s' d) \<in> M"
    if "d \<in> set (master t (s'\<lparr> cpus := cpus s' @ [c] \<rparr>))" for t d
  proof -
    from that m [of t] have "d \<in> set (master t s') \<or> d = c" by (auto split: if_splits)
    with g c show ?thesis unfolding grows_def by blast
  qed
  with g show ?thesis by (simp add: grows_def)
qed

text \<open>The masks of the objects that a CPU is attached to.\<close>

lemma attach_cpu_grows:
  assumes inv: "topo_inv {cpu} s" and av: "avoids_banned s" "cpus_of (unbanned_cpus s) \<inter> cpus_of (banned_cpus s) = {}"
    and cm: "t_mask (objs s cpu) = cm" "wf_cpumask cm" "cpus_of cm \<inter> cpus_of (banned_cpus s) = {}"
  shows "avoids_banned (attach_cpu sys path cpu cm s) \<and> banned_cpus (attach_cpu sys path cpu cm s) = banned_cpus s
    \<and> unbanned_cpus (attach_cpu sys path cpu cm s) = unbanned_cpus s"
proof -
  define nodeid where "nodeid = (if numa_avail s then (case dir_entries sys path of None \<Rightarrow> NUMA_NO_NODE | Some es \<Rightarrow> first_node es)
     else NUMA_NO_NODE)"
  define pid where "pid = snd (process_one_line sys (path @ ''/topology/physical_package_id'') get_int 0)"
  define m1 where "m1 = cpus_and (read_cache_mask sys path cm s) (read_cache_mask sys path cm s) (unbanned_cpus s)"
  define m2 where "m2 = cpus_and (read_package_mask sys path cm nodeid s) (read_package_mask sys path cm nodeid s) (unbanned_cpus s)"
  have wf: "wf_cpumask (read_cache_mask sys path cm s)" "wf_cpumask (read_package_mask sys path cm nodeid s)"
    using cm(2) wf_read_mask(1) [OF wf_NONE(1), of sys "path @ ''/topology/core_siblings''"]
    by (auto simp: read_cache_mask_def read_package_mask_def Let_def mask.and_op(2) case_prod_beta split: option.split)
  have M: "\<forall>m \<in> {m1, m2, cm}. cpus_of m \<inter> cpus_of (banned_cpus s) = {}"
    using av(2) cm(3) wf by (auto simp: m1_def m2_def mask.and_op(1))
  have cpu: "cpu \<in> live {cpu} s" "t_obj_type (objs s cpu) = OBJ_TYPE_CPU"
    using topo_invD(2) [OF inv] by (simp_all add: live_def)
  let ?r1 = "add_cpu_to_cache_domain cpu m1 nodeid s"
  let ?s2 = "case fst ?r1 of None \<Rightarrow> snd ?r1 | Some c \<Rightarrow> snd (add_cache_domain_to_package c pid m2 nodeid (snd ?r1))"
  let ?s3 = "upd_obj cpu (t_obj_type_list_update (\<lambda>_. Some Cpus)) ?s2"
  have s1: "topo_inv {cpu} (snd ?r1)" "grows {cpu} {m1, m2, cm} s (snd ?r1)"
    and c: "\<And>c. fst ?r1 = Some c \<Longrightarrow> c \<in> set (master OBJ_TYPE_CACHE (snd ?r1))"
    using add_cpu_topo [OF inv cpu, of m1 nodeid] grows_mono [of "{cpu}" "{m1}" s "snd ?r1" "{m1, m2, cm}"] by auto
  have "grows {cpu} {m1, m2, cm} s ?s2"
  proof (cases "fst ?r1")
    case (Some c)
    from add_cache_domain_topo [OF s1(1) master_live [OF c [OF Some]] topo_invD(1) [OF s1(1) c [OF Some]], of pid m2 nodeid]
    have "grows {cpu} {m1, m2, cm} (snd ?r1) ?s2" using Some by (auto elim: grows_mono)
    with s1(2) show ?thesis by (rule grows_trans)
  qed (simp add: s1)
  then have s3: "grows {cpu} {m1, m2, cm} s ?s3" by (rule grows_trans [OF _ grows_kinds [OF same_kinds_upd_obj]]) simp_all
  have eq: "attach_cpu sys path cpu cm s = ?s3\<lparr> cpus := cpus ?s3 @ [cpu] \<rparr>"
    unfolding attach_cpu_def Let_def case_prod_beta m1_def m2_def nodeid_def pid_def by simp
  have "t_mask (objs ?s3 cpu) = cm" using s3 cm(1) by (simp add: grows_def)
  with grows_add_cpu [OF s3] have "grows {cpu} {m1, m2, cm} s (?s3\<lparr> cpus := cpus ?s3 @ [cpu] \<rparr>)" by simp
  with avoids_grows [OF av(1) _ M] show ?thesis unfolding eq grows_def by blast
qed
lemma do_one_cpu_cases:
  assumes run: "do_one_cpu sys path s = Some s'"
  obtains (skip) "s' = s"
  | (nomem) s1 where "calloc_obj s = (None, s1)" "s' = s1\<lparr> need_rebuild := True \<rparr>"
  | (new) cpu s1 om cm s2 where "calloc_obj s = (Some cpu, s1)" "cpu_set (atoi (drop 3 (basename path))) CPU_MASK_NONE = Some cm"
      "s2 = upd_obj cpu (\<lambda>x. x\<lparr> t_obj_type := OBJ_TYPE_CPU, t_number := atoi (drop 3 (basename path)), t_mask := cm \<rparr>)
              (s1\<lparr> cpu_online_map := om \<rparr>)"
      "s' = (if cpus_intersects cm (banned_cpus s1) then free_cpu_topo cpu s2 else attach_cpu sys path cpu cm s2)"
proof -
  let ?nr = "atoi (drop 3 (basename path))"
  let ?on = "snd (process_one_line sys ''/sys/devices/system/cpu/online'' get_mask_from_cpulist (cpus_clear CPU_MASK_NONE))"
  obtain r s1 where al: "calloc_obj s = (r, s1)" by fastforce
  show ?thesis
  proof (cases "cpu_isset ?nr ?on = Some True")
    case False
    with run have "s' = s" by (auto simp: do_one_cpu_def Let_def bind_eq_Some_conv split: if_splits)
    then show ?thesis by (rule skip)
  next
    case True
    note run' = run [unfolded do_one_cpu_def Let_def True bind.bind_lunit al prod.case]
    show ?thesis
    proof (cases r)
      case None
      with run' al show ?thesis by (intro nomem) auto
    next
      case (Some cpu)
      obtain om where om: "cpu_set ?nr (cpu_online_map s1) = Some om" using run' Some by (cases "cpu_set ?nr (cpu_online_map s1)") simp_all
      obtain cm where cm: "cpu_set ?nr CPU_MASK_NONE = Some cm" using run' Some om by (cases "cpu_set ?nr CPU_MASK_NONE") simp_all
      show ?thesis by (rule new [OF _ cm refl, of cpu s1 om]) (use run' Some om cm al in \<open>simp_all split: if_splits\<close>)
    qed
  qed
qed

lemma do_one_cpu_inv:
  assumes tree: "tree_inv s" and run: "do_one_cpu sys path s = Some s'"
  shows "tree_inv s'"
proof -
  have inv: "topo_inv {} s" and av: "avoids_banned s" "cpus_of (unbanned_cpus s) \<inter> cpus_of (banned_cpus s) = {}"
    using tree by (simp_all add: tree_inv_def)
  let ?nr = "atoi (drop 3 (basename path))"
  show ?thesis
  proof (cases rule: do_one_cpu_cases [OF run])
    case 1
    with tree show ?thesis by simp
  next
    case (2 s1)
    obtain fs where "s1 = s\<lparr> mem_fails := fs \<rparr>" using 2(1) by (rule calloc_obj_None)
    with 2 have s': "s' = s\<lparr> mem_fails := fs, need_rebuild := True \<rparr>" by simp
    have "master t s' = master t s" for t unfolding s' by (rule master_cong) simp_all
    then have "same_kinds s s'" by (simp add: same_kinds_def s')
    with tree_inv_kinds [OF tree, of s'] inv show ?thesis by (simp add: s')
  next
    case (3 cpu s1 om cm s2)
    obtain fs where s1: "cpu = next_obj s" "s1 = s\<lparr> mem_fails := fs, objs := (objs s)(cpu := zero_obj), next_obj := cpu + 1 \<rparr>"
      using 3(1) by (rule calloc_obj_Some)
    let ?s2 = "upd_obj cpu (\<lambda>x. x\<lparr> t_obj_type := OBJ_TYPE_CPU, t_number := ?nr, t_mask := cm \<rparr>) (s1\<lparr> cpu_online_map := om \<rparr>)"
    have m: "master t ?s2 = master t s" "master t (free_cpu_topo cpu ?s2) = master t s" for t
      unfolding s1(2) free_cpu_topo_def by (rule master_cong; simp)+
    have live': "live {cpu} ?s2 = insert cpu (live {} s)" "live {} (free_cpu_topo cpu ?s2) = live {} s"
      by (auto simp: live_def m)
    have lists: "numa_nodes ?s2 = numa_nodes s" "numa_nodes (free_cpu_topo cpu ?s2) = numa_nodes s"
      using m [of OBJ_TYPE_NODE] by simp_all
    have ob: "objs ?s2 = (objs s)(next_obj s := objs ?s2 cpu)" "next_obj ?s2 = next_obj s + 1"
      "blank (objs ?s2 cpu)" "t_obj_type (objs ?s2 cpu) = OBJ_TYPE_CPU"
      using s1 by (simp_all add: blank_def zero_obj_def)
    have ob': "objs (free_cpu_topo cpu ?s2) = (objs s)(next_obj s := zero_obj)"
      "next_obj (free_cpu_topo cpu ?s2) = next_obj s + 1" "t_obj_type zero_obj = OBJ_TYPE_CPU"
      using s1 by (simp_all add: free_cpu_topo_def zero_obj_def)
    have inv2: "topo_inv {cpu} ?s2"
      by (rule topo_inv_new [OF inv ob]) (unfold live' lists m, auto simp: s1(1))
    have inv3: "topo_inv {} (free_cpu_topo cpu ?s2)"
      by (rule topo_inv_new [OF inv ob'(1,2) blank_zero ob'(3)]) (unfold live' lists m, auto)
    have out: "d \<noteq> next_obj s" if "d \<in> set (master t s)" for t d
      using topo_invD(4) [OF inv, of d] master_live [OF that] by blast
    have avd: "avoids_banned ?s2" "avoids_banned (free_cpu_topo cpu ?s2)"
      using av(1) out unfolding avoids_banned_def m by (simp_all add: s1 free_cpu_topo_def)
    have wf: "wf_cpumask cm" using wf_cpu_set [OF 3(2)] by simp
    have b: "banned_cpus ?s2 = banned_cpus s" "unbanned_cpus ?s2 = unbanned_cpus s" "t_mask (objs ?s2 cpu) = cm"
      by (simp_all add: s1)
    have "tree_inv (attach_cpu sys path cpu cm ?s2)" if "\<not> cpus_intersects cm (banned_cpus s1)"
    proof -
      have "cpus_of cm \<inter> cpus_of (banned_cpus ?s2) = {}" using that s1 by (simp add: mask.intersects_op)
      with attach_cpu_grows [of cpu ?s2 cm sys path] attach_cpu_topo [of cpu ?s2 sys path cm] inv2 avd wf b av(2)
      show ?thesis unfolding tree_inv_def by metis
    qed
    moreover have "tree_inv (free_cpu_topo cpu ?s2)"
      unfolding tree_inv_def using inv3 avd av(2) b by (simp add: free_cpu_topo_def)
    ultimately show ?thesis using 3(3,4) by simp
  qed
qed

lemma connect_all_inv:
  assumes "tree_inv s"
  shows "tree_inv (fold (connect_cpu_mem_topo TOPO_DEPTH) (packages s) s)"
proof -
  have "topo_inv {} (fold (connect_cpu_mem_topo TOPO_DEPTH) (packages s) s)
      \<and> same_kinds s (fold (connect_cpu_mem_topo TOPO_DEPTH) (packages s) s)"
  proof (rule fold_invariant_on [where I = "\<lambda>u. topo_inv {} u \<and> same_kinds s u"])
    fix p u assume p: "p \<in> set (packages s)" and u: "topo_inv {} u \<and> same_kinds s u"
    have "p \<in> set (master OBJ_TYPE_PACKAGE u)" using p u same_kinds_lists(2) [of s u] by simp
    with connect_topo [OF conjunct1 [OF u], of p TOPO_DEPTH] topo_invD(1) [OF conjunct1 [OF u], of p OBJ_TYPE_PACKAGE] u
    show "topo_inv {} (connect_cpu_mem_topo TOPO_DEPTH p u) \<and> same_kinds s (connect_cpu_mem_topo TOPO_DEPTH p u)"
      by (auto simp: master_live less_obj_type_e_def intro: same_kinds_trans)
  qed (use assms in \<open>simp add: tree_inv_def\<close>)
  with tree_inv_kinds [OF assms] show ?thesis by blast
qed

lemma parse_cpu_tree_inv:
  assumes inv: "topo_inv {} s" and empty: "packages s = []" "cache_domains s = []" "cpus s = []"
    and wf: "wf_cpumask (unbanned_cpus s)" and run: "parse_cpu_tree sys s = Some s'"
  shows "tree_inv s'"
proof -
  let ?s0 = "setup_banned_cpus sys s"
  let ?s1 = "?s0\<lparr> unbanned_cpus := cpus_complement (unbanned_cpus ?s0) (banned_cpus ?s0) \<rparr>"
  let ?step = "\<lambda>e os. os \<bind> (\<lambda>s. if is_cpu_dir e then do_one_cpu sys (''/sys/devices/system/cpu/'' @ d_name e) s else Some s)"
  have s0: "objs ?s0 = objs s" "packages ?s0 = []" "cache_domains ?s0 = []" "cpus ?s0 = []" "unbanned_cpus ?s0 = unbanned_cpus s"
    "numa_nodes ?s0 = numa_nodes s" "next_obj ?s0 = next_obj s"
    by (simp_all add: setup_banned_cpus_def Let_def empty)
  have "topo_inv {} ?s1" by (rule topo_inv_cong [THEN iffD2, OF _ _ _ _ _ _ inv]) (simp_all add: s0 empty)
  moreover have "avoids_banned ?s1"
  proof -
    have "master t ?s1 = []" if "t \<noteq> OBJ_TYPE_NODE" for t using that by (cases t) (simp_all add: s0)
    then show ?thesis by (simp add: avoids_banned_def)
  qed
  ultimately have s1: "tree_inv ?s1" using wf by (auto simp: tree_inv_def mask.compl_op(1) s0(5))
  have all: "tree_inv t" if "fold ?step es (Some ?s1) = Some t" for es t
  proof -
    have "\<forall>t. fold ?step es (Some ?s1) = Some t \<longrightarrow> tree_inv t"
      by (rule fold_invariant_on [where I = "\<lambda>os. \<forall>t. os = Some t \<longrightarrow> tree_inv t"])
        (use s1 do_one_cpu_inv in \<open>auto simp: bind_eq_Some_conv split: if_splits\<close>)
    with that show ?thesis by blast
  qed
  show ?thesis
  proof (cases "dir_entries sys ''/sys/devices/system/cpu''")
    case None
    with run s1 show ?thesis by (simp add: parse_cpu_tree_def Let_def)
  next
    case (Some es)
    note run' = run [unfolded parse_cpu_tree_def Let_def Some option.case for_each_object_def]
    then obtain t where "fold ?step es (Some ?s1) = Some t" "s' = fold (connect_cpu_mem_topo TOPO_DEPTH) (packages t) t"
      by (cases "fold ?step es (Some ?s1)") simp_all
    with all connect_all_inv show ?thesis by blast
  qed
qed

section \<open>Theorems\<close>

text \<open>
  (C9) The tree that is built is well typed, for every contents of \<open>/sys\<close> and for allocations that fail:
  the list of every level holds objects of the type of the level only, every child is an
  object on one of these lists and of a lower type than its parent, every parent pointer is matched
  by a child, so the recursive walks end, and no package, cache domain or CPU contains a banned
  CPU.
\<close>

theorem parse_cpu_tree_builds_typed_tree:
  assumes "topo_inv {} s" "packages s = []" "cache_domains s = []" "cpus s = []" "wf_cpumask (unbanned_cpus s)"
    and "parse_cpu_tree sys s = Some s'"
  shows "(\<forall>t d. d \<in> set (master t s') \<longrightarrow> t_obj_type (objs s' d) = t \<and>
      (t = OBJ_TYPE_NODE \<or> cpus_of (t_mask (objs s' d)) \<inter> cpus_of (banned_cpus s') = {})) \<and>
    (\<forall>d c. c \<in> set (t_children (objs s' d)) \<longrightarrow> c \<in> live {} s' \<and> t_obj_type (objs s' c) < t_obj_type (objs s' d)) \<and>
    (\<forall>d p. t_parent (objs s' d) = Some p \<longrightarrow> d \<in> set (t_children (objs s' p))) \<and>
    cpus_of (unbanned_cpus s') \<inter> cpus_of (banned_cpus s') = {}"
  using parse_cpu_tree_inv [OF assms] topo_invD unfolding tree_inv_def avoids_banned_def by metis

end
