(* ===== verification/Classify.thy ===== *)
theory Classify
  imports Cputree
begin

text \<open>
  The interrupt database of \<open>classify.c\<close> and the lines of \<open>/proc/interrupts\<close> (\<open>procinterrupts.c\<close>, without
  the code for AARCH64): which interrupts are balanced and at which level, which are banned,
  what a policy script says, and how interrupts come and go while the daemon runs.
\<close>

section \<open>PCI classes\<close>

record pci_info =
  pci_vendor :: u16
  pci_device :: u16
  pci_sub_vendor :: u16
  pci_sub_device :: u16
  pci_cls :: u32

definition PCI_MAX_CLASS :: nat where "PCI_MAX_CLASS = 0x14"
definition PCI_MAX_SERIAL_SUBCLASS :: nat where "PCI_MAX_SERIAL_SUBCLASS = 0x81"
definition PCI_INVAL_DATA :: u32 where "PCI_INVAL_DATA = 0xFFFFFFFF"
definition PCI_VENDOR_PLX :: u16 where "PCI_VENDOR_PLX = 0x10b5"
definition PCI_DEVICE_PLX_PEX8619 :: u16 where "PCI_DEVICE_PLX_PEX8619 = 0x8619"
definition PCI_VENDOR_CAVIUM :: u16 where "PCI_VENDOR_CAVIUM = 0x177d"
definition PCI_DEVICE_CAVIUM_CN61XX :: u16 where "PCI_DEVICE_CAVIUM_CN61XX = 0x0093"
definition PCI_SUB_VENDOR_EMC :: u16 where "PCI_SUB_VENDOR_EMC = 0x1120"
definition PCI_SUB_DEVICE_EMC_055B :: u16 where "PCI_SUB_DEVICE_EMC_055B = 0x055b"
definition PCI_SUB_DEVICE_EMC_0568 :: u16 where "PCI_SUB_DEVICE_EMC_0568 = 0x0568"
definition PCI_SUB_DEVICE_EMC_dd00 :: u16 where "PCI_SUB_DEVICE_EMC_dd00 = 0xdd00"

definition apply_pci_quirks :: "pci_info \<Rightarrow> int \<Rightarrow> int" where
  "apply_pci_quirks pci irq_class =
     (let irq_class =
        (if pci_vendor pci = PCI_VENDOR_PLX \<and> pci_device pci = PCI_DEVICE_PLX_PEX8619 \<and> pci_sub_vendor pci = PCI_SUB_VENDOR_EMC \<and>
            (pci_sub_device pci = PCI_SUB_DEVICE_EMC_055B \<or> pci_sub_device pci = PCI_SUB_DEVICE_EMC_dd00)
         then IRQ_SCSI else irq_class)
      in if pci_vendor pci = PCI_VENDOR_CAVIUM \<and> pci_device pci = PCI_DEVICE_CAVIUM_CN61XX \<and>
            pci_sub_vendor pci = PCI_SUB_VENDOR_EMC \<and> pci_sub_device pci = PCI_SUB_DEVICE_EMC_0568
         then IRQ_SCSI else irq_class)"

definition major_class_codes :: "int list" where
  "major_class_codes =
     [IRQ_OTHER, IRQ_SCSI, IRQ_ETH, IRQ_VIDEO, IRQ_OTHER, IRQ_OTHER, IRQ_LEGACY, IRQ_OTHER, IRQ_OTHER, IRQ_LEGACY,
      IRQ_OTHER, IRQ_OTHER, IRQ_NODEF, IRQ_ETH, IRQ_SCSI, IRQ_OTHER, IRQ_OTHER, IRQ_OTHER, IRQ_LEGACY, IRQ_LEGACY]"

definition serial_sub_codes :: "int list" where
  "serial_sub_codes =
     [IRQ_LEGACY, IRQ_LEGACY, IRQ_LEGACY, IRQ_LEGACY, IRQ_SCSI, IRQ_LEGACY, IRQ_SCSI, IRQ_LEGACY, IRQ_LEGACY, IRQ_LEGACY]
     @ replicate (0x7f - 0xa + 1) IRQ_NODEF @ [IRQ_LEGACY]"

definition map_pci_irq_class :: "u32 \<Rightarrow> int" where
  "map_pci_irq_class pci_class =
     (let major = unat (drop_bit 16 pci_class);
          sub = unat (drop_bit 8 (pci_class AND 0xFF00))
      in if major \<ge> PCI_MAX_CLASS then IRQ_NODEF
         else if major = 0xc
         then (if sub \<ge> PCI_MAX_SERIAL_SUBCLASS then IRQ_NODEF else serial_sub_codes ! sub)
         else major_class_codes ! major)"

text \<open>\<open>get_hex\<close> stores an \<open>int\<close> into the \<open>unsigned int\<close>.\<close>

definition read_pci_data :: "sys \<Rightarrow> string \<Rightarrow> string \<Rightarrow> u32" where
  "read_pci_data sys devpath file =
     (let (rc, data) = process_one_line sys (devpath @ ''/'' @ file) get_hex (- 1)
      in if rc < 0 then PCI_INVAL_DATA else of_int data)"

definition get_pci_info :: "sys \<Rightarrow> string \<Rightarrow> pci_info option" where
  "get_pci_info sys devpath =
     (let vendor = read_pci_data sys devpath ''vendor'';
          device = read_pci_data sys devpath ''device'';
          sub_vendor = read_pci_data sys devpath ''subsystem_vendor'';
          sub_device = read_pci_data sys devpath ''subsystem_device'';
          pci_class = read_pci_data sys devpath ''class''
      in if vendor = PCI_INVAL_DATA \<or> device = PCI_INVAL_DATA \<or> sub_vendor = PCI_INVAL_DATA \<or>
            sub_device = PCI_INVAL_DATA \<or> pci_class = PCI_INVAL_DATA
         then None
         else Some \<lparr> pci_vendor = ucast vendor, pci_device = ucast device, pci_sub_vendor = ucast sub_vendor,
                     pci_sub_device = ucast sub_device, pci_cls = pci_class \<rparr>)"

definition get_irq_class :: "sys \<Rightarrow> string \<Rightarrow> int" where
  "get_irq_class sys devpath =
     (case get_pci_info sys devpath of
        None \<Rightarrow> IRQ_NODEF
      | Some pci \<Rightarrow>
          let irq_class = map_pci_irq_class (pci_cls pci)
          in if irq_class < 0 then IRQ_NODEF else apply_pci_quirks pci irq_class)"

section \<open>Banned interrupts and modules\<close>

datatype ban_list = ClBannedIrqs | BannedIrqs

fun get_bans :: "ban_list \<Rightarrow> state \<Rightarrow> irq_ref list" where
  "get_bans ClBannedIrqs s = cl_banned_irqs s"
| "get_bans BannedIrqs s = banned_irqs s"

fun set_bans :: "ban_list \<Rightarrow> irq_ref list \<Rightarrow> state \<Rightarrow> state" where
  "set_bans ClBannedIrqs xs s = s\<lparr> cl_banned_irqs := xs \<rparr>"
| "set_bans BannedIrqs xs s = s\<lparr> banned_irqs := xs \<rparr>"

definition add_banned_irq :: "int \<Rightarrow> ban_list \<Rightarrow> state \<Rightarrow> state" where
  "add_banned_irq irq list s =
     (if find (same_irq s irq) (get_bans list s) \<noteq> None then s
      else case calloc_irq s of
        (None, s) \<Rightarrow> s
      | (Some r, s) \<Rightarrow>
          let s = upd_irq r (\<lambda>i. i\<lparr> i_irq := irq, i_flags := i_flags i OR IRQ_FLAG_BANNED \<rparr>) s
          in set_bans list (get_bans list s @ [r]) s)"

definition add_cl_banned_irq :: "int \<Rightarrow> state \<Rightarrow> state" where
  "add_cl_banned_irq irq s = add_banned_irq irq ClBannedIrqs s"

text \<open>\<open>substr_find(a, b) == 0\<close>\<close>

definition substr_find :: "string \<Rightarrow> string \<Rightarrow> bool" where
  "substr_find a b = strstr b a"

definition add_cl_banned_module :: "string \<Rightarrow> state \<Rightarrow> state" where
  "add_cl_banned_module modname s =
     (if find (\<lambda>m. substr_find m modname) (cl_banned_modules s) \<noteq> None then s
      else
        let (ok, s) = mem_next s
        in if ok then s\<lparr> cl_banned_modules := cl_banned_modules s @ [modname] \<rparr> else s)"

definition check_for_module_ban :: "string \<Rightarrow> state \<Rightarrow> bool" where
  "check_for_module_ban name s \<longleftrightarrow> find (\<lambda>m. substr_find m name) (cl_banned_modules s) \<noteq> None"

definition check_for_irq_ban :: "irq_info \<Rightarrow> string option \<Rightarrow> state \<Rightarrow> bool" where
  "check_for_irq_ban irq modname s \<longleftrightarrow>
     find (same_irq s (i_irq irq)) (cl_banned_irqs s) \<noteq> None \<or>
     (modname \<noteq> None \<and> the modname \<noteq> [] \<and> check_for_module_ban (the modname) s) \<or>
     (i_name irq \<noteq> None \<and> the (i_name irq) \<noteq> [] \<and> check_for_module_ban (the (i_name irq)) s)"

section \<open>User policy\<close>

record user_irq_policy =
  pol_ban :: int
  pol_level :: int
  pol_numa_node_set :: int
  pol_numa_node :: int

definition no_policy :: user_irq_policy where
  "no_policy = \<lparr> pol_ban = - 1, pol_level = - 1, pol_numa_node_set = - 1, pol_numa_node = - 1 \<rparr>"

definition parse_user_policy_key :: "string \<Rightarrow> state \<Rightarrow> user_irq_policy \<Rightarrow> user_irq_policy" where
  "parse_user_policy_key buf s pol =
     (case strchr buf CHR ''='' of
        None \<Rightarrow> pol
      | Some (key, value) \<Rightarrow>
          let value = (case strchr value CHR 0x0A of None \<Rightarrow> value | Some (v, _) \<Rightarrow> v)
          in if strcaseeq ''ban'' key
             then (if strcaseeq ''false'' value then pol\<lparr> pol_ban := 0 \<rparr>
                   else if strcaseeq ''true'' value then pol\<lparr> pol_ban := 1 \<rparr> else pol)
             else if strcaseeq ''balance_level'' key
             then (if strcaseeq ''none'' value then pol\<lparr> pol_level := 0 \<rparr>
                   else if strcaseeq ''package'' value then pol\<lparr> pol_level := 1 \<rparr>
                   else if strcaseeq ''cache'' value then pol\<lparr> pol_level := 2 \<rparr>
                   else if strcaseeq ''core'' value then pol\<lparr> pol_level := 3 \<rparr> else pol)
             else if strcaseeq ''numa_node'' key
             then
               let idx = int_strtoul 10 value
               in if get_numa_node idx s = None then pol else pol\<lparr> pol_numa_node := idx, pol_numa_node_set := 1 \<rparr>
             else pol)"

text \<open>What \<open>fgets\<close> with a buffer of \<open>n + 1\<close> bytes reads from a text, call by call.\<close>

fun fgets_chunks :: "nat \<Rightarrow> nat \<Rightarrow> string \<Rightarrow> string list" where
  "fgets_chunks n left [] = []"
| "fgets_chunks n left (c # s) =
     (if c = CHR 0x0A \<or> left \<le> 1 then [c] # fgets_chunks n n s
      else case fgets_chunks n (left - 1) s of [] \<Rightarrow> [[c]] | l # ls \<Rightarrow> (c # l) # ls)"

definition run_script_for_policy ::
  "sys \<Rightarrow> string \<Rightarrow> string \<Rightarrow> int \<Rightarrow> state \<Rightarrow> user_irq_policy \<Rightarrow> int \<times> user_irq_policy" where
  "run_script_for_policy sys script path irq s pol =
     (case popen_script sys script path irq of
        None \<Rightarrow> (1, pol)
      | Some (output, status) \<Rightarrow>
          (status, fold (\<lambda>line. parse_user_policy_key line s) (fgets_chunks 127 127 output) pol))"

definition SYSFS_DIR :: string where "SYSFS_DIR = ''/sys''"
definition SYSPCI_DIR :: string where "SYSPCI_DIR = ''/sys/bus/pci/devices''"

text \<open>The loop over a directory of scripts; \<open>script\<close> has 1024 bytes.\<close>

fun policy_scripts ::
  "sys \<Rightarrow> string \<Rightarrow> string \<Rightarrow> int \<Rightarrow> state \<Rightarrow> dirent list \<Rightarrow> user_irq_policy \<Rightarrow> user_irq_policy" where
  "policy_scripts sys dir path irq s [] pol = pol"
| "policy_scripts sys dir path irq s (e # es) pol =
     (let script = take 1023 (dir @ ''/'' @ d_name e)
      in case stat sys script of
           None \<Rightarrow> policy_scripts sys dir path irq s es pol
         | Some sbuf \<Rightarrow>
             if \<not> st_isreg sbuf \<or> \<not> st_ixusr sbuf then policy_scripts sys dir path irq s es pol
             else
               let (ret, pol) = run_script_for_policy sys script path irq s no_policy
               in if ret < 0 \<or> ret \<ge> 2 \<or> ret = 1 then policy_scripts sys dir path irq s es pol else pol)"

definition get_irq_user_policy :: "sys \<Rightarrow> string option \<Rightarrow> int \<Rightarrow> state \<Rightarrow> user_irq_policy" where
  "get_irq_user_policy sys path irq s =
     (case polscript s of
        None \<Rightarrow> no_policy
      | Some script \<Rightarrow>
          case stat sys script of
            None \<Rightarrow> no_policy
          | Some sbuf \<Rightarrow>
              let path = (case path of None \<Rightarrow> SYSFS_DIR | Some p \<Rightarrow> p)
              in if \<not> st_isdir sbuf
                 then
                   let (ret, pol) = run_script_for_policy sys script path irq s no_policy
                   in if ret \<noteq> 0 then no_policy else pol
                 else case dir_entries sys script of
                   None \<Rightarrow> no_policy
                 | Some es \<Rightarrow> policy_scripts sys script path irq s es no_policy)"

section \<open>Adding interrupts\<close>

definition map_class_to_level :: "int list" where
  "map_class_to_level =
     [BALANCE_PACKAGE, BALANCE_CACHE, BALANCE_CORE, BALANCE_CORE, BALANCE_CORE, BALANCE_CORE, BALANCE_CORE, BALANCE_CORE]"

text \<open>What \<open>add_one_irq_to_db\<close> writes into the new interrupt.\<close>

definition new_irq_info :: "sys \<Rightarrow> string option \<Rightarrow> irq_info \<Rightarrow> user_irq_policy \<Rightarrow> state \<Rightarrow> irq_info" where
  "new_irq_info sys devpath hint pol s =
     (let new = zero_irq\<lparr> i_irq := i_irq hint, i_type := i_type hint, i_class := i_class hint \<rparr>;
          irq_class = (case devpath of None \<Rightarrow> i_class hint | Some p \<Rightarrow> get_irq_class sys p);
          new = (if irq_class < 0 \<and> devpath \<noteq> None then new
                 else
                   let new = new\<lparr> i_class := irq_class \<rparr>
                   in if pol_level pol \<ge> 0 then new\<lparr> i_level := pol_level pol \<rparr>
                      else new\<lparr> i_level := map_class_to_level ! nat (i_class new) \<rparr>);
          node = (if numa_avail s
                  then snd (process_one_line sys
                              (case devpath of Some p \<Rightarrow> p @ ''/numa_node''
                               | None \<Rightarrow> ''/proc/irq/'' @ dec_of_int (i_irq hint) @ ''/node'') get_int NUMA_NO_NODE)
                  else NUMA_NO_NODE);
          found = (if pol_numa_node_set pol = 1 then get_numa_node (pol_numa_node pol) s else get_numa_node node s);
          found = (if found = None then get_numa_node NUMA_NO_NODE s else found);
          cpumask = cpus_setall CPU_MASK_NONE;
          cpumask = (case devpath of None \<Rightarrow> cpumask
                     | Some p \<Rightarrow> snd (process_one_line sys (p @ ''/local_cpus'') get_mask_from_bitmap cpumask))
      in new\<lparr> i_numa_node := found, i_cpumask := cpumask \<rparr>)"

definition add_one_irq_to_db ::
  "sys \<Rightarrow> string option \<Rightarrow> irq_info \<Rightarrow> user_irq_policy \<Rightarrow> state \<Rightarrow> irq_ref option \<times> state" where
  "add_one_irq_to_db sys devpath hint pol s =
     (case calloc_irq s of
        (None, s) \<Rightarrow> (None, s)
      | (Some r, s) \<Rightarrow>
          let s = upd_irq r (\<lambda>_. new_irq_info sys devpath hint pol s) s
          in (Some r, s\<lparr> interrupts_db := interrupts_db s @ [r] \<rparr>))"

definition add_new_irq :: "sys \<Rightarrow> string option \<Rightarrow> irq_info \<Rightarrow> state \<Rightarrow> state" where
  "add_new_irq sys path hint s =
     (let irq = i_irq hint
      in if get_irq_info irq s \<noteq> None then s
         else
           let modname = (case path of None \<Rightarrow> None
                      | Some p \<Rightarrow>
                          case readlink sys (p @ ''/driver'') of
                            None \<Rightarrow> None
                          | Some drvpath \<Rightarrow> if 0 < length drvpath \<and> length drvpath < 4096 then Some (basename drvpath) else None);
               pol = get_irq_user_policy sys path irq s
           in if pol_ban pol = 1 \<or> check_for_irq_ban hint modname s then add_banned_irq irq BannedIrqs s
              else snd (add_one_irq_to_db sys path hint pol s))"

fun msi_entries :: "sys \<Rightarrow> string \<Rightarrow> int \<Rightarrow> dirent list \<Rightarrow> state \<Rightarrow> state" where
  "msi_entries sys devpath build_irq [] s = s"
| "msi_entries sys devpath build_irq (e # es) s =
     (let irqnum = int_of_long (fst (strtol 10 (d_name e)))
      in if irqnum \<noteq> 0 \<and> (build_irq < 0 \<or> irqnum = build_irq)
         then
           let s = add_new_irq sys (Some devpath) (zero_irq\<lparr> i_irq := irqnum, i_type := IRQ_TYPE_MSIX, i_class := IRQ_OTHER \<rparr>) s
           in if build_irq \<ge> 0 then s else msi_entries sys devpath build_irq es s
         else msi_entries sys devpath build_irq es s)"

text \<open>For x86, where 255 is no valid interrupt.\<close>

definition build_one_dev_entry :: "sys \<Rightarrow> string \<Rightarrow> int \<Rightarrow> state \<Rightarrow> state" where
  "build_one_dev_entry sys dirname build_irq s =
     (let devpath = SYSPCI_DIR @ ''/'' @ dirname
      in case dir_entries sys (devpath @ ''/msi_irqs'') of
           Some es \<Rightarrow> msi_entries sys devpath build_irq es s
         | None \<Rightarrow>
             let (rc, irqnum) = process_one_line sys (devpath @ ''/irq'') get_int 0
             in if rc < 0 then s
                else if irqnum \<noteq> 0 \<and> irqnum \<noteq> 255 \<and> (build_irq < 0 \<or> irqnum = build_irq)
                then add_new_irq sys (Some devpath)
                       (zero_irq\<lparr> i_irq := irqnum, i_type := IRQ_TYPE_LEGACY, i_class := IRQ_OTHER \<rparr>) s
                else s)"

fun dev_entries :: "sys \<Rightarrow> int \<Rightarrow> dirent list \<Rightarrow> state \<Rightarrow> irq_ref option \<times> state" where
  "dev_entries sys build_irq [] s = (None, s)"
| "dev_entries sys build_irq (e # es) s =
     (let s = build_one_dev_entry sys (d_name e) build_irq s
      in if build_irq \<ge> 0
         then (case get_irq_info build_irq s of
                 Some r \<Rightarrow> (Some r, s)
               | None \<Rightarrow> dev_entries sys build_irq es s)
         else dev_entries sys build_irq es s)"

definition build_dev_irqs :: "sys \<Rightarrow> int \<Rightarrow> state \<Rightarrow> irq_ref option \<times> state" where
  "build_dev_irqs sys build_irq s =
     (case dir_entries sys SYSPCI_DIR of
        None \<Rightarrow> (None, s)
      | Some es \<Rightarrow> dev_entries sys build_irq es s)"


section \<open>Lines of /proc/interrupts\<close>

text \<open>The loop over the tokens: the last but one is the name of the interrupt's chip, the last its action.\<close>

function token_loop :: "string \<Rightarrow> string \<Rightarrow> string \<Rightarrow> bool \<Rightarrow> string \<times> string \<times> bool" where
  "token_loop rest irq_name last_token is_xen_dyn =
     (case strtok rest of
        None \<Rightarrow> (irq_name, last_token, is_xen_dyn)
      | Some (p, rest) \<Rightarrow> token_loop rest last_token p (is_xen_dyn \<or> strstr last_token ''xen-dyn''))"
  by pat_completeness auto
termination
  by (relation "measure (\<lambda>(rest, _). length rest)") (auto dest: strtok_shorter)

declare token_loop.simps [simp del]

text \<open>
  A line with one token only leaves \<open>last_token\<close> null, which \<open>snprintf\<close> of glibc prints as \<open>(null)\<close>.
  The buffer of the name has \<open>PATH_MAX\<close> = 4096 bytes.
  The name is a copy, which may fail.
\<close>

definition init_irq_class_and_type :: "string \<Rightarrow> irq_info \<Rightarrow> int \<Rightarrow> state \<Rightarrow> irq_info \<times> state" where
  "init_irq_class_and_type savedline info irq s =
     (let (irq_name, rest) = (case strtok savedline of None \<Rightarrow> ([], []) | Some t \<Rightarrow> t);
          is_xen_dyn = strstr irq_name ''xen-dyn'';
          (irq_name, irq_fullname, is_xen_dyn) =
            (case strtok rest of
               None \<Rightarrow> (irq_name, ''(null)'', is_xen_dyn)
             | Some (last_token, rest) \<Rightarrow> token_loop rest irq_name last_token is_xen_dyn);
          info = info\<lparr> i_irq := irq \<rparr>;
          info = (if strstr irq_name ''-event'' \<and> is_xen_dyn
                  then info\<lparr> i_type := IRQ_TYPE_VIRT_EVENT, i_class := IRQ_VIRT_EVENT \<rparr>
                  else info\<lparr> i_type := IRQ_TYPE_LEGACY, i_class := IRQ_OTHER \<rparr>);
          info = info\<lparr> i_numa_node := get_numa_node 0 s \<rparr>;
          (ok, s) = mem_next s
      in (info\<lparr> i_name := (if ok then Some (take 4095 irq_fullname) else None) \<rparr>, s))"

text \<open>Whether a line starts with a number, and the text before and behind the colon.\<close>

definition numbered_line :: "string \<Rightarrow> bool" where
  "numbered_line line = (case dropWhile isblank line of [] \<Rightarrow> False | c # _ \<Rightarrow> isdigit c)"

fun collect_lines :: "string list \<Rightarrow> state \<Rightarrow> irq_info list \<times> state" where
  "collect_lines [] s = ([], s)"
| "collect_lines (line # lines) s =
     (if \<not> numbered_line line then ([], s)
      else case strchr line CHR '':'' of
        None \<Rightarrow> collect_lines lines s
      | Some (number, _) \<Rightarrow>
          let (saved, s) = mem_next s
          in if \<not> saved then ([], s)
             else
               let (ok, s) = mem_next s
               in if ok
                  then
                    let (info, s) = init_irq_class_and_type line zero_irq (int_strtoul 10 number) s;
                        (infos, s) = collect_lines lines s
                    in (info # infos, s)
                  else collect_lines lines s)"

definition collect_full_irq_list :: "sys \<Rightarrow> state \<Rightarrow> irq_info list \<times> state" where
  "collect_full_irq_list sys s =
     (case file_lines sys ''/proc/interrupts'' of
        None \<Rightarrow> ([], s)
      | Some [] \<Rightarrow> ([], s)
      | Some (_ # lines) \<Rightarrow> collect_lines lines s)"

section \<open>Interrupts that come and go\<close>

definition proc_irq_hotplug :: "sys \<Rightarrow> string \<Rightarrow> int \<Rightarrow> state \<Rightarrow> irq_ref option \<times> state" where
  "proc_irq_hotplug sys savedline irq s =
     (let (pinfo, s) = build_dev_irqs sys irq s;
          (pinfo, s) =
            (case pinfo of
               Some r \<Rightarrow> (Some r, s)
             | None \<Rightarrow>
                 let (tmp_info, s) = init_irq_class_and_type savedline zero_irq irq s;
                     s = add_new_irq sys None tmp_info s
                 in (get_irq_info irq s, s))
      in case pinfo of
           None \<Rightarrow> (None, s)
         | Some r \<Rightarrow> (Some r, force_rebalance_irq r s))"

text \<open>The memory of the interrupts is freed; their addresses are not used again.\<close>

definition free_irq_db :: "state \<Rightarrow> state" where
  "free_irq_db s = s\<lparr> interrupts_db := [], banned_irqs := [], rebalance_irq_list := [] \<rparr>"

definition free_cl_opts :: "state \<Rightarrow> state" where
  "free_cl_opts s = s\<lparr> cl_banned_modules := [], cl_banned_irqs := [] \<rparr>"

text \<open>
  With no line in \<open>/proc/interrupts\<close> the list is null and the last loop runs over the database, where
  \<open>add_new_irq\<close> finds every interrupt and does nothing.
\<close>

definition rebuild_irq_db :: "sys \<Rightarrow> state \<Rightarrow> state" where
  "rebuild_irq_db sys s =
     (let s = free_irq_db s;
          (tmp_irqs, s) = collect_full_irq_list sys s;
          s = snd (build_dev_irqs sys (- 1) s)
      in if tmp_irqs = [] then fold (\<lambda>r s. add_new_irq sys None (irqs s r) s) (interrupts_db s) s
         else fold (add_new_irq sys None) tmp_irqs s)"

definition remove_no_existing_irq :: "irq_ref \<Rightarrow> state \<Rightarrow> state" where
  "remove_no_existing_irq info s =
     (if i_existing (irqs s info) then upd_irq info (i_existing_update (\<lambda>_. False)) s
      else
        let same = same_irq s (i_irq (irqs s info));
            s = s\<lparr> interrupts_db := remove_first same (interrupts_db s) \<rparr>;
            s = s\<lparr> banned_irqs := remove_first same (banned_irqs s) \<rparr>;
            s = s\<lparr> rebalance_irq_list := remove_first same (rebalance_irq_list s) \<rparr>
        in case i_assigned_obj (irqs s info) of
             None \<Rightarrow> s
           | Some d \<Rightarrow>
               if find same (t_interrupts (objs s d)) \<noteq> None
               then upd_obj d (\<lambda>x. x\<lparr> t_interrupts := remove_first same (t_interrupts x), t_slots_left := INT_MAX \<rparr>) s
               else s)"

definition clear_no_existing_irqs :: "state \<Rightarrow> state" where
  "clear_no_existing_irqs s =
     (let s = for_each_irq (interrupts_db s) [] remove_no_existing_irq s
      in if banned_irqs s \<noteq> [] then for_each_irq (interrupts_db s) (banned_irqs s) remove_no_existing_irq s else s)"


section \<open>The invariant of the database\<close>

text \<open>
  Beyond the agreement of the lists: no number is twice in the database and among the banned
  interrupts, all addresses come from the allocator, and banned interrupts are never balanced.
\<close>

definition db_inv :: "state \<Rightarrow> bool" where
  "db_inv s \<longleftrightarrow> irqs_ok s \<and>
     (\<forall>r \<in> set (interrupts_db s) \<union> set (banned_irqs s) \<union> set (cl_banned_irqs s). r < next_irq s) \<and>
     inj_on (\<lambda>r. i_irq (irqs s r)) (set (interrupts_db s) \<union> set (banned_irqs s)) \<and>
     distinct (banned_irqs s) \<and> set (interrupts_db s) \<inter> set (banned_irqs s) = {} \<and>
     (\<forall>r \<in> set (banned_irqs s). i_level (irqs s r) = BALANCE_NONE)"

definition cl_bans_kept :: "state \<Rightarrow> bool" where
  "cl_bans_kept s \<longleftrightarrow> (\<forall>r \<in> set (interrupts_db s). \<forall>b \<in> set (cl_banned_irqs s). i_irq (irqs s r) \<noteq> i_irq (irqs s b))"

text \<open>The node of an interrupt is on the list of nodes, unless there is no unspecified node.\<close>

definition node_ok :: "state \<Rightarrow> obj_ref option \<Rightarrow> bool" where
  "node_ok s n \<longleftrightarrow> (case n of None \<Rightarrow> \<not> no_node_known s | Some d \<Rightarrow> d \<in> set (numa_nodes s))"

definition nodes_ok :: "state \<Rightarrow> bool" where
  "nodes_ok s \<longleftrightarrow> (\<forall>r \<in> set (interrupts_db s). node_ok s (i_numa_node (irqs s r)))"

lemma db_invD:
  assumes "db_inv s"
  shows "irqs_ok s" "r \<in> set (interrupts_db s) \<Longrightarrow> r < next_irq s" "r \<in> set (banned_irqs s) \<Longrightarrow> r < next_irq s"
    "r \<in> set (cl_banned_irqs s) \<Longrightarrow> r < next_irq s"
  using assms by (auto simp: db_inv_def)

lemma on_list_in_db: "irqs_ok s \<Longrightarrow> r \<in> set (get_list l s) \<Longrightarrow> r \<in> set (interrupts_db s)"
  by (auto simp: irqs_ok_def)

text \<open>Adding interrupts: what is there already stays as it is.\<close>

definition new_irq :: "state \<Rightarrow> state \<Rightarrow> irq_ref \<Rightarrow> bool" where
  "new_irq s s' r \<longleftrightarrow> next_irq s \<le> r \<and> r < next_irq s' \<and> i_assigned_obj (irqs s' r) = None \<and>
     node_ok s (i_numa_node (irqs s' r)) \<and>
     (\<forall>b \<in> set (cl_banned_irqs s). b < next_irq s \<longrightarrow> i_irq (irqs s' r) \<noteq> i_irq (irqs s b))"

definition db_grows :: "state \<Rightarrow> state \<Rightarrow> bool" where
  "db_grows s s' \<longleftrightarrow>
     s' = s\<lparr> irqs := irqs s', interrupts_db := interrupts_db s', banned_irqs := banned_irqs s',
            next_irq := next_irq s', mem_fails := mem_fails s' \<rparr> \<and>
     next_irq s \<le> next_irq s' \<and> (\<forall>r < next_irq s. irqs s' r = irqs s r) \<and>
     set (interrupts_db s) \<subseteq> set (interrupts_db s') \<and> set (banned_irqs s) \<subseteq> set (banned_irqs s') \<and>
     (\<forall>r \<in> set (interrupts_db s'). r \<in> set (interrupts_db s) \<or> new_irq s s' r)"

lemma db_grows_sel:
  assumes "db_grows s s'"
  shows "objs s' = objs s" "rebalance_irq_list s' = rebalance_irq_list s" "numa_nodes s' = numa_nodes s"
    "packages s' = packages s" "cache_domains s' = cache_domains s" "cpus s' = cpus s" "numa_avail s' = numa_avail s"
    "next_obj s' = next_obj s" "cl_banned_irqs s' = cl_banned_irqs s" "cl_banned_modules s' = cl_banned_modules s"
    "need_rebuild s' = need_rebuild s" "need_rescan s' = need_rescan s" "cycle_count s' = cycle_count s"
    "get_list l s' = get_list l s" "node_ok s' n = node_ok s n" "no_node_known s' = no_node_known s"
proof -
  from assms obtain i d b x f where *: "s' = s\<lparr> irqs := i, interrupts_db := d, banned_irqs := b, next_irq := x, mem_fails := f \<rparr>"
    unfolding db_grows_def by blast
  show "objs s' = objs s" "rebalance_irq_list s' = rebalance_irq_list s" "numa_nodes s' = numa_nodes s"
    "packages s' = packages s" "cache_domains s' = cache_domains s" "cpus s' = cpus s" "numa_avail s' = numa_avail s"
    "next_obj s' = next_obj s" "cl_banned_irqs s' = cl_banned_irqs s" "cl_banned_modules s' = cl_banned_modules s"
    "need_rebuild s' = need_rebuild s" "need_rescan s' = need_rescan s" "cycle_count s' = cycle_count s"
    "get_list l s' = get_list l s" "node_ok s' n = node_ok s n" "no_node_known s' = no_node_known s"
    by (cases l; simp add: * node_ok_def no_node_known_def split: option.split)+
qed

lemma db_grows_refl [simp]: "db_grows s s"
  by (simp add: db_grows_def)

lemma db_grows_trans [trans]:
  assumes 1: "db_grows s s'" and 2: "db_grows s' s''"
  shows "db_grows s s''"
proof -
  note sel = db_grows_sel [OF 1]
  from 1 have a: "s' = s\<lparr> irqs := irqs s', interrupts_db := interrupts_db s', banned_irqs := banned_irqs s', next_irq := next_irq s', mem_fails := mem_fails s' \<rparr>"
    by (simp add: db_grows_def)
  from 2 have b: "s'' = s'\<lparr> irqs := irqs s'', interrupts_db := interrupts_db s'', banned_irqs := banned_irqs s'', next_irq := next_irq s'', mem_fails := mem_fails s'' \<rparr>"
    by (simp add: db_grows_def)
  have "s'' = s\<lparr> irqs := irqs s'', interrupts_db := interrupts_db s'', banned_irqs := banned_irqs s'', next_irq := next_irq s'', mem_fails := mem_fails s'' \<rparr>"
    by (subst b, subst a) simp
  moreover have le: "next_irq s \<le> next_irq s'" and keep: "\<forall>r < next_irq s. irqs s' r = irqs s r" using 1 by (auto simp: db_grows_def)
  moreover have le': "next_irq s' \<le> next_irq s''" and keep': "\<forall>r < next_irq s'. irqs s'' r = irqs s' r" using 2 by (auto simp: db_grows_def)
  moreover have "r \<in> set (interrupts_db s) \<or> new_irq s s'' r" if r: "r \<in> set (interrupts_db s'')" for r
  proof (cases "r \<in> set (interrupts_db s')")
    case True
    with 1 have "r \<in> set (interrupts_db s) \<or> new_irq s s' r" unfolding db_grows_def by blast
    moreover have "irqs s'' r = irqs s' r" if "r < next_irq s'" using keep' that by simp
    ultimately show ?thesis using le' by (auto simp: new_irq_def)
  next
    case False
    with 2 r have "new_irq s' s'' r" unfolding db_grows_def by blast
    with le keep show ?thesis by (auto simp: new_irq_def sel)
  qed
  moreover have "set (interrupts_db s) \<subseteq> set (interrupts_db s'')" "set (banned_irqs s) \<subseteq> set (banned_irqs s'')"
    using 1 2 by (auto simp: db_grows_def)
  ultimately show ?thesis unfolding db_grows_def by simp
qed


lemma get_irq_info_None:
  "get_irq_info irq s = None \<longleftrightarrow> (\<forall>r \<in> set (interrupts_db s) \<union> set (banned_irqs s). i_irq (irqs s r) \<noteq> irq)"
proof (cases "find (same_irq s irq) (interrupts_db s)")
  case None
  then have "get_irq_info irq s = find (same_irq s irq) (banned_irqs s)" by (simp add: get_irq_info_def)
  with None show ?thesis by (auto simp: same_irq_def find_None_iff)
next
  case (Some r)
  then have "r \<in> set (interrupts_db s) \<and> i_irq (irqs s r) = irq" by (auto simp: same_irq_def dest: find_SomeD)
  with Some show ?thesis by (auto simp: get_irq_info_def)
qed

lemma get_irq_info_Some:
  "get_irq_info irq s = Some r \<Longrightarrow> (r \<in> set (interrupts_db s) \<or> r \<in> set (banned_irqs s)) \<and> i_irq (irqs s r) = irq"
  by (auto simp: get_irq_info_def same_irq_def split: option.splits dest: find_SomeD)

lemma calloc_irq_Some:
  assumes "calloc_irq s = (Some r, s')"
  obtains fs where "r = next_irq s" "s' = s\<lparr> mem_fails := fs, irqs := (irqs s)(r := zero_irq), next_irq := r + 1 \<rparr>"
  using assms by (auto simp: calloc_irq_def mem_next_def Let_def split: if_splits)

lemma calloc_irq_None:
  assumes "calloc_irq s = (None, s')"
  obtains fs where "s' = s\<lparr> mem_fails := fs \<rparr>"
  using assms by (auto simp: calloc_irq_def mem_next_def Let_def split: if_splits)

lemma db_mem [simp]:
  "db_inv (s\<lparr> mem_fails := fs \<rparr>) = db_inv s" "db_grows s (s\<lparr> mem_fails := fs \<rparr>)"
proof -
  have "get_list l (s\<lparr> mem_fails := fs \<rparr>) = get_list l s" for l by (cases l) simp_all
  then show "db_inv (s\<lparr> mem_fails := fs \<rparr>) = db_inv s" by (simp add: db_inv_def irqs_ok_def)
  show "db_grows s (s\<lparr> mem_fails := fs \<rparr>)" by (simp add: db_grows_def)
qed

text \<open>A new interrupt with a number that is not known, unassigned, in the database or among the banned.\<close>

lemma irqs_ok_fresh:
  assumes ok: "irqs_ok s" and fresh: "\<forall>r \<in> set (interrupts_db s). r < n"
    and s': "irqs s' = (irqs s)(n := x)" "\<And>l. get_list l s' = get_list l s" "objs s' = objs s"
    and db: "interrupts_db s' = interrupts_db s \<or>
      interrupts_db s' = interrupts_db s @ [n] \<and> i_assigned_obj x = None \<and> (\<forall>r \<in> set (interrupts_db s). i_irq (irqs s r) \<noteq> i_irq x)"
  shows "irqs_ok s'"
proof -
  have notin: "n \<notin> set (interrupts_db s)" using fresh by blast
  have old: "irqs s' r = irqs s r" if "r \<in> set (interrupts_db s)" for r using that fresh s'(1) by auto
  have sub: "set (get_list l s) \<subseteq> set (interrupts_db s)" for l using ok unfolding irqs_ok_def by blast
  have "distinct (interrupts_db s')" "set (interrupts_db s) \<subseteq> set (interrupts_db s')"
    using ok db fresh by (auto simp: irqs_ok_def)
  moreover have "inj_on (\<lambda>r. i_irq (irqs s' r)) (set (interrupts_db s'))"
    using ok db notin s'(1) by (auto simp: irqs_ok_def inj_on_def)
  moreover have "l = list_of (i_assigned_obj (irqs s' r))" if "r \<in> set (get_list l s)" for l r
  proof -
    from that sub have "r \<in> set (interrupts_db s)" by blast
    with old [of r] ok that show ?thesis unfolding irqs_ok_def by metis
  qed
  moreover have "r \<in> set (t_interrupts (objs s d))" if "r \<in> set (interrupts_db s')" "i_assigned_obj (irqs s' r) = Some d" for r d
  proof (cases "r \<in> set (interrupts_db s)")
    case True
    with that(2) old [of r] ok show ?thesis by (simp add: irqs_ok_def)
  next
    case False
    with that db s'(1) show ?thesis by auto
  qed
  ultimately show ?thesis using ok sub unfolding irqs_ok_def s'(2,3) by blast
qed

lemma get_list_irrelevant [simp]:
  "get_list l (s\<lparr> irqs := i \<rparr>) = get_list l s" "get_list l (s\<lparr> interrupts_db := xs \<rparr>) = get_list l s"
  "get_list l (s\<lparr> banned_irqs := xs \<rparr>) = get_list l s" "get_list l (s\<lparr> next_irq := n \<rparr>) = get_list l s"
  "get_list l (s\<lparr> mem_fails := fs \<rparr>) = get_list l s" "get_list l (s\<lparr> cl_banned_irqs := xs \<rparr>) = get_list l s"
  by (cases l; simp)+

lemma add_banned_step:
  assumes inv: "db_inv s" and un: "get_irq_info irq s = None"
  shows "db_grows s (add_banned_irq irq BannedIrqs s) \<and> db_inv (add_banned_irq irq BannedIrqs s)"
proof (cases "calloc_irq s")
  case (Pair ro s1)
  show ?thesis
  proof (cases ro)
    case None
    with Pair have "calloc_irq s = (None, s1)" by simp
    then obtain fs where "s1 = s\<lparr> mem_fails := fs \<rparr>" by (rule calloc_irq_None)
    with Pair None inv show ?thesis by (simp add: add_banned_irq_def)
  next
    case (Some r)
    with Pair have al: "calloc_irq s = (Some r, s1)" by simp
    then obtain fs where s1: "r = next_irq s" "s1 = s\<lparr> mem_fails := fs, irqs := (irqs s)(r := zero_irq), next_irq := r + 1 \<rparr>"
      by (rule calloc_irq_Some)
    have nf: "find (same_irq s irq) (banned_irqs s) = None" using un by (auto simp: get_irq_info_None find_None_iff same_irq_def)
    let ?x = "zero_irq\<lparr> i_irq := irq, i_flags := i_flags zero_irq OR IRQ_FLAG_BANNED \<rparr>"
    have eq: "add_banned_irq irq BannedIrqs s = s\<lparr> mem_fails := fs, irqs := (irqs s)(r := ?x), next_irq := r + 1,
        banned_irqs := banned_irqs s @ [r] \<rparr>"
      using nf al s1 by (simp add: add_banned_irq_def Let_def upd_irq_def)
    have "irqs_ok (add_banned_irq irq BannedIrqs s)" unfolding eq
      by (rule irqs_ok_fresh [OF db_invD(1) [OF inv], of "next_irq s" _ ?x]) (use inv s1 in \<open>auto simp: db_inv_def\<close>)
    moreover have "r \<notin> set (interrupts_db s) \<union> set (banned_irqs s)" using inv s1(1) by (auto simp: db_inv_def)
    moreover have "inj_on (\<lambda>q. i_irq (((irqs s)(r := ?x)) q)) (insert r (set (interrupts_db s) \<union> set (banned_irqs s)))"
      using inv un by (auto simp: db_inv_def inj_on_def get_irq_info_None)
    ultimately show ?thesis using inv s1(1)
      by (auto simp: eq db_grows_def db_inv_def less_Suc_eq insert_commute zero_irq_def BALANCE_NONE_def)
  qed
qed


lemma db_inv_fresh:
  assumes inv: "db_inv s" and s': "irqs_ok s'" "next_irq s' = next_irq s + 1" "cl_banned_irqs s' = cl_banned_irqs s"
    and sets: "set (interrupts_db s') \<union> set (banned_irqs s') = insert (next_irq s) (set (interrupts_db s) \<union> set (banned_irqs s))"
    and inj: "inj_on (\<lambda>q. i_irq (irqs s' q)) (insert (next_irq s) (set (interrupts_db s) \<union> set (banned_irqs s)))"
    and ban: "distinct (banned_irqs s')" "set (interrupts_db s') \<inter> set (banned_irqs s') = {}"
      "\<forall>r \<in> set (banned_irqs s'). i_level (irqs s' r) = BALANCE_NONE"
  shows "db_inv s'"
proof -
  have "r < next_irq s'" if "r \<in> set (interrupts_db s') \<union> set (banned_irqs s') \<union> set (cl_banned_irqs s')" for r
    using that db_invD(2-4) [OF inv, of r] unfolding sets s' by auto
  with s' inj ban show ?thesis unfolding db_inv_def sets by blast
qed

lemma new_irq_info_sel:
  "i_irq (new_irq_info sys devpath hint pol s) = i_irq hint"
  "i_assigned_obj (new_irq_info sys devpath hint pol s) = None"
  by (simp_all add: new_irq_info_def Let_def zero_irq_def)

lemma node_ok_found: "node_ok s (if get_numa_node n s = None then get_numa_node NUMA_NO_NODE s else get_numa_node n s)"
  using get_no_node [of s] by (auto simp: node_ok_def split: option.split dest: get_numa_node_SomeD)

lemma node_ok_new: "node_ok s (i_numa_node (new_irq_info sys devpath hint pol s))"
proof -
  let ?path = "case devpath of Some p \<Rightarrow> p @ ''/numa_node'' | None \<Rightarrow> ''/proc/irq/'' @ dec_of_int (i_irq hint) @ ''/node''"
  let ?k = "if pol_numa_node_set pol = 1 then pol_numa_node pol
    else if numa_avail s then snd (process_one_line sys ?path get_int NUMA_NO_NODE) else NUMA_NO_NODE"
  have "i_numa_node (new_irq_info sys devpath hint pol s)
      = (if get_numa_node ?k s = None then get_numa_node NUMA_NO_NODE s else get_numa_node ?k s)"
    by (auto simp: new_irq_info_def Let_def)
  with node_ok_found [of s ?k] show ?thesis by simp
qed

lemma add_one_step:
  assumes inv: "db_inv s" and un: "get_irq_info (i_irq hint) s = None"
    and ban: "find (same_irq s (i_irq hint)) (cl_banned_irqs s) = None"
  shows "db_grows s (snd (add_one_irq_to_db sys devpath hint pol s)) \<and> db_inv (snd (add_one_irq_to_db sys devpath hint pol s))"
proof (cases "calloc_irq s")
  case (Pair ro s1)
  show ?thesis
  proof (cases ro)
    case None
    with Pair have "calloc_irq s = (None, s1)" by simp
    then obtain fs where "s1 = s\<lparr> mem_fails := fs \<rparr>" by (rule calloc_irq_None)
    with Pair None inv show ?thesis by (simp add: add_one_irq_to_db_def)
  next
    case (Some r)
    with Pair have al: "calloc_irq s = (Some r, s1)" by simp
    then obtain fs where s1: "r = next_irq s" "s1 = s\<lparr> mem_fails := fs, irqs := (irqs s)(r := zero_irq), next_irq := r + 1 \<rparr>"
      by (rule calloc_irq_Some)
    define x where "x = new_irq_info sys devpath hint pol s1"
    define s' where "s' = s\<lparr> mem_fails := fs, irqs := (irqs s)(r := x), next_irq := r + 1, interrupts_db := interrupts_db s @ [r] \<rparr>"
    have eq: "snd (add_one_irq_to_db sys devpath hint pol s) = s'"
      using al s1 by (simp add: add_one_irq_to_db_def Let_def upd_irq_def s'_def x_def)
    have num: "i_irq x = i_irq hint" "i_assigned_obj x = None" by (simp_all add: x_def new_irq_info_sel)
    have "node_ok s1 n = node_ok s n" for n by (cases n) (simp_all add: node_ok_def no_node_known_def s1(2))
    with node_ok_new [of s1] have node: "node_ok s (i_numa_node x)" by (simp add: x_def)
    have un': "\<forall>q \<in> set (interrupts_db s) \<union> set (banned_irqs s). i_irq (irqs s q) \<noteq> i_irq hint"
      using un by (simp add: get_irq_info_None)
    have notin: "r \<notin> set (interrupts_db s) \<union> set (banned_irqs s)" using inv s1(1) by (auto simp: db_inv_def)
    have ok: "irqs_ok s'"
      by (rule irqs_ok_fresh [OF db_invD(1) [OF inv], of "next_irq s" _ x])
        (use inv s1 num un' in \<open>auto simp: db_inv_def s'_def\<close>)
    have inj: "inj_on (\<lambda>q. i_irq (irqs s' q)) (insert r (set (interrupts_db s) \<union> set (banned_irqs s)))"
      using inv un' num notin by (auto simp: s'_def db_inv_def inj_on_def)
    have bans: "\<forall>b \<in> set (cl_banned_irqs s). i_irq (irqs s b) \<noteq> i_irq hint"
      using ban by (auto simp: find_None_iff same_irq_def)
    have "db_inv s'"
    proof (rule db_inv_fresh [OF inv ok])
      show "inj_on (\<lambda>q. i_irq (irqs s' q)) (insert (next_irq s) (set (interrupts_db s) \<union> set (banned_irqs s)))"
        using inj by (simp add: s1(1))
      show "set (interrupts_db s') \<inter> set (banned_irqs s') = {}" "distinct (banned_irqs s')"
        "\<forall>r \<in> set (banned_irqs s'). i_level (irqs s' r) = BALANCE_NONE"
        using notin inv by (simp_all add: s'_def db_inv_def)
    qed (simp_all add: s'_def s1(1))
    moreover have "db_grows s s'"
      unfolding db_grows_def new_irq_def using s1(1) num node bans by (auto simp: s'_def)
    ultimately show ?thesis unfolding eq by simp
  qed
qed

lemma add_new_step:
  assumes "db_inv s"
  shows "db_grows s (add_new_irq sys path hint s) \<and> db_inv (add_new_irq sys path hint s)"
proof (cases "get_irq_info (i_irq hint) s = None")
  case True
  from add_banned_step [OF assms True] add_one_step [OF assms True] assms show ?thesis
    by (simp add: add_new_irq_def Let_def check_for_irq_ban_def)
qed (simp add: add_new_irq_def assms)

lemma msi_entries_step:
  "db_inv s \<Longrightarrow> db_grows s (msi_entries sys devpath build_irq es s) \<and> db_inv (msi_entries sys devpath build_irq es s)"
proof (induction es arbitrary: s)
  case (Cons e es)
  let ?s = "add_new_irq sys (Some devpath) (zero_irq\<lparr> i_irq := int_of_long (fst (strtol 10 (d_name e))), i_type := IRQ_TYPE_MSIX, i_class := IRQ_OTHER \<rparr>) s"
  have s1: "db_grows s ?s" "db_inv ?s" using add_new_step [OF Cons.prems] by blast+
  from Cons.IH [OF s1(2)] Cons.IH [OF Cons.prems] s1 show ?case
    by (auto simp: Let_def intro: db_grows_trans)
qed simp

lemma build_one_step:
  assumes "db_inv s"
  shows "db_grows s (build_one_dev_entry sys dirname build_irq s) \<and> db_inv (build_one_dev_entry sys dirname build_irq s)"
  using add_new_step [OF assms] msi_entries_step [OF assms] assms
  by (simp add: build_one_dev_entry_def Let_def case_prod_beta split: option.split)

lemma dev_entries_step:
  "db_inv s \<Longrightarrow> db_grows s (snd (dev_entries sys build_irq es s)) \<and> db_inv (snd (dev_entries sys build_irq es s)) \<and>
     (\<forall>r. fst (dev_entries sys build_irq es s) = Some r \<longrightarrow> get_irq_info build_irq (snd (dev_entries sys build_irq es s)) = Some r)"
proof (induction es arbitrary: s)
  case (Cons e es)
  let ?s = "build_one_dev_entry sys (d_name e) build_irq s"
  have s1: "db_grows s ?s" "db_inv ?s" using build_one_step [OF Cons.prems] by blast+
  from Cons.IH [OF s1(2)] s1 show ?case by (auto simp: Let_def split: option.split intro: db_grows_trans)
qed simp

lemma build_dev_step:
  assumes "db_inv s"
  shows "db_grows s (snd (build_dev_irqs sys build_irq s)) \<and> db_inv (snd (build_dev_irqs sys build_irq s)) \<and>
    (\<forall>r. fst (build_dev_irqs sys build_irq s) = Some r \<longrightarrow> get_irq_info build_irq (snd (build_dev_irqs sys build_irq s)) = Some r)"
  using dev_entries_step [OF assms] assms by (simp add: build_dev_irqs_def split: option.split)

lemma init_irq_state:
  "\<exists>fs. snd (init_irq_class_and_type line info irq s) = s\<lparr> mem_fails := fs \<rparr>"
  unfolding init_irq_class_and_type_def Let_def mem_next_def case_prod_beta by auto

lemma collect_lines_state: "\<exists>fs. snd (collect_lines lines s) = s\<lparr> mem_fails := fs \<rparr>"
proof (induction lines arbitrary: s)
  case Nil
  have "s = s\<lparr> mem_fails := mem_fails s \<rparr>" by simp
  then show ?case by (metis collect_lines.simps(1) snd_conv)
next
  case (Cons line lines)
  have keep: "\<exists>fs. s = s\<lparr> mem_fails := fs \<rparr>" for s :: state by (rule exI [of _ "mem_fails s"]) simp
  obtain f where f: "\<And>s. snd (collect_lines lines s) = s\<lparr> mem_fails := f s \<rparr>" using Cons.IH by metis
  obtain g where g: "\<And>i n s. snd (init_irq_class_and_type line i n s) = s\<lparr> mem_fails := g i n s \<rparr>"
    using init_irq_state by metis
  show ?case using keep [of s]
    by (auto simp: mem_next_def Let_def case_prod_beta f g split: option.split)
qed

lemma collect_full_state: "\<exists>fs. snd (collect_full_irq_list sys s) = s\<lparr> mem_fails := fs \<rparr>"
proof -
  have "\<exists>fs. s = s\<lparr> mem_fails := fs \<rparr>" by (rule exI [of _ "mem_fails s"]) simp
  with collect_lines_state show ?thesis by (auto simp: collect_full_irq_list_def split: option.split list.split)
qed


text \<open>Adding interrupts and queueing them.\<close>

definition db_step :: "state \<Rightarrow> state \<Rightarrow> bool" where
  "db_step s s' \<longleftrightarrow> (\<exists>s1 xs. db_grows s s1 \<and> s' = s1\<lparr> rebalance_irq_list := xs \<rparr>)"

lemma db_stepI: "db_grows s s' \<Longrightarrow> db_step s s'"
  unfolding db_step_def by (rule exI [of _ s'], rule exI [of _ "rebalance_irq_list s'"]) simp

lemma db_step_refl [simp]: "db_step s s"
  by (rule db_stepI) simp

lemma db_grows_rebalance:
  assumes "db_grows (s\<lparr> rebalance_irq_list := xs \<rparr>) s'"
  shows "db_grows s (s'\<lparr> rebalance_irq_list := rebalance_irq_list s \<rparr>)"
proof -
  let ?t = "s'\<lparr> rebalance_irq_list := rebalance_irq_list s \<rparr>"
  obtain i d b n f where s': "s' = s\<lparr> rebalance_irq_list := xs, irqs := i, interrupts_db := d, banned_irqs := b,
      next_irq := n, mem_fails := f \<rparr>" using assms unfolding db_grows_def by blast
  have "?t = s\<lparr> irqs := irqs s', interrupts_db := interrupts_db s', banned_irqs := banned_irqs s',
      next_irq := next_irq s', mem_fails := mem_fails s' \<rparr>" unfolding s' by simp
  moreover have "node_ok (s\<lparr> rebalance_irq_list := xs \<rparr>) n = node_ok s n" for n
    by (cases n) (simp_all add: node_ok_def no_node_known_def)
  ultimately show ?thesis using assms by (simp add: db_grows_def new_irq_def)
qed

lemma db_step_trans [trans]:
  assumes "db_step s s'" "db_step s' s''"
  shows "db_step s s''"
proof -
  obtain s1 xs where 1: "db_grows s s1" "s' = s1\<lparr> rebalance_irq_list := xs \<rparr>" using assms(1) by (auto simp: db_step_def)
  obtain s2 ys where 2: "db_grows s' s2" "s'' = s2\<lparr> rebalance_irq_list := ys \<rparr>" using assms(2) by (auto simp: db_step_def)
  let ?t = "s2\<lparr> rebalance_irq_list := rebalance_irq_list s1 \<rparr>"
  have "db_grows s ?t" using db_grows_trans [OF 1(1) db_grows_rebalance] 2(1) 1(2) by blast
  moreover have "s'' = ?t\<lparr> rebalance_irq_list := ys \<rparr>" using 2(2) by simp
  ultimately show ?thesis unfolding db_step_def by blast
qed


lemma db_inv_queue:
  assumes inv: "db_inv s1" and r: "r \<in> set (interrupts_db s1) \<or> r \<in> set (banned_irqs s1)"
    and fresh: "r \<in> set (interrupts_db s1) \<Longrightarrow> i_assigned_obj (irqs s1 r) = None \<and> r \<notin> set (rebalance_irq_list s1)"
  shows "db_step s1 (force_rebalance_irq r s1) \<and> db_inv (force_rebalance_irq r s1)"
proof (cases "i_level (irqs s1 r) = BALANCE_NONE")
  case True
  then show ?thesis using inv by (simp add: force_rebalance_irq_def)
next
  case False
  with inv r have db: "r \<in> set (interrupts_db s1)" by (auto simp: db_inv_def)
  with fresh False have eq: "force_rebalance_irq r s1 = s1\<lparr> rebalance_irq_list := rebalance_irq_list s1 @ [r] \<rparr>"
    by (simp add: force_rebalance_irq_def)
  have "irqs_ok (force_rebalance_irq r s1)"
    by (rule irqs_ok_force_rebalance [OF db_invD(1) [OF inv] db]) (use fresh db in blast)
  with inv have "db_inv (force_rebalance_irq r s1)" by (simp add: db_inv_def eq)
  moreover have "db_step s1 (force_rebalance_irq r s1)" unfolding db_step_def eq using db_grows_refl by blast
  ultimately show ?thesis by blast
qed

lemma hotplug_step:
  assumes inv: "db_inv s" and un: "get_irq_info irq s = None"
  shows "db_step s (snd (proc_irq_hotplug sys line irq s)) \<and> db_inv (snd (proc_irq_hotplug sys line irq s))
    \<and> (\<forall>r. fst (proc_irq_hotplug sys line irq s) = Some r \<longrightarrow>
         r \<in> set (interrupts_db (snd (proc_irq_hotplug sys line irq s))) \<or> r \<in> set (banned_irqs (snd (proc_irq_hotplug sys line irq s))))"
proof -
  have queue: "db_step s (force_rebalance_irq r s1) \<and> db_inv (force_rebalance_irq r s1)
      \<and> (r \<in> set (interrupts_db (force_rebalance_irq r s1)) \<or> r \<in> set (banned_irqs (force_rebalance_irq r s1)))"
    if g: "db_grows s s1" "db_inv s1" and r: "get_irq_info irq s1 = Some r" for s1 r
  proof -
    note r' = get_irq_info_Some [OF r]
    have notin: "r \<notin> set (interrupts_db s)"
    proof
      assume a: "r \<in> set (interrupts_db s)"
      with db_invD(2) [OF inv a] g(1) have "irqs s1 r = irqs s r" by (simp add: db_grows_def)
      with r' un a show False by (auto simp: get_irq_info_None)
    qed
    have "i_assigned_obj (irqs s1 r) = None \<and> r \<notin> set (rebalance_irq_list s1)" if "r \<in> set (interrupts_db s1)"
    proof
      show "i_assigned_obj (irqs s1 r) = None" using g(1) that notin unfolding db_grows_def new_irq_def by blast
      have "set (rebalance_irq_list s) \<subseteq> set (interrupts_db s)"
        using db_invD(1) [OF inv] get_list.simps(1) [of s] unfolding irqs_ok_def by metis
      with notin show "r \<notin> set (rebalance_irq_list s1)" by (auto simp: db_grows_sel [OF g(1)])
    qed
    then have "db_step s1 (force_rebalance_irq r s1) \<and> db_inv (force_rebalance_irq r s1)"
      using db_inv_queue [OF g(2)] r' by blast
    moreover have "interrupts_db (force_rebalance_irq r s1) = interrupts_db s1" "banned_irqs (force_rebalance_irq r s1) = banned_irqs s1"
      using same_frame_force_rebalance [of s1 r] by (simp_all add: same_frame_def)
    ultimately show ?thesis using db_step_trans [OF db_stepI [OF g(1)]] r' by simp
  qed
  obtain ro s1 where b: "build_dev_irqs sys irq s = (ro, s1)" by fastforce
  then have s1: "db_grows s s1" "db_inv s1" "\<And>r. ro = Some r \<Longrightarrow> get_irq_info irq s1 = Some r"
    using build_dev_step [OF inv, of sys irq] by auto
  show ?thesis
  proof (cases ro)
    case (Some r)
    with queue [OF s1(1,2)] s1(3) b show ?thesis by (simp add: proc_irq_hotplug_def)
  next
    case None
    obtain info s2 where i: "init_irq_class_and_type line zero_irq irq s1 = (info, s2)" by fastforce
    then obtain fs where "s2 = s1\<lparr> mem_fails := fs \<rparr>" using init_irq_state [of line zero_irq irq s1] by auto
    then have s2: "db_grows s s2" "db_inv s2" using s1 db_grows_trans [OF s1(1) db_mem(2)] by simp_all
    let ?s3 = "add_new_irq sys None info s2"
    have s3: "db_grows s ?s3" "db_inv ?s3" using add_new_step [OF s2(2)] db_grows_trans [OF s2(1)] by blast+
    show ?thesis
    proof (cases "get_irq_info irq ?s3")
      case none: None
      with None b i s3 db_stepI show ?thesis by (simp add: proc_irq_hotplug_def)
    next
      case (Some r)
      with None b i queue [OF s3 Some] show ?thesis by (simp add: proc_irq_hotplug_def)
    qed
  qed
qed

text \<open>Rebuilding the database from an empty one.\<close>

lemma db_inv_free:
  assumes "\<forall>d. t_interrupts (objs s d) = []" and "\<forall>r \<in> set (cl_banned_irqs s). r < next_irq s"
  shows "db_inv (free_irq_db s)"
proof -
  have "get_list l (free_irq_db s) = []" for l using assms(1) by (cases l) (simp_all add: free_irq_db_def)
  then show ?thesis using assms(2) by (simp add: db_inv_def irqs_ok_def) (simp add: free_irq_db_def)
qed

lemma add_all_step:
  fixes f :: "'a \<Rightarrow> state \<Rightarrow> state"
  assumes "db_inv s" and "\<And>x s. db_inv s \<Longrightarrow> db_grows s (f x s) \<and> db_inv (f x s)"
  shows "db_grows s (fold f xs s) \<and> db_inv (fold f xs s)"
  by (rule fold_invariant_on [where I = "\<lambda>t. db_grows s t \<and> db_inv t"]) (use assms in \<open>auto intro: db_grows_trans\<close>)

lemma rebuild_step:
  assumes "\<forall>d. t_interrupts (objs s d) = []" and "\<forall>r \<in> set (cl_banned_irqs s). r < next_irq s"
  shows "db_grows (free_irq_db s) (rebuild_irq_db sys s) \<and> db_inv (rebuild_irq_db sys s)"
proof -
  let ?s0 = "free_irq_db s"
  have s0: "db_inv ?s0" by (rule db_inv_free [OF assms])
  obtain infos s1 where c: "collect_full_irq_list sys ?s0 = (infos, s1)" by fastforce
  then obtain fs where "s1 = ?s0\<lparr> mem_fails := fs \<rparr>" using collect_full_state [of sys ?s0] by auto
  with s0 have s1: "db_grows ?s0 s1" "db_inv s1" by simp_all
  let ?s2 = "snd (build_dev_irqs sys (- 1) s1)"
  have s2: "db_grows ?s0 ?s2" "db_inv ?s2" using build_dev_step [OF s1(2)] db_grows_trans [OF s1(1)] by blast+
  have "db_grows ?s2 (fold (\<lambda>r s. add_new_irq sys None (irqs s r) s) xs ?s2) \<and> db_inv (fold (\<lambda>r s. add_new_irq sys None (irqs s r) s) xs ?s2)"
    "db_grows ?s2 (fold (add_new_irq sys None) infos ?s2) \<and> db_inv (fold (add_new_irq sys None) infos ?s2)" for xs
    by (rule add_all_step [OF s2(2)], rule add_new_step, assumption)+
  then show ?thesis using db_grows_trans [OF s2(1)] by (simp add: rebuild_irq_db_def Let_def c)
qed


section \<open>Interrupts that have gone\<close>

definition shrinks :: "state \<Rightarrow> state \<Rightarrow> bool" where
  "shrinks s s' \<longleftrightarrow>
     s' = s\<lparr> objs := objs s', irqs := irqs s', interrupts_db := interrupts_db s', banned_irqs := banned_irqs s',
            rebalance_irq_list := rebalance_irq_list s' \<rparr> \<and>
     (\<forall>d. shape (objs s' d) = shape (objs s d)) \<and>
     (\<forall>r. (irqs s' r)\<lparr> i_existing := False \<rparr> = (irqs s r)\<lparr> i_existing := False \<rparr>) \<and>
     set (interrupts_db s') \<subseteq> set (interrupts_db s) \<and> set (banned_irqs s') \<subseteq> set (banned_irqs s)"

lemma shrinks_refl [simp]: "shrinks s s"
  by (simp add: shrinks_def)

lemma shrinks_trans [trans]:
  assumes 1: "shrinks s s'" and 2: "shrinks s' s''"
  shows "shrinks s s''"
proof -
  from 1 obtain o1 i1 d1 b1 r1 where a: "s' = s\<lparr> objs := o1, irqs := i1, interrupts_db := d1, banned_irqs := b1, rebalance_irq_list := r1 \<rparr>"
    unfolding shrinks_def by blast
  from 2 obtain o2 i2 d2 b2 r2 where b: "s'' = s'\<lparr> objs := o2, irqs := i2, interrupts_db := d2, banned_irqs := b2, rebalance_irq_list := r2 \<rparr>"
    unfolding shrinks_def by blast
  have "s'' = s\<lparr> objs := objs s'', irqs := irqs s'', interrupts_db := interrupts_db s'', banned_irqs := banned_irqs s'',
            rebalance_irq_list := rebalance_irq_list s'' \<rparr>" unfolding b a by simp
  with 1 2 show ?thesis unfolding shrinks_def by (metis subset_trans)
qed

text \<open>Removing the interrupt with a number from a list on which numbers are unique.\<close>

lemma remove_unique:
  assumes "inj_on (\<lambda>r. i_irq (irqs s r)) A" "set xs \<subseteq> A" "r \<in> A" "distinct xs"
  shows "set (remove_first (same_irq s (i_irq (irqs s r))) xs) = set xs - {r}"
proof (cases "r \<in> set xs")
  case True
  have "find (same_irq s (i_irq (irqs s r))) xs = Some r"
    by (rule find_unique [OF True]) (use assms in \<open>auto simp: same_irq_def inj_on_def\<close>)
  with assms(4) show ?thesis by (rule set_remove_first_distinct)
next
  case False
  have "find (same_irq s (i_irq (irqs s r))) xs = None"
    using assms False by (auto simp: find_None_iff same_irq_def inj_on_def)
  with False show ?thesis by (simp add: remove_first_find_None)
qed

lemma irqs_ok_remove:
  assumes ok: "irqs_ok s" and s': "irqs s' = irqs s" "distinct (interrupts_db s')" "set (interrupts_db s') = set (interrupts_db s) - {r}"
    and lists: "\<And>l. distinct (get_list l s')" "\<And>l. set (get_list l s') = set (get_list l s) - {r}"
  shows "irqs_ok s'"
proof -
  have "set (t_interrupts (objs s' d)) = set (t_interrupts (objs s d)) - {r}" for d using lists(2) [of "Interrupts d"] by simp
  moreover have "inj_on (\<lambda>r. i_irq (irqs s r)) (set (interrupts_db s) - {r})"
    using ok by (auto simp: irqs_ok_def intro: inj_on_subset)
  ultimately show ?thesis using ok s' lists unfolding irqs_ok_def by auto
qed

lemma remove_step:
  assumes inv: "db_inv s" and r: "r \<in> set (interrupts_db s) \<union> set (banned_irqs s)"
  shows "db_inv (remove_no_existing_irq r s) \<and> shrinks s (remove_no_existing_irq r s) \<and>
    (let gone = (if i_existing (irqs s r) then {} else {r})
     in set (interrupts_db (remove_no_existing_irq r s)) = set (interrupts_db s) - gone \<and>
        set (banned_irqs (remove_no_existing_irq r s)) = set (banned_irqs s) - gone) \<and>
    (\<forall>q. i_existing (irqs (remove_no_existing_irq r s) q) = (q \<noteq> r \<and> i_existing (irqs s q)))"
proof (cases "i_existing (irqs s r)")
  case True
  let ?s = "upd_irq r (i_existing_update (\<lambda>_. False)) s"
  have "irqs_ok ?s = irqs_ok s" by (rule irqs_ok_upd_irq) simp_all
  moreover have "i_irq (irqs ?s q) = i_irq (irqs s q)" "i_level (irqs ?s q) = i_level (irqs s q)" for q by simp_all
  ultimately have "db_inv ?s" using inv unfolding db_inv_def by simp
  moreover have "shrinks s ?s" by (simp add: shrinks_def upd_irq_def)
  ultimately show ?thesis using True by (simp add: remove_no_existing_irq_def)
next
  case False
  define same where "same = same_irq s (i_irq (irqs s r))"
  define s' where "s' = remove_no_existing_irq r s"
  let ?A = "set (interrupts_db s) \<union> set (banned_irqs s)"
  have inj: "inj_on (\<lambda>r. i_irq (irqs s r)) ?A" using inv by (simp add: db_inv_def)
  have ok: "irqs_ok s" by (rule db_invD(1) [OF inv])
  have dist: "distinct (interrupts_db s)" "distinct (banned_irqs s)" "\<And>l. distinct (get_list l s)" "\<And>l. set (get_list l s) \<subseteq> ?A"
    using inv unfolding db_inv_def irqs_ok_def by auto
  have rem: "set (remove_first same xs) = set xs - {r}" if "set xs \<subseteq> ?A" "distinct xs" for xs
    unfolding same_def by (rule remove_unique [OF inj that(1) r that(2)])
  let ?t = "s\<lparr> interrupts_db := remove_first same (interrupts_db s), banned_irqs := remove_first same (banned_irqs s),
        rebalance_irq_list := remove_first same (rebalance_irq_list s) \<rparr>"
  let ?f = "\<lambda>x. x\<lparr> t_interrupts := remove_first same (t_interrupts x), t_slots_left := INT_MAX \<rparr>"
  have s': "s' = (case i_assigned_obj (irqs s r) of None \<Rightarrow> ?t
      | Some d \<Rightarrow> if find same (t_interrupts (objs s d)) \<noteq> None then upd_obj d ?f ?t else ?t)"
    using False by (simp add: s'_def remove_no_existing_irq_def Let_def same_def split: option.split)
  have sel: "irqs s' = irqs s" "interrupts_db s' = remove_first same (interrupts_db s)"
    "banned_irqs s' = remove_first same (banned_irqs s)" "next_irq s' = next_irq s" "cl_banned_irqs s' = cl_banned_irqs s"
    by (simp_all add: s' split: option.split)
  have lists: "distinct (get_list l s') \<and> set (get_list l s') = set (get_list l s) - {r}" for l
  proof (cases "\<exists>d. l = Interrupts d \<and> r \<notin> set (get_list l s)")
    case True
    then obtain d where l: "l = Interrupts d" "r \<notin> set (t_interrupts (objs s d))" by auto
    have "remove_first same (t_interrupts (objs s d)) = t_interrupts (objs s d)" if "find same (t_interrupts (objs s d)) = None"
      using that by (rule remove_first_find_None)
    then have "t_interrupts (objs s' d) = t_interrupts (objs s d) \<or> t_interrupts (objs s' d) = remove_first same (t_interrupts (objs s d))"
      by (auto simp: s' split: option.split)
    with l rem [of "t_interrupts (objs s d)"] dist(3,4) [of "Interrupts d"] show ?thesis by auto
  next
    case False
    have "get_list l s' = remove_first same (get_list l s)"
    proof (cases l)
      case RebalanceList
      then show ?thesis by (simp add: s' split: option.split)
    next
      case (Interrupts d)
      with False have on: "r \<in> set (t_interrupts (objs s d))" by auto
      with ok have "i_assigned_obj (irqs s r) = Some d"
        using interrupts_assigned [OF ok on] by (simp add: assigned_to_def)
      moreover from on have "find same (t_interrupts (objs s d)) \<noteq> None" by (auto simp: find_None_iff same_def same_irq_def)
      ultimately show ?thesis using Interrupts by (simp add: s')
    qed
    with rem [OF dist(4,3), of l] dist(3) [of l] show ?thesis by simp
  qed
  have db: "set (interrupts_db s') = set (interrupts_db s) - {r}" "set (banned_irqs s') = set (banned_irqs s) - {r}"
    using rem dist by (simp_all add: sel)
  have "irqs_ok s'" by (rule irqs_ok_remove [OF ok sel(1) _ db(1)]) (use lists dist in \<open>auto simp: sel\<close>)
  then have "db_inv s'" unfolding db_inv_def db sel(1,4,5)
    using inv dist inj by (auto simp: db_inv_def sel intro: inj_on_subset)
  moreover have "shrinks s s'" unfolding shrinks_def db using sel
    by (auto simp: s' upd_obj_def shape_def split: option.split)
  moreover have "i_existing (irqs s' q) = (q \<noteq> r \<and> i_existing (irqs s q))" for q using False by (auto simp: sel)
  ultimately show ?thesis using db False unfolding s'_def [symmetric] by simp
qed

lemma remove_all:
  assumes "db_inv s" "distinct rs" "set rs \<subseteq> set (interrupts_db s) \<union> set (banned_irqs s)"
  shows "db_inv (fold remove_no_existing_irq rs s) \<and> shrinks s (fold remove_no_existing_irq rs s) \<and>
    (let gone = {r \<in> set rs. \<not> i_existing (irqs s r)}
     in set (interrupts_db (fold remove_no_existing_irq rs s)) = set (interrupts_db s) - gone \<and>
        set (banned_irqs (fold remove_no_existing_irq rs s)) = set (banned_irqs s) - gone) \<and>
    (\<forall>q. i_existing (irqs (fold remove_no_existing_irq rs s) q) = (q \<notin> set rs \<and> i_existing (irqs s q)))"
  using assms
proof (induction rs arbitrary: s)
  case (Cons r rs)
  let ?s = "remove_no_existing_irq r s"
  have r: "r \<in> set (interrupts_db s) \<union> set (banned_irqs s)" using Cons.prems by auto
  note st = remove_step [OF Cons.prems(1) r, unfolded Let_def]
  have "set rs \<subseteq> set (interrupts_db ?s) \<union> set (banned_irqs ?s)" using Cons.prems st by (auto split: if_splits)
  moreover have "distinct rs" using Cons.prems(2) by simp
  ultimately have IH: "db_inv (fold remove_no_existing_irq rs ?s) \<and> shrinks ?s (fold remove_no_existing_irq rs ?s) \<and>
      (set (interrupts_db (fold remove_no_existing_irq rs ?s)) = set (interrupts_db ?s) - {r \<in> set rs. \<not> i_existing (irqs ?s r)} \<and>
       set (banned_irqs (fold remove_no_existing_irq rs ?s)) = set (banned_irqs ?s) - {r \<in> set rs. \<not> i_existing (irqs ?s r)}) \<and>
      (\<forall>q. i_existing (irqs (fold remove_no_existing_irq rs ?s) q) = (q \<notin> set rs \<and> i_existing (irqs ?s q)))"
    using Cons.IH [of ?s, unfolded Let_def] st by blast
  have "{q \<in> set (r # rs). \<not> i_existing (irqs s q)} = (if i_existing (irqs s r) then {} else {r}) \<union> {q \<in> set rs. \<not> i_existing (irqs ?s q)}"
    using st Cons.prems(2) by auto
  moreover have "shrinks s (fold remove_no_existing_irq rs ?s)" using shrinks_trans st IH by blast
  ultimately show ?case using IH st by (simp add: Let_def Diff_eq Int_assoc) blast
qed simp

lemma clear_step:
  assumes inv: "db_inv s"
  shows "db_inv (clear_no_existing_irqs s) \<and> shrinks s (clear_no_existing_irqs s) \<and>
    set (interrupts_db (clear_no_existing_irqs s)) = {r \<in> set (interrupts_db s). i_existing (irqs s r)} \<and>
    set (banned_irqs (clear_no_existing_irqs s)) = {r \<in> set (banned_irqs s). i_existing (irqs s r)}"
proof -
  let ?s1 = "fold remove_no_existing_irq (interrupts_db s) s"
  have dist: "distinct (interrupts_db s)" and disj: "set (interrupts_db s) \<inter> set (banned_irqs s) = {}"
    using inv by (auto simp: db_inv_def irqs_ok_def)
  note 1 = remove_all [OF inv dist, unfolded Let_def]
  have s1: "db_inv ?s1" "shrinks s ?s1" "set (interrupts_db ?s1) = {r \<in> set (interrupts_db s). i_existing (irqs s r)}"
    "set (banned_irqs ?s1) = set (banned_irqs s)" "\<And>q. q \<notin> set (interrupts_db s) \<Longrightarrow> i_existing (irqs ?s1 q) = i_existing (irqs s q)"
    using 1 disj by auto
  let ?s2 = "fold remove_no_existing_irq (banned_irqs ?s1) ?s1"
  have "distinct (banned_irqs ?s1)" using s1(1) by (simp add: db_inv_def)
  note 2 = remove_all [OF s1(1) this, unfolded Let_def]
  have ex: "i_existing (irqs ?s1 q) = i_existing (irqs s q)" if "q \<in> set (banned_irqs s)" for q
    using s1(5) [of q] that disj by auto
  have s2: "db_inv ?s2" "shrinks s ?s2" "set (interrupts_db ?s2) = set (interrupts_db ?s1)"
    "set (banned_irqs ?s2) = {r \<in> set (banned_irqs s). i_existing (irqs s r)}"
    using 2 s1 shrinks_trans [OF s1(2)] disj ex by (auto simp: s1(4))
  have "clear_no_existing_irqs s = (if banned_irqs ?s1 \<noteq> [] then ?s2 else ?s1)"
    by (simp add: clear_no_existing_irqs_def for_each_irq_def Let_def)
  with s1 s2 show ?thesis by (cases "banned_irqs ?s1 = []") auto
qed


section \<open>Properties\<close>

lemma length_class_tables: "length major_class_codes = PCI_MAX_CLASS" "length serial_sub_codes = PCI_MAX_SERIAL_SUBCLASS"
  "length map_class_to_level = 8"
  by (simp_all add: major_class_codes_def serial_sub_codes_def map_class_to_level_def PCI_MAX_CLASS_def PCI_MAX_SERIAL_SUBCLASS_def)

lemma class_tables_range:
  "\<forall>c \<in> set major_class_codes. IRQ_NODEF \<le> c \<and> c \<le> IRQ_ETH" "\<forall>c \<in> set serial_sub_codes. IRQ_NODEF \<le> c \<and> c \<le> IRQ_ETH"
  by (auto simp: major_class_codes_def serial_sub_codes_def IRQ_NODEF_def IRQ_OTHER_def IRQ_SCSI_def IRQ_ETH_def
      IRQ_VIDEO_def IRQ_LEGACY_def)

lemma map_pci_irq_class_range: "IRQ_NODEF \<le> map_pci_irq_class c \<and> map_pci_irq_class c \<le> IRQ_ETH"
proof -
  have "IRQ_NODEF \<le> xs ! i \<and> xs ! i \<le> IRQ_ETH" if "i < length xs" "\<forall>c \<in> set xs. IRQ_NODEF \<le> c \<and> c \<le> IRQ_ETH" for xs i
    using that nth_mem by blast
  then show ?thesis using class_tables_range length_class_tables
    by (auto simp: map_pci_irq_class_def Let_def not_le) (simp_all add: IRQ_NODEF_def IRQ_ETH_def)
qed

text \<open>
  The classification never leaves its tables: every PCI class code gives the undefined class or a
  class between "other" and "ethernet", the quirks give such a class as well, and so the index into
  the table of balance levels is always valid.
\<close>

theorem pci_classes_in_range:
  "IRQ_NODEF \<le> get_irq_class sys devpath \<and> get_irq_class sys devpath \<le> IRQ_ETH
    \<and> (get_irq_class sys devpath = IRQ_NODEF \<or> nat (get_irq_class sys devpath) < length map_class_to_level)
    \<and> length major_class_codes = PCI_MAX_CLASS \<and> length serial_sub_codes = PCI_MAX_SERIAL_SUBCLASS"
proof -
  have "IRQ_NODEF \<le> get_irq_class sys devpath \<and> get_irq_class sys devpath \<le> IRQ_ETH"
  proof (cases "get_pci_info sys devpath")
    case (Some pci)
    with map_pci_irq_class_range [of "pci_cls pci"] show ?thesis
      by (simp add: get_irq_class_def apply_pci_quirks_def Let_def IRQ_NODEF_def IRQ_ETH_def IRQ_SCSI_def)
  qed (simp add: get_irq_class_def IRQ_NODEF_def IRQ_ETH_def)
  then show ?thesis using length_class_tables by (auto simp: IRQ_NODEF_def IRQ_ETH_def)
qed

lemma rebuild_sound:
  assumes "\<forall>d. t_interrupts (objs s d) = []" and "\<forall>b \<in> set (cl_banned_irqs s). b < next_irq s"
  shows "db_inv (rebuild_irq_db sys s) \<and>
    (\<forall>r \<in> set (interrupts_db (rebuild_irq_db sys s)).
       i_assigned_obj (irqs (rebuild_irq_db sys s) r) = None \<and> node_ok s (i_numa_node (irqs (rebuild_irq_db sys s) r)) \<and>
       (\<forall>b \<in> set (cl_banned_irqs s). i_irq (irqs (rebuild_irq_db sys s) r) \<noteq> i_irq (irqs s b)))"
proof -
  have "node_ok (free_irq_db s) n = node_ok s n" for n
    by (cases n) (simp_all add: node_ok_def no_node_known_def free_irq_db_def)
  moreover have "interrupts_db (free_irq_db s) = []" "cl_banned_irqs (free_irq_db s) = cl_banned_irqs s"
    "next_irq (free_irq_db s) = next_irq s" "irqs (free_irq_db s) = irqs s" by (simp_all add: free_irq_db_def)
  ultimately show ?thesis using rebuild_step [OF assms, of sys] assms(2) by (auto simp: db_grows_def new_irq_def)
qed

text \<open>
  A rebuilt database is sound. Starting from objects without interrupts, every interrupt of the
  database is new, unassigned and has a number of its own that no banned interrupt has; no interrupt
  banned on the command line is among them; its NUMA node is a node of the topology unless not
  even the unspecified node could be allocated.
\<close>

theorem rebuild_irq_db_is_sound:
  assumes "\<forall>d. t_interrupts (objs s d) = []" and "\<forall>b \<in> set (cl_banned_irqs s). b < next_irq s"
  shows "db_inv (rebuild_irq_db sys s) \<and>
    (\<forall>r \<in> set (interrupts_db (rebuild_irq_db sys s)).
       i_assigned_obj (irqs (rebuild_irq_db sys s) r) = None \<and> node_ok s (i_numa_node (irqs (rebuild_irq_db sys s) r)) \<and>
       (\<forall>b \<in> set (cl_banned_irqs s). i_irq (irqs (rebuild_irq_db sys s) r) \<noteq> i_irq (irqs s b)))"
  by (rule rebuild_sound [OF assms])


text \<open>
  Hotplug: an interrupt number that is not known yet is added to the database or to the banned
  interrupts, and the invariant of the database, including the agreement of the lists, is kept
  although the interrupt is queued at once; without memory it may fail, which also keeps it.
\<close>

theorem proc_irq_hotplug_keeps_database:
  assumes "db_inv s" and "get_irq_info irq s = None" and "proc_irq_hotplug sys line irq s = (result, s')"
  shows "db_inv s' \<and> (case result of None \<Rightarrow> True | Some r \<Rightarrow> r \<in> set (interrupts_db s') \<or> r \<in> set (banned_irqs s'))"
  using hotplug_step [OF assms(1,2), of sys line] assms(3) by (cases result) auto


end
