(* ===== verification/Placement.thy ===== *)
theory Placement
  imports Topology
begin

text \<open>
  The placement of \<open>placement.c\<close>: every interrupt on the rebalance list is given to a NUMA node
  and then handed down, object by object, to the level it is balanced at. \<open>find_best_object\<close> is
  related to the least candidate under an explicit order, and every step keeps the invariant of
  the interrupt lists.
\<close>

section \<open>Sorting\<close>

text \<open>\<open>sort_irqs\<close>: addresses break ties.\<close>

definition sort_irqs :: "state \<Rightarrow> irq_ref \<Rightarrow> irq_ref \<Rightarrow> int" where
  "sort_irqs s a b =
     (if i_class (irqs s a) < i_class (irqs s b) then 1
      else if i_class (irqs s a) > i_class (irqs s b) then - 1
      else if i_load (irqs s a) < i_load (irqs s b) then 1
      else if i_load (irqs s a) > i_load (irqs s b) then - 1
      else if a < b then 1 else - 1)"

text \<open>
  \<open>g_list_sort\<close> belongs to GLib and is a parameter. Its documentation promises a list of the same
  elements, in the order of the comparison function where that is a total order of them.
\<close>

type_synonym sorter = "(irq_ref \<Rightarrow> irq_ref \<Rightarrow> int) \<Rightarrow> irq_ref list \<Rightarrow> irq_ref list"

definition orders :: "(irq_ref \<Rightarrow> irq_ref \<Rightarrow> int) \<Rightarrow> irq_ref set \<Rightarrow> bool" where
  "orders cmp A \<longleftrightarrow>
     (\<forall>a \<in> A. \<forall>b \<in> A. \<forall>c \<in> A. cmp a b \<le> 0 \<longrightarrow> cmp b c \<le> 0 \<longrightarrow> cmp a c \<le> 0) \<and>
     (\<forall>a \<in> A. \<forall>b \<in> A. cmp a b \<le> 0 \<or> cmp b a \<le> 0)"

definition sorts :: "sorter \<Rightarrow> bool" where
  "sorts g_list_sort \<longleftrightarrow> (\<forall>cmp xs. mset (g_list_sort cmp xs) = mset xs \<and>
     (orders cmp (set xs) \<longrightarrow> sorted_wrt (\<lambda>a b. cmp a b \<le> 0) (g_list_sort cmp xs)))"

definition sort_irq_list :: "sorter \<Rightarrow> irq_list \<Rightarrow> state \<Rightarrow> state" where
  "sort_irq_list g_list_sort l s = set_list l (g_list_sort (sort_irqs s) (get_list l s)) s"

section \<open>Choosing an object\<close>

record obj_placement =
  best :: "obj_ref option"
  best_cost :: u64

definition SLOTS_PENALTY_THRESHOLD :: int where
  "SLOTS_PENALTY_THRESHOLD = 10"

definition SLOTS_PENALTY_FACTOR :: u64 where
  "SLOTS_PENALTY_FACTOR = 1000"

definition slots_penalty :: "topo_obj \<Rightarrow> u64" where
  "slots_penalty d =
     (if t_slots_left d < SLOTS_PENALTY_THRESHOLD
      then of_int (SLOTS_PENALTY_THRESHOLD - t_slots_left d) * SLOTS_PENALTY_FACTOR else 0)"

definition find_best_object :: "state \<Rightarrow> obj_ref \<Rightarrow> obj_placement \<Rightarrow> obj_placement" where
  "find_best_object s r place =
     (let d = objs s r
      in if numa_avail s \<and> t_obj_type d = OBJ_TYPE_NODE \<and> t_number d = NUMA_NO_NODE then place
         else if t_obj_type d = OBJ_TYPE_NODE \<and> \<not> cpus_intersects (t_mask d) (unbanned_cpus s) then place
         else if t_powersave_mode d then place
         else if t_slots_left d \<le> 0 then place
         else
           let newload = t_load d;
               adjusted_cost = newload + slots_penalty d;
               best_adjusted_cost =
                 (case best place of
                    Some b \<Rightarrow> best_cost place + slots_penalty (objs s b)
                  | None \<Rightarrow> - 1)
           in if adjusted_cost < best_adjusted_cost then \<lparr> best = Some r, best_cost = newload \<rparr>
              else if adjusted_cost = best_adjusted_cost \<and>
                (case best place of
                   None \<Rightarrow> True
                 | Some b \<Rightarrow> t_slots_left d > t_slots_left (objs s b) \<or>
                     (t_slots_left d = t_slots_left (objs s b) \<and>
                      length (t_interrupts d) < length (t_interrupts (objs s b))))
              then \<lparr> best = Some r, best_cost = newload \<rparr>
              else place)"

definition best_placement :: "state \<Rightarrow> obj_ref list \<Rightarrow> obj_ref option" where
  "best_placement s candidates =
     best (for_each_object candidates (find_best_object s) \<lparr> best = None, best_cost = - 1 \<rparr>)"

definition find_best_object_for_irq :: "obj_ref \<Rightarrow> irq_ref \<Rightarrow> state \<Rightarrow> state" where
  "find_best_object_for_irq d info s =
     (if \<not> i_moved (irqs s info) then s
      else if (case t_obj_type (objs s d) of
                 OBJ_TYPE_NODE \<Rightarrow> i_level (irqs s info) = BALANCE_NONE
               | OBJ_TYPE_PACKAGE \<Rightarrow> i_level (irqs s info) = BALANCE_PACKAGE
               | OBJ_TYPE_CACHE \<Rightarrow> i_level (irqs s info) = BALANCE_CACHE
               | OBJ_TYPE_CPU \<Rightarrow> i_level (irqs s info) = BALANCE_CORE) then s
      else (case best_placement s (t_children (objs s d)) of
              None \<Rightarrow> s
            | Some b \<Rightarrow> migrate_irq_obj (Some d) (Some b) info s))"

definition place_irq_in_object :: "obj_ref \<Rightarrow> state \<Rightarrow> state" where
  "place_irq_in_object d s =
     (if length (t_interrupts (objs s d)) > 0
      then for_each_irq (interrupts_db s) (t_interrupts (objs s d)) (find_best_object_for_irq d) s
      else s)"

text \<open>
  The macro \<open>irq_numa_node\<close>, dereferenced by its users: what a null pointer gives is left open.
\<close>

definition irq_numa_node :: "irq_ref \<Rightarrow> state \<Rightarrow> obj_ref" where
  "irq_numa_node info s = the (i_numa_node (irqs s info))"

definition place_irq_in_node :: "irq_ref \<Rightarrow> state \<Rightarrow> state" where
  "place_irq_in_node info s =
     (if i_level (irqs s info) = BALANCE_NONE \<and> cpus_empty (banned_cpus s) then s
      else if (t_number (objs s (irq_numa_node info s)) \<noteq> NUMA_NO_NODE \<or> \<not> numa_avail s) \<and>
              cpus_intersects (t_mask (objs s (irq_numa_node info s))) (unbanned_cpus s)
      then migrate_irq_obj None (Some (irq_numa_node info s)) info s
      else (case best_placement s (numa_nodes s) of
              None \<Rightarrow> s
            | Some b \<Rightarrow> migrate_irq_obj None (Some b) info s))"

text \<open>\<open>validate_irq\<close> only logs; the model lists the interrupts it would complain about.\<close>

definition validate_object :: "state \<Rightarrow> obj_ref \<Rightarrow> irq_ref list" where
  "validate_object s d = filter (\<lambda>r. i_assigned_obj (irqs s r) \<noteq> Some d) (t_interrupts (objs s d))"

definition validate_object_tree_placement :: "state \<Rightarrow> irq_ref list" where
  "validate_object_tree_placement s =
     concat (map (validate_object s) (packages s)) @ concat (map (validate_object s) (cache_domains s))
       @ concat (map (validate_object s) (cpus s))"

definition calculate_placement :: "sorter \<Rightarrow> state \<Rightarrow> state" where
  "calculate_placement g_list_sort s =
     (let s = sort_irq_list g_list_sort RebalanceList s
      in if length (rebalance_irq_list s) > 0
         then
           let s = for_each_irq (interrupts_db s) (rebalance_irq_list s) place_irq_in_node s;
               s = for_each_object (numa_nodes s) place_irq_in_object s;
               s = for_each_object (packages s) place_irq_in_object s
           in for_each_object (cache_domains s) place_irq_in_object s
         else s)"


section \<open>The sort order\<close>

lemma sort_irqs_le: "sort_irqs s a b \<le> 0 \<longleftrightarrow>
    (i_class (irqs s b), i_load (irqs s b), b) \<le> (i_class (irqs s a), i_load (irqs s a), a)"
  by (auto simp: sort_irqs_def)

lemma orders_sort_irqs: "orders (sort_irqs s) A"
  unfolding orders_def sort_irqs_le by (meson order_trans linear)

text \<open>A sorting function with the documented behaviour.\<close>

fun insert_by :: "(irq_ref \<Rightarrow> irq_ref \<Rightarrow> int) \<Rightarrow> irq_ref \<Rightarrow> irq_ref list \<Rightarrow> irq_ref list" where
  "insert_by cmp x [] = [x]"
| "insert_by cmp x (y # ys) = (if cmp x y \<le> 0 then x # y # ys else y # insert_by cmp x ys)"

definition insertion_sort :: sorter where
  "insertion_sort cmp xs = foldr (insert_by cmp) xs []"

lemma mset_insert_by [simp]: "mset (insert_by cmp x ys) = add_mset x (mset ys)"
  by (induction ys) auto

lemma set_insert_by [simp]: "set (insert_by cmp x ys) = insert x (set ys)"
  by (induction ys) auto

lemma orders_subset: "orders cmp A \<Longrightarrow> B \<subseteq> A \<Longrightarrow> orders cmp B"
  unfolding orders_def by (meson subsetD)

lemma sorted_insert_by:
  "orders cmp (insert x (set ys)) \<Longrightarrow> sorted_wrt (\<lambda>a b. cmp a b \<le> 0) ys \<Longrightarrow>
   sorted_wrt (\<lambda>a b. cmp a b \<le> 0) (insert_by cmp x ys)"
proof (induction ys)
  case (Cons y ys)
  have ord: "orders cmp (insert x (set ys))"
    by (rule orders_subset [OF Cons.prems(1)]) auto
  have yz: "\<forall>z \<in> set ys. cmp y z \<le> 0" and "sorted_wrt (\<lambda>a b. cmp a b \<le> 0) ys"
    using Cons.prems(2) by auto
  with Cons.IH [OF ord] have ins: "sorted_wrt (\<lambda>a b. cmp a b \<le> 0) (insert_by cmp x ys)" by blast
  show ?case
  proof (cases "cmp x y \<le> 0")
    case True
    have "cmp x z \<le> 0" if "z \<in> set ys" for z
      using Cons.prems(1) yz that True unfolding orders_def by (meson insertI1 insertI2 list.set_intros)
    with True Cons.prems(2) show ?thesis by simp
  next
    case False
    then have "cmp y x \<le> 0"
      using Cons.prems(1) unfolding orders_def by (meson insertI1 insertI2 list.set_intros)
    with False yz ins show ?thesis by simp
  qed
qed simp

lemma sorts_insertion_sort: "sorts insertion_sort"
proof -
  have m: "mset (insertion_sort cmp xs) = mset xs" for cmp xs
    by (induction xs) (auto simp: insertion_sort_def)
  have "sorted_wrt (\<lambda>a b. cmp a b \<le> 0) (insertion_sort cmp xs)" if "orders cmp (set xs)" for cmp xs
    using that
  proof (induction xs)
    case (Cons x xs)
    have "set (insertion_sort cmp xs) = set xs" using m [of cmp xs] by (metis set_mset_mset)
    with Cons orders_subset [OF Cons.prems, of "set xs"] show ?case
      by (auto simp: insertion_sort_def intro!: sorted_insert_by)
  qed (simp add: insertion_sort_def)
  with m show ?thesis by (simp add: sorts_def)
qed

section \<open>The best object\<close>

definition eligible :: "state \<Rightarrow> obj_ref \<Rightarrow> bool" where
  "eligible s r \<longleftrightarrow> (let d = objs s r in
     \<not> (numa_avail s \<and> t_obj_type d = OBJ_TYPE_NODE \<and> t_number d = NUMA_NO_NODE) \<and>
     (t_obj_type d = OBJ_TYPE_NODE \<longrightarrow> cpus_intersects (t_mask d) (unbanned_cpus s)) \<and>
     \<not> t_powersave_mode d \<and> t_slots_left d > 0)"

text \<open>Cost first, then the free slots, then the number of interrupts.\<close>

definition rank :: "state \<Rightarrow> obj_ref \<Rightarrow> u64 \<times> int \<times> nat" where
  "rank s r = (t_load (objs s r) + slots_penalty (objs s r), - t_slots_left (objs s r),
     length (t_interrupts (objs s r)))"

text \<open>The first candidate of least rank.\<close>

definition first_best :: "state \<Rightarrow> obj_ref list \<Rightarrow> obj_ref option \<Rightarrow> bool" where
  "first_best s xs bo \<longleftrightarrow> (case bo of
     None \<Rightarrow> \<forall>c \<in> set xs. \<not> eligible s c
   | Some b \<Rightarrow> eligible s b \<and> (\<exists>ys zs. xs = ys @ b # zs \<and>
       (\<forall>c \<in> set ys. eligible s c \<longrightarrow> rank s b < rank s c) \<and>
       (\<forall>c \<in> set zs. eligible s c \<longrightarrow> rank s b \<le> rank s c)))"

lemma find_best_object_alt:
  assumes "\<forall>b. best place = Some b \<longrightarrow> best_cost place = t_load (objs s b)"
  shows "find_best_object s r place =
    (if eligible s r \<and> (case best place of None \<Rightarrow> True | Some b \<Rightarrow> rank s r < rank s b)
     then \<lparr> best = Some r, best_cost = t_load (objs s r) \<rparr> else place)"
proof (cases "best place")
  case None
  have "x < - 1 \<or> x = (- 1 :: u64)" for x 
    using word_order.extremum [of x] by (auto simp: order_le_less)
  with None show ?thesis
    by (auto simp: find_best_object_def Let_def eligible_def)
next
  case (Some b)
  with assms show ?thesis
    by (auto simp: find_best_object_def Let_def eligible_def rank_def less_prod_def')
qed

lemma first_best_snoc:
  assumes "eligible s r" and "\<forall>c \<in> set xs. eligible s c \<longrightarrow> rank s r < rank s c"
  shows "first_best s (xs @ [r]) (Some r)"
  unfolding first_best_def option.case
  using assms by (intro conjI exI [of _ xs] exI [where x = "[] :: obj_ref list"]) auto

lemma first_best_step:
  assumes "first_best s xs bo"
  shows "first_best s (xs @ [r])
    (if eligible s r \<and> (case bo of None \<Rightarrow> True | Some b \<Rightarrow> rank s r < rank s b) then Some r else bo)"
proof (cases bo)
  case None
  with assms have "\<forall>c \<in> set xs. \<not> eligible s c" by (simp add: first_best_def)
  then show ?thesis using None by (auto intro!: first_best_snoc) (simp add: first_best_def)
next
  case (Some b)
  with assms obtain ys zs where xs: "xs = ys @ b # zs" "eligible s b"
    "\<forall>c \<in> set ys. eligible s c \<longrightarrow> rank s b < rank s c" "\<forall>c \<in> set zs. eligible s c \<longrightarrow> rank s b \<le> rank s c"
    by (auto simp: first_best_def)
  show ?thesis
  proof (cases "eligible s r \<and> rank s r < rank s b")
    case True
    then have "\<forall>c \<in> set xs. eligible s c \<longrightarrow> rank s r < rank s c"
      using xs by (auto intro: less_trans less_le_trans)
    with True Some show ?thesis by (auto intro!: first_best_snoc)
  next
    case False
    then have "xs @ [r] = ys @ b # (zs @ [r]) \<and> (\<forall>c \<in> set (zs @ [r]). eligible s c \<longrightarrow> rank s b \<le> rank s c)"
      using xs by auto
    with xs(2,3) have "first_best s (xs @ [r]) (Some b)" unfolding first_best_def option.case by blast
    with False Some show ?thesis by auto
  qed
qed

lemma best_placement_first_best: "first_best s cs (best_placement s cs)"
proof -
  have "first_best s (ys @ cs) (best (fold (find_best_object s) cs place))"
    if "first_best s ys (best place)" "\<forall>b. best place = Some b \<longrightarrow> best_cost place = t_load (objs s b)" for ys place
    using that
  proof (induction cs arbitrary: ys place)
    case (Cons c cs)
    let ?place = "find_best_object s c place"
    have "best ?place = (if eligible s c \<and> (case best place of None \<Rightarrow> True | Some b \<Rightarrow> rank s c < rank s b)
        then Some c else best place)"
      and "\<forall>b. best ?place = Some b \<longrightarrow> best_cost ?place = t_load (objs s b)"
      using Cons.prems(2) by (auto simp: find_best_object_alt [OF Cons.prems(2)])
    with first_best_step [OF Cons.prems(1), of c] Cons.IH [of "ys @ [c]" ?place] show ?case by simp
  qed simp
  from this [of "[]" "\<lparr> best = None, best_cost = - 1 \<rparr>"] show ?thesis
    by (simp add: best_placement_def for_each_object_def first_best_def)
qed

lemma best_placement_SomeD:
  "best_placement s cs = Some b \<Longrightarrow> b \<in> set cs \<and> eligible s b \<and> (\<forall>c \<in> set cs. eligible s c \<longrightarrow> rank s b \<le> rank s c)"
  using best_placement_first_best [of s cs] by (auto simp: first_best_def less_imp_le)

lemma best_placement_None_iff: "best_placement s cs = None \<longleftrightarrow> (\<forall>c \<in> set cs. \<not> eligible s c)"
  using best_placement_first_best [of s cs] by (auto simp: first_best_def split: option.splits)

section \<open>Invariants of the placement\<close>

text \<open>The objects the two placement steps choose.\<close>

definition node_target :: "state \<Rightarrow> irq_ref \<Rightarrow> obj_ref \<Rightarrow> bool" where
  "node_target s r b \<longleftrightarrow>
     (b = irq_numa_node r s \<and> cpus_intersects (t_mask (objs s b)) (unbanned_cpus s)) \<or>
     (b \<in> set (numa_nodes s) \<and> eligible s b)"

definition stops_at :: "state \<Rightarrow> irq_ref \<Rightarrow> obj_ref \<Rightarrow> bool" where
  "stops_at s r d \<longleftrightarrow> (case t_obj_type (objs s d) of
     OBJ_TYPE_NODE \<Rightarrow> i_level (irqs s r) = BALANCE_NONE
   | OBJ_TYPE_PACKAGE \<Rightarrow> i_level (irqs s r) = BALANCE_PACKAGE
   | OBJ_TYPE_CACHE \<Rightarrow> i_level (irqs s r) = BALANCE_CACHE
   | OBJ_TYPE_CPU \<Rightarrow> i_level (irqs s r) = BALANCE_CORE)"

lemma place_irq_in_node_cases:
  "place_irq_in_node r s = s \<or>
   (\<exists>b. node_target s r b \<and> place_irq_in_node r s = migrate_irq_obj None (Some b) r s)"
  unfolding place_irq_in_node_def node_target_def
  by (cases "best_placement s (numa_nodes s)") (auto dest: best_placement_SomeD)

lemma find_best_object_for_irq_cases:
  "find_best_object_for_irq d r s = s \<or>
   (\<exists>b. b \<in> set (t_children (objs s d)) \<and> eligible s b \<and> \<not> stops_at s r d \<and>
      find_best_object_for_irq d r s = migrate_irq_obj (Some d) (Some b) r s)"
  unfolding find_best_object_for_irq_def stops_at_def [symmetric]
  by (cases "best_placement s (t_children (objs s d))") (auto dest: best_placement_SomeD)

text \<open>
  A property of the state that implies \<open>irqs_ok\<close>, does not depend on the order of the rebalance
  list and is kept by both kinds of migration is kept by the whole placement.
\<close>

locale placement_invariant =
  fixes I :: "state \<Rightarrow> bool"
  assumes ok: "I s \<Longrightarrow> irqs_ok s"
    and sorted: "\<lbrakk> I s; mset xs = mset (rebalance_irq_list s) \<rbrakk> \<Longrightarrow> I (s\<lparr> rebalance_irq_list := xs \<rparr>)"
    and to_node: "\<lbrakk> I s; on_its_list s r; i_assigned_obj (irqs s r) = None; node_target s r b \<rbrakk>
      \<Longrightarrow> I (migrate_irq_obj None (Some b) r s)"
    and to_child: "\<lbrakk> I s; on_its_list s r; i_assigned_obj (irqs s r) = Some d;
        b \<in> set (t_children (objs s d)); eligible s b; \<not> stops_at s r d \<rbrakk>
      \<Longrightarrow> I (migrate_irq_obj (Some d) (Some b) r s)"
begin

definition waiting :: "obj_ref option \<Rightarrow> irq_ref \<Rightarrow> state \<Rightarrow> bool" where
  "waiting d r s \<longleftrightarrow> on_its_list s r \<and> i_assigned_obj (irqs s r) = d"

lemma waiting_migrate:
  assumes "I s" and "waiting d r s" and "from = None \<or> from = d" and "q \<noteq> r" and "waiting d q s"
  shows "waiting d q (migrate_irq_obj from to r s)"
proof -
  have on: "on_its_list s r" and frm: "from = None \<or> from = i_assigned_obj (irqs s r)"
    using assms by (auto simp: waiting_def)
  from on_its_list_migrate(2) [OF ok [OF assms(1)] on frm assms(4)]
    migrate_irq_obj_effect(1) [OF ok [OF assms(1)] on frm, of to] assms(4,5)
  show ?thesis by (simp add: waiting_def)
qed

lemma node_step:
  assumes "I s" and "waiting None r s"
  shows "I (place_irq_in_node r s) \<and> (\<forall>q. q \<noteq> r \<longrightarrow> waiting None q s \<longrightarrow> waiting None q (place_irq_in_node r s))"
  using place_irq_in_node_cases [of r s]
proof (elim disjE exE conjE)
  fix b assume "node_target s r b" "place_irq_in_node r s = migrate_irq_obj None (Some b) r s"
  then show ?thesis using to_node [of s r b] waiting_migrate [OF assms, of None] assms by (simp add: waiting_def)
qed (use assms in simp)

lemma child_step:
  assumes "I s" and "waiting (Some d) r s"
  shows "I (find_best_object_for_irq d r s) \<and>
    (\<forall>q. q \<noteq> r \<longrightarrow> waiting (Some d) q s \<longrightarrow> waiting (Some d) q (find_best_object_for_irq d r s))"
  using find_best_object_for_irq_cases [of d r s]
proof (elim disjE exE conjE)
  fix b assume "b \<in> set (t_children (objs s d))" "eligible s b" "\<not> stops_at s r d"
    "find_best_object_for_irq d r s = migrate_irq_obj (Some d) (Some b) r s"
  then show ?thesis using to_child [of s r d b] waiting_migrate [OF assms, of "Some d"] assms
    by (simp add: waiting_def)
qed (use assms in simp)

lemma rebalance_waiting: "I s \<Longrightarrow> distinct (rebalance_irq_list s) \<and> (\<forall>r \<in> set (rebalance_irq_list s). waiting None r s)"
  using ok [of s] get_list.simps(1) [of s] unfolding irqs_ok_def waiting_def on_its_list_def
  by (metis list_of_inj list_of_simps(1))

lemma object_waiting: "I s \<Longrightarrow> distinct (t_interrupts (objs s d)) \<and> (\<forall>r \<in> set (t_interrupts (objs s d)). waiting (Some d) r s)"
  using ok [of s] get_list.simps(2) [of d s] unfolding irqs_ok_def waiting_def on_its_list_def
  by (metis list_of_inj list_of_simps(2))

lemma place_irq_in_object: "I s \<Longrightarrow> I (place_irq_in_object d s)"
  using fold_each [of "t_interrupts (objs s d)" I s "waiting (Some d)" "find_best_object_for_irq d"]
    object_waiting [of s d] child_step
  by (simp add: place_irq_in_object_def for_each_irq_def)

lemma place_in_objects: "I s \<Longrightarrow> I (for_each_object ds place_irq_in_object s)"
  unfolding for_each_object_def by (rule fold_invariant_on) (auto intro: place_irq_in_object)

lemma place_in_nodes: "I s \<Longrightarrow> I (fold place_irq_in_node (rebalance_irq_list s) s)"
  using fold_each [of "rebalance_irq_list s" I s "waiting None" place_irq_in_node]
    rebalance_waiting [of s] node_step by simp

lemma calculate_placement:
  assumes "I s" and "sorts g_list_sort"
  shows "I (calculate_placement g_list_sort s)"
proof -
  have "I (sort_irq_list g_list_sort RebalanceList s)"
    using assms sorted [OF assms(1)] by (simp add: sort_irq_list_def sorts_def)
  then show ?thesis
    unfolding calculate_placement_def Let_def for_each_irq_def
    by (auto intro!: place_in_objects place_in_nodes)
qed

end

text \<open>Permuting the rebalance list.\<close>

lemma get_list_permuted:
  "get_list l (s\<lparr> rebalance_irq_list := xs \<rparr>) = (if l = RebalanceList then xs else get_list l s)"
  by (cases l) auto

lemma irqs_ok_permuted:
  assumes "irqs_ok s" and "mset xs = mset (rebalance_irq_list s)"
  shows "irqs_ok (s\<lparr> rebalance_irq_list := xs \<rparr>)"
proof -
  have *: "set xs = set (get_list RebalanceList s)" "distinct xs = distinct (get_list RebalanceList s)"
    using assms(2) by (auto dest: mset_eq_setD mset_eq_imp_distinct_iff)
  show ?thesis using assms(1) unfolding irqs_ok_def get_list_permuted
    by (auto simp: * simp del: get_list.simps)
qed

interpretation pl_ok: placement_invariant irqs_ok
  by unfold_locales (auto intro: irqs_ok_permuted irqs_ok_migrate)

interpretation pl_keeps: placement_invariant "\<lambda>s. irqs_ok s \<and> on_its_list s q" for q
proof
  fix s r b assume "irqs_ok s \<and> on_its_list s q" and "on_its_list s r"
  moreover from this have "on_its_list (migrate_irq_obj f t r s) q" if "f = None \<or> f = i_assigned_obj (irqs s r)" for f t
    using on_its_list_migrate [OF _ _ that] by (cases "q = r") auto
  ultimately show "irqs_ok (migrate_irq_obj None (Some b) r s) \<and> on_its_list (migrate_irq_obj None (Some b) r s) q"
    and "i_assigned_obj (irqs s r) = Some d \<Longrightarrow>
      irqs_ok (migrate_irq_obj (Some d) (Some b) r s) \<and> on_its_list (migrate_irq_obj (Some d) (Some b) r s) q" for d
    by (auto intro: irqs_ok_migrate)
qed (auto intro: irqs_ok_permuted simp: on_its_list_def get_list_permuted dest: mset_eq_setD)

subsection \<open>Free slots\<close>

text \<open>
  The slot counters are not negative, and those of the NUMA nodes have their initial value: an
  interrupt is handed to a node without a look at its counter.
\<close>

definition slots_ok :: "state \<Rightarrow> bool" where
  "slots_ok s \<longleftrightarrow> (\<forall>d. 0 \<le> t_slots_left (objs s d) \<and> t_slots_left (objs s d) \<le> INT_MAX \<and>
     (t_obj_type (objs s d) = OBJ_TYPE_NODE \<longrightarrow> t_slots_left (objs s d) = INT_MAX))"

text \<open>The list of nodes holds nodes, and so do the \<open>numa_node\<close> fields of the interrupts.\<close>

definition nodes_typed :: "state \<Rightarrow> bool" where
  "nodes_typed s \<longleftrightarrow> (\<forall>n \<in> set (numa_nodes s). t_obj_type (objs s n) = OBJ_TYPE_NODE) \<and>
     (\<forall>r \<in> set (interrupts_db s). \<exists>n. i_numa_node (irqs s r) = Some n \<and> t_obj_type (objs s n) = OBJ_TYPE_NODE)"

lemma same_frame_type: "same_frame s s' \<Longrightarrow> t_obj_type (objs s' d) = t_obj_type (objs s d)"
  by (simp add: same_frame_def shape_def)

lemma same_frame_children: "same_frame s s' \<Longrightarrow> t_children (objs s' d) = t_children (objs s d)"
  by (simp add: same_frame_def shape_def)

lemma nodes_typed_migrate:
  assumes "irqs_ok s" "on_its_list s r" "from = None \<or> from = i_assigned_obj (irqs s r)" and "nodes_typed s"
  shows "nodes_typed (migrate_irq_obj from to r s)"
proof -
  note eff = migrate_irq_obj_effect [OF assms(1-3), where to = to]
  from eff(3) have "numa_nodes (migrate_irq_obj from to r s) = numa_nodes s"
    "interrupts_db (migrate_irq_obj from to r s) = interrupts_db s" by (simp_all add: same_frame_def)
  with assms(4) show ?thesis
    by (simp add: nodes_typed_def same_frame_type [OF eff(3)] eff(1))
qed

lemma on_its_list_db: "irqs_ok s \<Longrightarrow> on_its_list s r \<Longrightarrow> r \<in> set (interrupts_db s)"
  by (auto simp: irqs_ok_def on_its_list_def)

lemma node_target_type:
  assumes "node_target s r b" and "nodes_typed s" and "r \<in> set (interrupts_db s)"
  shows "t_obj_type (objs s b) = OBJ_TYPE_NODE"
  using assms by (force simp: node_target_def nodes_typed_def irq_numa_node_def)

lemma slots_ok_migrate:
  assumes "irqs_ok s" "on_its_list s r" "from = None \<or> from = i_assigned_obj (irqs s r)" and "slots_ok s"
    and "\<forall>b. to = Some b \<longrightarrow> t_slots_left (objs s b) > 0"
  shows "slots_ok (migrate_irq_obj from to r s)"
proof -
  note slots = migrate_irq_obj_counters(2) [OF assms(1-3), where to = to]
  note ty = same_frame_type [OF migrate_irq_obj_effect(3) [OF assms(1-3), where to = to]]
  show ?thesis unfolding slots_ok_def
  proof (intro allI)
    fix d
    have "0 \<le> t_slots_left (objs s d)" "t_slots_left (objs s d) \<le> INT_MAX"
      "t_obj_type (objs s d) = OBJ_TYPE_NODE \<Longrightarrow> t_slots_left (objs s d) = INT_MAX"
      "to = Some d \<Longrightarrow> 0 < t_slots_left (objs s d)"
      using assms(4,5) by (auto simp: slots_ok_def)
    then show "0 \<le> t_slots_left (objs (migrate_irq_obj from to r s) d) \<and>
        t_slots_left (objs (migrate_irq_obj from to r s) d) \<le> INT_MAX \<and>
        (t_obj_type (objs (migrate_irq_obj from to r s) d) = OBJ_TYPE_NODE \<longrightarrow>
           t_slots_left (objs (migrate_irq_obj from to r s) d) = INT_MAX)"
      unfolding slots ty Let_def by auto
  qed
qed

lemma INT_MAX_pos [simp]: "0 < INT_MAX"
  by (simp add: INT_MAX_def)

lemma slots_ok_permuted [simp]: "slots_ok (s\<lparr> rebalance_irq_list := xs \<rparr>) = slots_ok s"
  and nodes_typed_permuted [simp]: "nodes_typed (s\<lparr> rebalance_irq_list := xs \<rparr>) = nodes_typed s"
  by (simp_all add: slots_ok_def nodes_typed_def)

interpretation pl_slots: placement_invariant "\<lambda>s. irqs_ok s \<and> slots_ok s \<and> nodes_typed s"
proof
  fix s r b assume I: "irqs_ok s \<and> slots_ok s \<and> nodes_typed s" and on: "on_its_list s r"
  show "irqs_ok (migrate_irq_obj None (Some b) r s) \<and> slots_ok (migrate_irq_obj None (Some b) r s)
      \<and> nodes_typed (migrate_irq_obj None (Some b) r s)" if "node_target s r b"
  proof -
    have "t_slots_left (objs s b) = INT_MAX"
      using node_target_type [OF that] I on_its_list_db [of s r] on by (auto simp: slots_ok_def)
    with I on show ?thesis by (simp add: irqs_ok_migrate nodes_typed_migrate slots_ok_migrate)
  qed
  show "irqs_ok (migrate_irq_obj (Some d) (Some b) r s) \<and> slots_ok (migrate_irq_obj (Some d) (Some b) r s)
      \<and> nodes_typed (migrate_irq_obj (Some d) (Some b) r s)"
    if "i_assigned_obj (irqs s r) = Some d" "eligible s b" for d
    using I on that by (simp add: irqs_ok_migrate nodes_typed_migrate slots_ok_migrate eligible_def Let_def)
qed (simp_all add: irqs_ok_permuted)

subsection \<open>Balance levels\<close>

text \<open>Nodes contain packages, packages contain cache domains, cache domains contain CPUs.\<close>

fun child_type :: "obj_type_e \<Rightarrow> obj_type_e option" where
  "child_type OBJ_TYPE_NODE = Some OBJ_TYPE_PACKAGE"
| "child_type OBJ_TYPE_PACKAGE = Some OBJ_TYPE_CACHE"
| "child_type OBJ_TYPE_CACHE = Some OBJ_TYPE_CPU"
| "child_type OBJ_TYPE_CPU = None"

definition tree_typed :: "state \<Rightarrow> bool" where
  "tree_typed s \<longleftrightarrow> (\<forall>d. \<forall>c \<in> set (t_children (objs s d)).
     child_type (t_obj_type (objs s d)) = Some (t_obj_type (objs s c)))"

text \<open>The interrupt is not below the level it is balanced at.\<close>

definition level_ok :: "irq_ref \<Rightarrow> state \<Rightarrow> bool" where
  "level_ok r s \<longleftrightarrow> (\<forall>d. i_assigned_obj (irqs s r) = Some d \<longrightarrow>
     (i_level (irqs s r) = BALANCE_PACKAGE \<longrightarrow> OBJ_TYPE_PACKAGE \<le> t_obj_type (objs s d)) \<and>
     (i_level (irqs s r) = BALANCE_CACHE \<longrightarrow> OBJ_TYPE_CACHE \<le> t_obj_type (objs s d)))"

lemma tree_typed_frame: "same_frame s s' \<Longrightarrow> tree_typed s \<Longrightarrow> tree_typed s'"
  unfolding tree_typed_def by (simp add: same_frame_type same_frame_children)

lemma level_ok_migrate:
  assumes "irqs_ok s" "on_its_list s r" "from = None \<or> from = i_assigned_obj (irqs s r)" and "level_ok q s"
    and "q = r \<longrightarrow> (i_level (irqs s r) = BALANCE_PACKAGE \<longrightarrow> OBJ_TYPE_PACKAGE \<le> t_obj_type (objs s b)) \<and>
     (i_level (irqs s r) = BALANCE_CACHE \<longrightarrow> OBJ_TYPE_CACHE \<le> t_obj_type (objs s b))"
  shows "level_ok q (migrate_irq_obj from (Some b) r s)"
proof -
  note eff = migrate_irq_obj_effect [OF assms(1-3), where to = "Some b"]
  show ?thesis using assms(4,5)
    unfolding level_ok_def same_frame_type [OF eff(3)] eff(1) by simp
qed

lemma obj_type_le [simp]:
  "OBJ_TYPE_PACKAGE \<le> OBJ_TYPE_NODE" "OBJ_TYPE_CACHE \<le> OBJ_TYPE_NODE" "OBJ_TYPE_CACHE \<le> OBJ_TYPE_PACKAGE"
  "\<not> OBJ_TYPE_PACKAGE \<le> OBJ_TYPE_CACHE" "\<not> OBJ_TYPE_PACKAGE \<le> OBJ_TYPE_CPU" "\<not> OBJ_TYPE_CACHE \<le> OBJ_TYPE_CPU"
  by (simp_all add: less_eq_obj_type_e_def)

lemma level_of_child:
  assumes "level_ok r s" and "tree_typed s"
    and "i_assigned_obj (irqs s r) = Some d" and "b \<in> set (t_children (objs s d))" and "\<not> stops_at s r d"
  shows "(i_level (irqs s r) = BALANCE_PACKAGE \<longrightarrow> OBJ_TYPE_PACKAGE \<le> t_obj_type (objs s b)) \<and>
     (i_level (irqs s r) = BALANCE_CACHE \<longrightarrow> OBJ_TYPE_CACHE \<le> t_obj_type (objs s b))"
proof -
  have lv: "(i_level (irqs s r) = BALANCE_PACKAGE \<longrightarrow> OBJ_TYPE_PACKAGE \<le> t_obj_type (objs s d)) \<and>
     (i_level (irqs s r) = BALANCE_CACHE \<longrightarrow> OBJ_TYPE_CACHE \<le> t_obj_type (objs s d))"
    using assms(1,3) by (simp add: level_ok_def)
  have ty: "child_type (t_obj_type (objs s d)) = Some (t_obj_type (objs s b))"
    using assms(2,4) by (simp add: tree_typed_def)
  show ?thesis using lv ty assms(5)
    by (cases "t_obj_type (objs s d)") (auto simp: stops_at_def balance_levels)
qed

lemma levels_permuted [simp]: "level_ok q (s\<lparr> rebalance_irq_list := xs \<rparr>) = level_ok q s"
  "tree_typed (s\<lparr> rebalance_irq_list := xs \<rparr>) = tree_typed s"
  by (simp_all add: level_ok_def tree_typed_def)

interpretation pl_levels: placement_invariant
  "\<lambda>s. irqs_ok s \<and> level_ok q s \<and> nodes_typed s \<and> tree_typed s" for q
proof
  fix s r b assume I: "irqs_ok s \<and> level_ok q s \<and> nodes_typed s \<and> tree_typed s" and on: "on_its_list s r"
  have tree: "tree_typed (migrate_irq_obj f t r s)" for f t
    using tree_typed_frame [OF same_frame_migrate_irq_obj] I by blast
  have db: "r \<in> set (interrupts_db s)" using I on on_its_list_db by blast
  show "irqs_ok (migrate_irq_obj None (Some b) r s) \<and> level_ok q (migrate_irq_obj None (Some b) r s)
      \<and> nodes_typed (migrate_irq_obj None (Some b) r s) \<and> tree_typed (migrate_irq_obj None (Some b) r s)"
    if "node_target s r b"
    using node_target_type [OF that] I on db
    by (simp add: irqs_ok_migrate nodes_typed_migrate level_ok_migrate tree)
  show "irqs_ok (migrate_irq_obj (Some d) (Some b) r s) \<and> level_ok q (migrate_irq_obj (Some d) (Some b) r s)
      \<and> nodes_typed (migrate_irq_obj (Some d) (Some b) r s) \<and> tree_typed (migrate_irq_obj (Some d) (Some b) r s)"
    if "i_assigned_obj (irqs s r) = Some d" "b \<in> set (t_children (objs s d))" "\<not> stops_at s r d" for d
    using level_of_child [OF _ _ that] I on that(1)
    by (cases "q = r") (simp_all add: irqs_ok_migrate nodes_typed_migrate level_ok_migrate tree)
qed (simp_all add: irqs_ok_permuted)

subsection \<open>Nothing that can be placed stays on the rebalance list\<close>

definition some_node_eligible :: "state \<Rightarrow> bool" where
  "some_node_eligible s \<longleftrightarrow> (\<exists>n \<in> set (numa_nodes s). eligible s n)"

definition only_unbalanced_wait :: "state \<Rightarrow> bool" where
  "only_unbalanced_wait s \<longleftrightarrow> (\<forall>r \<in> set (rebalance_irq_list s). i_level (irqs s r) = BALANCE_NONE)"

lemma eligible_node_migrate:
  assumes "irqs_ok s" "on_its_list s r" "from = None \<or> from = i_assigned_obj (irqs s r)"
    and "slots_ok s" "nodes_typed s" "n \<in> set (numa_nodes s)" "eligible s n"
  shows "eligible (migrate_irq_obj from to r s) n"
proof -
  let ?s = "migrate_irq_obj from to r s"
  have fr: "same_frame s ?s" by (rule same_frame_migrate_irq_obj)
  have "t_slots_left (objs s n) = INT_MAX" using assms(4-6) by (simp add: slots_ok_def nodes_typed_def)
  then have "t_slots_left (objs ?s n) = INT_MAX"
    unfolding migrate_irq_obj_counters(2) [OF assms(1-3)] Let_def by simp
  with assms(7) fr migrate_irq_obj_counters(3) [OF assms(1-3), of to n] show ?thesis
    by (simp add: eligible_def Let_def same_frame_def shape_def)
qed

lemma some_node_eligible_migrate:
  assumes "irqs_ok s" "on_its_list s r" "from = None \<or> from = i_assigned_obj (irqs s r)"
    and "slots_ok s" "nodes_typed s" "some_node_eligible s"
  shows "some_node_eligible (migrate_irq_obj from to r s)"
proof -
  have "numa_nodes (migrate_irq_obj from to r s) = numa_nodes s"
    using same_frame_migrate_irq_obj [of s "from" to r] by (simp add: same_frame_def)
  with assms show ?thesis unfolding some_node_eligible_def by (auto intro: eligible_node_migrate)
qed

text \<open>One step of the loop over the rebalance list.\<close>

lemma place_irq_in_node_places:
  assumes I: "irqs_ok s" "slots_ok s" "nodes_typed s" "some_node_eligible s"
    and on: "on_its_list s r" and none: "i_assigned_obj (irqs s r) = None"
  defines "s' \<equiv> place_irq_in_node r s"
  shows "irqs_ok s' \<and> slots_ok s' \<and> nodes_typed s' \<and> some_node_eligible s'"
    and "i_level (irqs s' r) = BALANCE_NONE \<or> i_assigned_obj (irqs s' r) \<noteq> None"
    and "\<forall>q. q \<noteq> r \<longrightarrow> irqs s' q = irqs s q \<and> (on_its_list s q \<longrightarrow> on_its_list s' q)"
proof -
  have "irqs_ok s' \<and> slots_ok s' \<and> nodes_typed s' \<and> some_node_eligible s' \<and>
      (i_level (irqs s' r) = BALANCE_NONE \<or> i_assigned_obj (irqs s' r) \<noteq> None) \<and>
      (\<forall>q. q \<noteq> r \<longrightarrow> irqs s' q = irqs s q \<and> (on_its_list s q \<longrightarrow> on_its_list s' q))"
  proof (cases "\<exists>b. node_target s r b \<and> s' = migrate_irq_obj None (Some b) r s")
    case True
    then obtain b where b: "node_target s r b" "s' = migrate_irq_obj None (Some b) r s" by blast
    note frm = disjI1 [OF refl [of "None :: obj_ref option"]]
    note eff = migrate_irq_obj_effect(1) [OF I(1) on frm, of "Some b"]
    have "irqs_ok s' \<and> slots_ok s' \<and> nodes_typed s'"
      unfolding b(2) using pl_slots.to_node [OF _ on none b(1)] I by simp
    moreover have "some_node_eligible s'"
      unfolding b(2) by (rule some_node_eligible_migrate [OF I(1) on frm I(2,3,4)])
    moreover have "on_its_list s' q" if "q \<noteq> r" "on_its_list s q" for q
      unfolding b(2) by (rule on_its_list_migrate(2) [OF I(1) on frm that])
    ultimately show ?thesis using eff by (simp add: b(2))
  next
    case False
    then have s': "s' = s" using place_irq_in_node_cases [of r s] by (auto simp: s'_def)
    have "i_level (irqs s r) = BALANCE_NONE"
    proof (rule ccontr)
      assume "i_level (irqs s r) \<noteq> BALANCE_NONE"
      moreover obtain b where "best_placement s (numa_nodes s) = Some b"
        using I(4) best_placement_None_iff [of s "numa_nodes s"] by (auto simp: some_node_eligible_def)
      ultimately have "\<exists>b. s' = migrate_irq_obj None (Some b) r s"
        by (auto simp: s'_def place_irq_in_node_def)
      then obtain b where b: "s = migrate_irq_obj None (Some b) r s" using s' by auto
      have "i_assigned_obj (irqs (migrate_irq_obj None (Some b) r s) r) = Some b"
        by (simp add: migrate_irq_obj_effect(1) [OF I(1) on])
      with arg_cong [OF b, of "\<lambda>s. i_assigned_obj (irqs s r)"] have "i_assigned_obj (irqs s r) = Some b"
        by (rule trans)
      with none show False by simp
    qed
    with I s' show ?thesis by simp
  qed
  then show "irqs_ok s' \<and> slots_ok s' \<and> nodes_typed s' \<and> some_node_eligible s'"
    "i_level (irqs s' r) = BALANCE_NONE \<or> i_assigned_obj (irqs s' r) \<noteq> None"
    "\<forall>q. q \<noteq> r \<longrightarrow> irqs s' q = irqs s q \<and> (on_its_list s q \<longrightarrow> on_its_list s' q)" by blast+
qed

lemma place_in_nodes_places:
  assumes "irqs_ok s" "slots_ok s" "nodes_typed s" "some_node_eligible s" and "distinct xs"
    and "\<forall>r \<in> set xs. on_its_list s r \<and> i_assigned_obj (irqs s r) = None"
  shows "(\<forall>r \<in> set xs. i_level (irqs (fold place_irq_in_node xs s) r) = BALANCE_NONE
      \<or> i_assigned_obj (irqs (fold place_irq_in_node xs s) r) \<noteq> None)
    \<and> (\<forall>q. q \<notin> set xs \<longrightarrow> irqs (fold place_irq_in_node xs s) q = irqs s q)"
  using assms
proof (induction xs arbitrary: s)
  case (Cons x xs)
  let ?s = "place_irq_in_node x s"
  note step = place_irq_in_node_places [OF Cons.prems(1-4), of x]
  have x: "on_its_list s x" "i_assigned_obj (irqs s x) = None" "x \<notin> set xs" using Cons.prems by auto
  have rest: "\<forall>r \<in> set xs. on_its_list ?s r \<and> i_assigned_obj (irqs ?s r) = None"
    using step(3) [OF x(1,2)] Cons.prems(6) x(3) by auto
  have "(\<forall>r \<in> set xs. i_level (irqs (fold place_irq_in_node xs ?s) r) = BALANCE_NONE
      \<or> i_assigned_obj (irqs (fold place_irq_in_node xs ?s) r) \<noteq> None)
    \<and> (\<forall>q. q \<notin> set xs \<longrightarrow> irqs (fold place_irq_in_node xs ?s) q = irqs ?s q)"
    using step(1) [OF x(1,2)] Cons.prems(5) rest by (intro Cons.IH) auto
  with step(2,3) [OF x(1,2)] x(3) show ?case by auto
qed simp

lemma only_unbalanced_wait_migrate:
  assumes "irqs_ok s" "on_its_list s r" "from = None \<or> from = i_assigned_obj (irqs s r)" "only_unbalanced_wait s"
  shows "only_unbalanced_wait (migrate_irq_obj from (Some b) r s)"
  using set_list_migrate [OF assms(1-3), of RebalanceList "Some b"] assms(4)
    migrate_irq_obj_effect(1) [OF assms(1-3), of "Some b"]
  by (auto simp: only_unbalanced_wait_def)

interpretation pl_wait: placement_invariant "\<lambda>s. irqs_ok s \<and> only_unbalanced_wait s"
proof
  fix s xs assume "irqs_ok s \<and> only_unbalanced_wait s" and "mset xs = mset (rebalance_irq_list s)"
  then show "irqs_ok (s\<lparr> rebalance_irq_list := xs \<rparr>) \<and> only_unbalanced_wait (s\<lparr> rebalance_irq_list := xs \<rparr>)"
    using mset_eq_setD [of xs] by (simp add: irqs_ok_permuted only_unbalanced_wait_def)
qed (simp_all add: irqs_ok_migrate only_unbalanced_wait_migrate)

text \<open>The placement puts nothing on the rebalance list.\<close>

interpretation pl_shrinks: placement_invariant "\<lambda>s. irqs_ok s \<and> set (rebalance_irq_list s) \<subseteq> A" for A
proof
  fix s r b assume I: "irqs_ok s \<and> set (rebalance_irq_list s) \<subseteq> A" and on: "on_its_list s r"
  have "set (rebalance_irq_list (migrate_irq_obj f (Some b) r s)) \<subseteq> A"
    if "f = None \<or> f = i_assigned_obj (irqs s r)" for f
    using set_list_migrate [OF _ on that, of RebalanceList "Some b"] I by auto
  with I on show "irqs_ok (migrate_irq_obj None (Some b) r s) \<and>
      set (rebalance_irq_list (migrate_irq_obj None (Some b) r s)) \<subseteq> A"
    and "i_assigned_obj (irqs s r) = Some d \<Longrightarrow> irqs_ok (migrate_irq_obj (Some d) (Some b) r s) \<and>
      set (rebalance_irq_list (migrate_irq_obj (Some d) (Some b) r s)) \<subseteq> A" for d
    by (simp_all add: irqs_ok_migrate)
qed (auto simp: irqs_ok_permuted dest: mset_eq_setD)

lemma calculate_placement_places:
  assumes "irqs_ok s" "slots_ok s" "nodes_typed s" "some_node_eligible s" and "sorts g_list_sort"
  shows "only_unbalanced_wait (calculate_placement g_list_sort s)"
proof -
  define s0 where "s0 = sort_irq_list g_list_sort RebalanceList s"
  let ?xs = "rebalance_irq_list s0"
  have s0: "s0 = s\<lparr> rebalance_irq_list := ?xs \<rparr>" "mset ?xs = mset (rebalance_irq_list s)"
    using assms(5) by (simp_all add: s0_def sort_irq_list_def sorts_def)
  have I: "irqs_ok s0" "slots_ok s0" "nodes_typed s0"
    using irqs_ok_permuted [OF assms(1) s0(2)] assms(2,3) s0(1) slots_ok_permuted nodes_typed_permuted by metis+
  have el: "some_node_eligible s0"
    using assms(4) by (subst s0(1)) (simp add: some_node_eligible_def eligible_def)
  show ?thesis
  proof (cases "?xs = []")
    case True
    then have "calculate_placement g_list_sort s = s0" by (simp add: calculate_placement_def Let_def flip: s0_def)
    with True show ?thesis by (simp add: only_unbalanced_wait_def)
  next
    case False
    define s1 where "s1 = fold place_irq_in_node ?xs s0"
    have calc: "calculate_placement g_list_sort s =
        for_each_object (cache_domains (for_each_object (packages (for_each_object (numa_nodes s1) place_irq_in_object s1))
          place_irq_in_object (for_each_object (numa_nodes s1) place_irq_in_object s1))) place_irq_in_object
          (for_each_object (packages (for_each_object (numa_nodes s1) place_irq_in_object s1)) place_irq_in_object
            (for_each_object (numa_nodes s1) place_irq_in_object s1))"
      using False unfolding s1_def s0_def by (simp add: calculate_placement_def Let_def for_each_irq_def)
    note w = pl_ok.rebalance_waiting [OF I(1), unfolded pl_ok.waiting_def]
    have placed: "\<forall>r \<in> set ?xs. i_level (irqs s1 r) = BALANCE_NONE \<or> i_assigned_obj (irqs s1 r) \<noteq> None"
      and same: "\<forall>q. q \<notin> set ?xs \<longrightarrow> irqs s1 q = irqs s0 q"
      using place_in_nodes_places [OF I el, of ?xs] w by (auto simp: s1_def)
    have ok1: "irqs_ok s1" unfolding s1_def by (rule pl_ok.place_in_nodes [OF I(1)])
    have "only_unbalanced_wait s1" unfolding only_unbalanced_wait_def
    proof
      fix r assume r: "r \<in> set (rebalance_irq_list s1)"
      with pl_ok.rebalance_waiting [OF ok1] have none: "i_assigned_obj (irqs s1 r) = None"
        by (simp add: pl_ok.waiting_def)
      have "set (rebalance_irq_list s1) \<subseteq> set ?xs"
        unfolding s1_def using pl_shrinks.place_in_nodes [of s0 "set ?xs"] I(1) by simp
      with r placed none show "i_level (irqs s1 r) = BALANCE_NONE" by auto
    qed
    with ok1 have "irqs_ok s1 \<and> only_unbalanced_wait s1" by blast
    note pl_wait.place_in_objects [OF pl_wait.place_in_objects [OF pl_wait.place_in_objects [OF this]]]
    then show ?thesis unfolding calc by blast
  qed
qed

section \<open>Properties\<close>

text \<open>
  (C7) Equivalence of the selection loop with its specification: among the candidates that may take
  the interrupt (not the unspecified node, with a CPU that is not banned, not in powersave mode,
  with a free slot) \<open>find_best_object\<close> returns the first one of least rank, where the rank is the
  load with the slot penalty added in 64 bits, then the free slots, then the number of interrupts;
  it returns nothing exactly when no candidate may take it.
\<close>

theorem find_best_object_selects_first_best: "first_best s cs (best_placement s cs)"
  by (rule best_placement_first_best)

text \<open>
  (C5) The whole placement keeps the lists of interrupts and their \<open>assigned_obj\<close> fields in agreement,
  and loses no interrupt: whatever was on its list is on its list afterwards. The topology, the
  databases and the masks do not change.
\<close>

theorem calculate_placement_keeps_lists:
  assumes "irqs_ok s" and "sorts g_list_sort" and "on_its_list s q"
  shows "irqs_ok (calculate_placement g_list_sort s) \<and> on_its_list (calculate_placement g_list_sort s) q"
  using pl_keeps.calculate_placement [of s q g_list_sort] assms by blast

text \<open>
  (C10) No interrupt that may be balanced is left waiting: when some NUMA node can take interrupts,
  after the placement the rebalance list holds only interrupts whose balance level is none.
\<close>

theorem calculate_placement_empties_rebalance_list:
  assumes "irqs_ok s" and "slots_ok s" and "nodes_typed s" and "some_node_eligible s" and "sorts g_list_sort"
  shows "\<forall>r \<in> set (rebalance_irq_list (calculate_placement g_list_sort s)).
    i_level (irqs (calculate_placement g_list_sort s) r) = BALANCE_NONE"
  using calculate_placement_places [OF assms] by (simp add: only_unbalanced_wait_def)

text \<open>
  The slot counters stay between 0 and \<open>INT_MAX\<close> during the placement, so that neither
  \<open>slots_left++\<close> nor \<open>slots_left--\<close> overflows, and no object is filled beyond its free slots.
\<close>

theorem calculate_placement_slot_bounds:
  assumes "irqs_ok s" and "slots_ok s" and "nodes_typed s" and "sorts g_list_sort"
  shows "0 \<le> t_slots_left (objs (calculate_placement g_list_sort s) d)
    \<and> t_slots_left (objs (calculate_placement g_list_sort s) d) \<le> INT_MAX"
  using pl_slots.calculate_placement [of s g_list_sort] assms by (simp add: slots_ok_def)


text \<open>
  A node is only given an interrupt when it has a CPU that is not banned: what
  \<open>place_irq_in_node\<close> newly assigns intersects the unbanned CPUs.
\<close>

theorem place_irq_in_node_avoids_banned:
  assumes "irqs_ok s" and "on_its_list s r" and "i_assigned_obj (irqs s r) = None" and "nodes_typed s"
    and "i_assigned_obj (irqs (place_irq_in_node r s) r) = Some n"
  shows "t_obj_type (objs s n) = OBJ_TYPE_NODE \<and> cpus_of (t_mask (objs s n)) \<inter> cpus_of (unbanned_cpus s) \<noteq> {}"
  using place_irq_in_node_cases [of r s]
proof (elim disjE exE conjE)
  fix b assume b: "node_target s r b" "place_irq_in_node r s = migrate_irq_obj None (Some b) r s"
  with migrate_irq_obj_effect(1) [OF assms(1,2), of None "Some b"] assms(5) have "n = b" by simp
  moreover have ty: "t_obj_type (objs s b) = OBJ_TYPE_NODE"
    by (rule node_target_type [OF b(1) assms(4) on_its_list_db [OF assms(1,2)]])
  ultimately show ?thesis using b(1)
    by (auto simp: node_target_def eligible_def Let_def simp flip: mask.intersects_op)
qed (use assms(3,5) in simp)

text \<open>
  Whatever sorting function with the documented behaviour of \<open>g_list_sort\<close> is used, the list of
  interrupts is ordered by class, then by load, both from the largest down: \<open>sort_irqs\<close> is a total
  order, so the order of the result does not depend on the sorting algorithm.
\<close>

theorem sort_irq_list_orders:
  assumes "sorts g_list_sort"
  shows "sorted_wrt (\<lambda>a b. (i_class (irqs s b), i_load (irqs s b), b) \<le> (i_class (irqs s a), i_load (irqs s a), a))
      (get_list l (sort_irq_list g_list_sort l s))
    \<and> mset (get_list l (sort_irq_list g_list_sort l s)) = mset (get_list l s)"
  unfolding sort_irqs_le [symmetric]
  using assms orders_sort_irqs [of s "set (get_list l s)"]
  by (simp add: sorts_def sort_irq_list_def get_list_set_list)

end
