(* ===== verification/Irqlist.thy ===== *)
theory Irqlist
  imports Placement Complex_Main
begin

text \<open>
  The detection of imbalance of \<open>irqlist.c\<close>: for each level of the topology the loads are summed up,
  interrupts of overloaded objects are put on the rebalance list, and CPUs enter and leave
  powersave mode.
\<close>

section \<open>Operations\<close>

text \<open>
  \<open>std_deviation\<close> is the square root of an integer; the record keeps that integer, \<open>variance\<close>, and the
  two comparisons of the source are made on squares (see \<open>deviation_comparisons\<close> below). The rounding
  of \<open>long double\<close> is not modelled.
\<close>

record load_balance_info =
  total_load :: u64
  avg_load :: u64
  min_load :: u64
  adjustment_load :: u64
  load_sources :: int
  deviations :: u64
  variance :: u64
  num_over :: nat
  num_under :: nat
  num_powersave :: nat
  powersave :: "obj_ref option"

definition zero_info :: load_balance_info where
  "zero_info = \<lparr> total_load = 0, avg_load = 0, min_load = 0, adjustment_load = 0, load_sources = 0,
     deviations = 0, variance = 0, num_over = 0, num_under = 0, num_powersave = 0, powersave = None \<rparr>"

definition gather_load_stats :: "state \<Rightarrow> obj_ref \<Rightarrow> load_balance_info \<Rightarrow> load_balance_info" where
  "gather_load_stats s obj info =
     (let load = t_load (objs s obj);
          info = (if load_sources info = 0 \<or> load < min_load info then info\<lparr> min_load := load \<rparr> else info)
      in info\<lparr> total_load := total_load info + load, load_sources := load_sources info + 1 \<rparr>)"

definition compute_deviations :: "state \<Rightarrow> obj_ref \<Rightarrow> load_balance_info \<Rightarrow> load_balance_info" where
  "compute_deviations s obj info =
     (let load = t_load (objs s obj);
          deviation = (if load > avg_load info then load - avg_load info else avg_load info - load)
      in info\<lparr> deviations := deviations info + deviation * deviation \<rparr>)"

definition move_candidate_irqs ::
  "irq_ref \<Rightarrow> load_balance_info \<times> state \<Rightarrow> load_balance_info \<times> state" where
  "move_candidate_irqs info = (\<lambda>(lb_info, s).
     let load = i_load (irqs s info)
     in if i_level (irqs s info) = BALANCE_NONE then (lb_info, s)
        else if length (t_interrupts (objs s (the (i_assigned_obj (irqs s info))))) \<le> 1 then (lb_info, s)
        else if load \<le> 1 then (lb_info, s)
        else
          let delta_load = (if migrate_ratio s > 0
                            then (adjustment_load lb_info - min_load lb_info) div migrate_ratio s else 0)
          in if min_load lb_info + load < delta_load + (adjustment_load lb_info - load)
             then
               let lb_info = lb_info\<lparr> adjustment_load := adjustment_load lb_info - load,
                                     min_load := min_load lb_info + load \<rparr>;
                   lb_info = (if min_load lb_info > adjustment_load lb_info
                              then lb_info\<lparr> min_load := adjustment_load lb_info \<rparr> else lb_info)
               in (lb_info, force_rebalance_irq info s)
             else (lb_info, s))"

text \<open>\<open>load + std_deviation <= avg_load\<close> and \<open>load - std_deviation >= avg_load\<close>.\<close>

definition under_average :: "u64 \<Rightarrow> load_balance_info \<Rightarrow> bool" where
  "under_average load info \<longleftrightarrow> unat load \<le> unat (avg_load info) \<and>
     unat (variance info) \<le> (unat (avg_load info) - unat load)\<^sup>2"

definition over_average :: "u64 \<Rightarrow> load_balance_info \<Rightarrow> bool" where
  "over_average load info \<longleftrightarrow> unat (avg_load info) \<le> unat load \<and>
     unat (variance info) \<le> (unat load - unat (avg_load info))\<^sup>2"

definition ULONG_MAX :: u64 where
  "ULONG_MAX = - 1"

definition migrate_overloaded_irqs ::
  "sorter \<Rightarrow> obj_ref \<Rightarrow> load_balance_info \<times> state \<Rightarrow> load_balance_info \<times> state" where
  "migrate_overloaded_irqs g_list_sort obj = (\<lambda>(info, s).
     let d = objs s obj;
         info = (if t_powersave_mode d then info\<lparr> num_powersave := num_powersave info + 1 \<rparr> else info);
         info = (if under_average (t_load d) info
                 then
                   let info = info\<lparr> num_under := num_under info + 1 \<rparr>
                   in if power_thresh s \<noteq> ULONG_MAX \<and> powersave info = None \<and> \<not> t_powersave_mode d
                      then info\<lparr> powersave := Some obj \<rparr> else info
                 else if over_average (t_load d) info then info\<lparr> num_over := num_over info + 1 \<rparr>
                 else info)
     in if t_load d > min_load info \<and> length (t_interrupts d) > 1
        then
          let s = sort_irq_list g_list_sort (Interrupts obj) s;
              info = info\<lparr> adjustment_load := t_load d \<rparr>
          in for_each_irq (interrupts_db s) (t_interrupts (objs s obj)) move_candidate_irqs (info, s)
        else (info, s))"

definition clear_powersave_mode :: "obj_ref \<Rightarrow> state \<Rightarrow> state" where
  "clear_powersave_mode obj s = upd_obj obj (t_powersave_mode_update (\<lambda>_. False)) s"

definition load_statistics :: "obj_ref list \<Rightarrow> state \<Rightarrow> load_balance_info" where
  "load_statistics name s =
     (let info = for_each_object name (gather_load_stats s) zero_info;
          info = (if load_sources info = 0 then info\<lparr> load_sources := 1 \<rparr> else info);
          info = info\<lparr> avg_load := total_load info div of_int (load_sources info) \<rparr>;
          info = for_each_object name (compute_deviations s) info
      in if load_sources info = 1 then info\<lparr> variance := 0 \<rparr>
         else info\<lparr> variance := deviations info div of_int (load_sources info - 1) \<rparr>)"

definition find_overloaded_objs ::
  "sorter \<Rightarrow> obj_ref list \<Rightarrow> state \<Rightarrow> load_balance_info \<times> state" where
  "find_overloaded_objs g_list_sort name s =
     for_each_object name (migrate_overloaded_irqs g_list_sort) (load_statistics name s, s)"

definition update_powersave :: "load_balance_info \<Rightarrow> state \<Rightarrow> state" where
  "update_powersave info s =
     (if power_thresh s \<noteq> ULONG_MAX \<and> cycle_count s > 5
      then
        if num_over info = 0 \<and> of_nat (num_under info) \<ge> power_thresh s \<and> powersave info \<noteq> None
        then
          let d = the (powersave info);
              s = upd_obj d (t_powersave_mode_update (\<lambda>_. True)) s
          in if length (t_interrupts (objs s d)) > 0
             then for_each_irq (interrupts_db s) (t_interrupts (objs s d)) force_rebalance_irq s else s
        else if num_over info \<noteq> 0 \<and> num_powersave info \<noteq> 0
        then for_each_object (cpus s) clear_powersave_mode s else s
      else s)"

definition update_migration_status :: "sorter \<Rightarrow> state \<Rightarrow> state" where
  "update_migration_status g_list_sort s =
     (let (info, s) = find_overloaded_objs g_list_sort (cpus s) s;
          s = update_powersave info s;
          s = snd (find_overloaded_objs g_list_sort (cache_domains s) s);
          s = snd (find_overloaded_objs g_list_sort (packages s) s)
      in snd (find_overloaded_objs g_list_sort (numa_nodes s) s))"

section \<open>The standard deviation\<close>

lemma le_square_iff: "0 \<le> y \<Longrightarrow> sqrt (real v) \<le> y \<longleftrightarrow> real v \<le> y\<^sup>2"
  by (metis real_le_lsqrt real_sqrt_ge_zero of_nat_0_le_iff real_sqrt_le_iff real_sqrt_unique sqrt_le_D)

lemma deviation_nat:
  "l \<le> a \<and> v \<le> (a - l)\<^sup>2 \<longleftrightarrow> real l + sqrt (real v) \<le> real a"
proof -
  have ge: "0 \<le> sqrt (real v)" by simp
  have "sqrt (real v) \<le> real (a - l) \<longleftrightarrow> v \<le> (a - l)\<^sup>2"
    using le_square_iff [of "real (a - l)" v] by (simp flip: of_nat_power)
  moreover have "\<not> real l + sqrt (real v) \<le> real a" if "\<not> l \<le> a"
  proof -
    from that have "real a < real l" by simp
    with ge show ?thesis by linarith
  qed
  ultimately show ?thesis by (cases "l \<le> a") (auto simp: of_nat_diff)
qed

lemma deviation_comparisons:
  "under_average load info \<longleftrightarrow> real (unat load) + sqrt (real (unat (variance info))) \<le> real (unat (avg_load info))"
  "over_average load info \<longleftrightarrow> real (unat load) - sqrt (real (unat (variance info))) \<ge> real (unat (avg_load info))"
  unfolding under_average_def over_average_def deviation_nat by (auto simp: le_diff_eq)

section \<open>Selecting interrupts\<close>

text \<open>
  What the detection may do to the state: interrupts in the database stay where they are or move to
  the rebalance list, the latter only when their balance level allows it; the loads stay.
\<close>

definition stays_or_waits :: "state \<Rightarrow> state \<Rightarrow> irq_ref \<Rightarrow> bool" where
  "stays_or_waits s s' r \<longleftrightarrow>
     i_assigned_obj (irqs s' r) = i_assigned_obj (irqs s r) \<and>
       (r \<in> set (rebalance_irq_list s') \<longleftrightarrow> r \<in> set (rebalance_irq_list s)) \<or>
     i_assigned_obj (irqs s' r) = None \<and> r \<in> set (rebalance_irq_list s') \<and> i_level (irqs s r) \<noteq> BALANCE_NONE"

definition selects :: "state \<Rightarrow> state \<Rightarrow> bool" where
  "selects s s' \<longleftrightarrow> irqs_ok s' \<and> same_frame s s' \<and> (\<forall>d. t_load (objs s' d) = t_load (objs s d)) \<and>
     (\<forall>r. i_level (irqs s' r) = i_level (irqs s r) \<and> i_load (irqs s' r) = i_load (irqs s r) \<and>
        i_numa_node (irqs s' r) = i_numa_node (irqs s r) \<and> stays_or_waits s s' r)"

lemma selects_refl [simp]: "selects s s = irqs_ok s"
  by (simp add: selects_def stays_or_waits_def)

lemma selects_trans [trans]:
  assumes "selects s s'" "selects s' s''"
  shows "selects s s''"
proof -
  have lev: "i_level (irqs s' r) = i_level (irqs s r)" for r using assms(1) by (simp add: selects_def)
  have "stays_or_waits s s'' r" if "stays_or_waits s s' r" "stays_or_waits s' s'' r" for r
    using that unfolding stays_or_waits_def lev by argo
  with assms show ?thesis by (simp add: selects_def) (blast intro: same_frame_trans)
qed

lemma selects_ok: "selects s s' \<Longrightarrow> irqs_ok s'"
  by (simp add: selects_def)

lemma irqs_ok_lists:
  assumes ok: "irqs_ok s" and sel: "interrupts_db s' = interrupts_db s" "irqs s' = irqs s"
    and lists: "\<And>l. mset (get_list l s') = mset (get_list l s)"
  shows "irqs_ok s'"
proof -
  have sets: "set (get_list l s') = set (get_list l s)" for l using lists by (rule mset_eq_setD)
  have dist: "distinct (get_list l s') = distinct (get_list l s)" for l using lists by (rule mset_eq_imp_distinct_iff)
  have ints: "set (t_interrupts (objs s' d)) = set (t_interrupts (objs s d))" for d
    using sets [of "Interrupts d"] by simp
  show ?thesis using ok unfolding irqs_ok_def sel sets dist ints .
qed

lemma irqs_ok_set_list:
  assumes "irqs_ok s" and "mset xs = mset (get_list l s)"
  shows "irqs_ok (set_list l xs s)"
proof (rule irqs_ok_lists [OF assms(1)])
  show "interrupts_db (set_list l xs s) = interrupts_db s"
    using same_frame_set_list [of s l xs] by (simp add: same_frame_def)
qed (use assms(2) in \<open>simp_all add: get_list_set_list\<close>)

lemma irqs_ok_upd_obj:
  assumes "irqs_ok s" and "\<And>d. t_interrupts (f d) = t_interrupts d"
  shows "irqs_ok (upd_obj d f s)"
  by (rule irqs_ok_lists [OF assms(1)]) (simp_all add: get_list_upd_obj assms(2))

lemma selects_sort:
  assumes "sorts g_list_sort" "irqs_ok s"
  shows "selects s (sort_irq_list g_list_sort l s)"
proof -
  have eq: "mset (g_list_sort (sort_irqs s) (get_list l s)) = mset (get_list l s)"
    using assms(1) by (simp add: sorts_def)
  have "set (rebalance_irq_list (set_list l xs s)) = set (rebalance_irq_list s)"
    if "mset xs = mset (get_list l s)" for xs
    using that by (cases l) (auto dest: mset_eq_setD)
  from this [OF eq] irqs_ok_set_list [OF assms(2) eq] show ?thesis
    by (simp add: selects_def stays_or_waits_def sort_irq_list_def same_frame_set_list)
qed

lemma selects_force:
  assumes ok: "irqs_ok s" and db: "r \<in> set (interrupts_db s)" and as: "i_assigned_obj (irqs s r) = Some d"
  shows "selects s (force_rebalance_irq r s)"
proof (cases "i_level (irqs s r) = BALANCE_NONE")
  case False
  have on: "on_its_list s r" using ok db as by (auto simp: on_its_list_def irqs_ok_def)
  have frm: "i_assigned_obj (irqs s r) = None \<or> i_assigned_obj (irqs s r) = i_assigned_obj (irqs s r)" by simp
  have eq: "force_rebalance_irq r s = migrate_irq_obj (i_assigned_obj (irqs s r)) None r s"
    using False as by (simp add: force_rebalance_irq_def)
  have "set (rebalance_irq_list (migrate_irq_obj (i_assigned_obj (irqs s r)) None r s)) = insert r (set (rebalance_irq_list s))"
    using set_list_migrate [OF ok on frm, of RebalanceList None] by simp
  with False show ?thesis
    unfolding selects_def eq migrate_irq_obj_effect(1) [OF ok on frm]
    using irqs_ok_migrate [OF ok on frm] same_frame_migrate_irq_obj [of s "i_assigned_obj (irqs s r)" None r]
    by (simp add: stays_or_waits_def migrate_irq_obj_effect(1) [OF ok on frm] migrate_irq_obj_counters(1) [OF ok on frm])
qed (simp add: force_rebalance_irq_def ok)

lemma selects_powersave: "irqs_ok s \<Longrightarrow> selects s (upd_obj d (t_powersave_mode_update f) s)"
  by (simp add: selects_def stays_or_waits_def irqs_ok_upd_obj same_frame_upd_obj shape_def)

lemma move_candidate_irqs_state:
  "snd (move_candidate_irqs r (info, s)) = s \<or>
   snd (move_candidate_irqs r (info, s)) = force_rebalance_irq r s \<and>
     1 < length (t_interrupts (objs s (the (i_assigned_obj (irqs s r)))))"
  by (simp add: move_candidate_irqs_def Let_def)

lemma force_rebalance_other:
  assumes "irqs_ok s" "r \<in> set (interrupts_db s)" "i_assigned_obj (irqs s r) = Some d" "q \<noteq> r"
  shows "irqs (force_rebalance_irq r s) q = irqs s q"
  by (use assms in \<open>simp add: force_rebalance_irq_def migrate_irq_obj_def migrate_irq_irqs Let_def\<close>)

text \<open>One pass over the interrupts of an object.\<close>

lemma force_step:
  assumes "irqs_ok s" "assigned_to d r s"
  shows "selects s (force_rebalance_irq r s)"
    and "q \<noteq> r \<Longrightarrow> assigned_to e q s \<Longrightarrow> assigned_to e q (force_rebalance_irq r s)"
  using assms selects_force force_rebalance_other same_frame_force_rebalance [of s r]
  by (auto simp: assigned_to_def same_frame_def)

lemma selects_force_all:
  assumes "irqs_ok s" "distinct rs" "\<forall>r \<in> set rs. assigned_to d r s"
  shows "selects s (fold force_rebalance_irq rs s)"
  by (rule fold_each [where P = "assigned_to d"])
    (use assms force_step selects_ok selects_trans in \<open>auto simp del: fold_simps\<close>)

lemma selects_candidates:
  assumes "irqs_ok s" "distinct rs" "\<forall>r \<in> set rs. assigned_to d r s"
  shows "selects s (snd (fold move_candidate_irqs rs (info, s)))"
proof -
  have "selects s (snd t) \<and> selects s (snd (move_candidate_irqs x t)) \<and>
      (\<forall>y. y \<noteq> x \<longrightarrow> assigned_to d y (snd t) \<longrightarrow> assigned_to d y (snd (move_candidate_irqs x t)))"
    if "selects s (snd t)" "assigned_to d x (snd t)" for x and t :: "load_balance_info \<times> state"
    using that move_candidate_irqs_state [of x "fst t" "snd t"] force_step [OF selects_ok that(2)]
    by (auto intro: selects_trans)
  then show ?thesis
    using fold_each [of rs "\<lambda>t. selects s (snd t)" "(info, s)" "\<lambda>r t. assigned_to d r (snd t)" move_candidate_irqs] assms
    by simp
qed

lemma mset_interrupts_sort:
  "sorts g_list_sort \<Longrightarrow> mset (t_interrupts (objs (sort_irq_list g_list_sort (Interrupts d) s) d)) = mset (t_interrupts (objs s d))"
  by (simp add: sort_irq_list_def sorts_def)

lemma selects_migrate_overloaded:
  assumes ok: "irqs_ok s" and srt: "sorts g_list_sort"
  shows "selects s (snd (migrate_overloaded_irqs g_list_sort d (info, s)))"
proof -
  let ?s = "sort_irq_list g_list_sort (Interrupts d) s"
  have 1: "selects s ?s" by (rule selects_sort [OF srt ok])
  note ok1 = selects_ok [OF 1]
  have "distinct (get_list (Interrupts d) ?s)" using ok1 unfolding irqs_ok_def by blast
  then have "selects ?s (snd (fold move_candidate_irqs (t_interrupts (objs ?s d)) (i, ?s)))" for i
    by (intro selects_candidates [OF ok1, of _ d]) (auto intro: interrupts_assigned [OF ok1])
  from selects_trans [OF 1 this] ok show ?thesis
    using mset_interrupts_sort [OF srt, of d s]
    by (auto simp: migrate_overloaded_irqs_def Let_def for_each_irq_def)
qed

lemma selects_find_overloaded:
  assumes "irqs_ok s" "sorts g_list_sort"
  shows "selects s (snd (find_overloaded_objs g_list_sort ds s))"
proof -
  have "selects s (snd (fold (migrate_overloaded_irqs g_list_sort) ds (info, s)))" for info
  proof (rule fold_invariant_on)
    fix d and t :: "load_balance_info \<times> state"
    assume "selects s (snd t)"
    with selects_migrate_overloaded [OF selects_ok assms(2)] show "selects s (snd (migrate_overloaded_irqs g_list_sort d t))"
      by (metis prod.collapse selects_trans)
  qed (simp add: assms(1))
  then show ?thesis by (simp add: find_overloaded_objs_def for_each_object_def)
qed

lemma selects_update_powersave: "irqs_ok s \<Longrightarrow> selects s (update_powersave info s)"
proof -
  assume ok: "irqs_ok s"
  let ?d = "the (powersave info)"
  let ?s = "upd_obj ?d (t_powersave_mode_update (\<lambda>_. True)) s"
  have 1: "selects s ?s" by (rule selects_powersave [OF ok])
  note ok1 = selects_ok [OF 1]
  have "distinct (get_list (Interrupts ?d) ?s)" using ok1 unfolding irqs_ok_def by blast
  then have 2: "selects s (fold force_rebalance_irq (t_interrupts (objs ?s ?d)) ?s)"
    by (intro selects_trans [OF 1 selects_force_all [OF ok1]]) (auto intro: interrupts_assigned [OF ok1])
  have 3: "selects s (fold clear_powersave_mode (cpus s) s)"
    by (rule fold_invariant_on)
      (use ok in \<open>auto simp: clear_powersave_mode_def intro: selects_trans selects_powersave [OF selects_ok]\<close>)
  show ?thesis using 1 2 3 ok
    by (auto simp: update_powersave_def Let_def for_each_irq_def for_each_object_def)
qed

lemma selects_update_migration_status:
  assumes "irqs_ok s" "sorts g_list_sort"
  shows "selects s (update_migration_status g_list_sort s)"
proof -
  note find = selects_find_overloaded [OF selects_ok assms(2)]
  obtain info s1 where 1: "find_overloaded_objs g_list_sort (cpus s) s = (info, s1)" by fastforce
  with selects_find_overloaded [OF assms, of "cpus s"] have s1: "selects s s1" by simp
  let ?s2 = "update_powersave info s1"
  have s2: "selects s ?s2" by (rule selects_trans [OF s1 selects_update_powersave [OF selects_ok [OF s1]]])
  let ?s3 = "snd (find_overloaded_objs g_list_sort (cache_domains ?s2) ?s2)"
  have s3: "selects s ?s3" by (rule selects_trans [OF s2 find [OF s2]])
  let ?s4 = "snd (find_overloaded_objs g_list_sort (packages ?s3) ?s3)"
  have s4: "selects s ?s4" by (rule selects_trans [OF s3 find [OF s3]])
  show ?thesis unfolding update_migration_status_def 1 Let_def prod.case
    by (rule selects_trans [OF s4 find [OF s4]])
qed


section \<open>The balance after a selection\<close>

text \<open>The loads that \<open>move_candidate_irqs\<close> looks at: those of at most one are never moved.\<close>

definition movable_load :: "state \<Rightarrow> irq_ref \<Rightarrow> nat" where
  "movable_load s r = (if i_load (irqs s r) \<le> 1 then 0 else unat (i_load (irqs s r)))"

text \<open>An object has at least the load of its interrupts.\<close>

definition fair_load :: "obj_ref \<Rightarrow> state \<Rightarrow> bool" where
  "fair_load d s \<longleftrightarrow> sum_list (map (movable_load s) (t_interrupts (objs s d))) \<le> unat (t_load (objs s d))"

text \<open>A step either leaves everything alone, or moves one interrupt and accounts for it exactly.\<close>

lemma move_candidate_cases:
  assumes "migrate_ratio s = 0" and load: "movable_load s r \<le> unat (adjustment_load info)"
    and bound: "unat (adjustment_load info) < 2 ^ 63" "min_load info \<le> adjustment_load info"
  obtains (stays) "move_candidate_irqs r (info, s) = (info, s)"
  | (moves) info' where "move_candidate_irqs r (info, s) = (info', force_rebalance_irq r s)"
      "i_level (irqs s r) \<noteq> BALANCE_NONE" "movable_load s r = unat (i_load (irqs s r))"
      "unat (adjustment_load info') + movable_load s r = unat (adjustment_load info)"
      "unat (min_load info') = unat (min_load info) + movable_load s r" "min_load info' \<le> adjustment_load info'"
proof (cases "move_candidate_irqs r (info, s) = (info, s)")
  case False
  let ?l = "i_load (irqs s r)" and ?a = "adjustment_load info" and ?m = "min_load info"
  have c: "i_level (irqs s r) \<noteq> BALANCE_NONE" "\<not> ?l \<le> 1" "?m + ?l < ?a - ?l"
    using False assms(1) by (auto simp: move_candidate_irqs_def Let_def split: if_splits)
  have l: "movable_load s r = unat ?l" using c(2) by (simp add: movable_load_def)
  have sub: "unat (?a - ?l) = unat ?a - unat ?l"
    using load l by (intro unat_sub) (simp add: word_le_nat_alt)
  have m: "unat ?m \<le> unat ?a" using bound(2) by (simp add: word_le_nat_alt)
  have add: "unat (?m + ?l) = unat ?m + unat ?l"
    using m load l bound(1) by (intro unat_add_lem [THEN iffD1]) simp
  define info' where "info' = info\<lparr> adjustment_load := ?a - ?l, min_load := ?m + ?l \<rparr>"
  have "move_candidate_irqs r (info, s) = (info', force_rebalance_irq r s)"
    using False assms(1) c by (auto simp: move_candidate_irqs_def Let_def info'_def split: if_splits)
  then show ?thesis
    by (rule moves) (use c load l sub add in \<open>auto simp: info'_def\<close>)
qed (rule stays)

text \<open>The interrupts of a list that have lost their object.\<close>

definition moved_load :: "state \<Rightarrow> irq_ref list \<Rightarrow> state \<Rightarrow> nat" where
  "moved_load s rs s' = sum_list (map (movable_load s) (filter (\<lambda>r. i_assigned_obj (irqs s' r) = None) rs))"

lemma move_candidate_other:
  assumes "irqs_ok s" "assigned_to d r s" "q \<noteq> r"
  shows "irqs (snd (move_candidate_irqs r (info, s))) q = irqs s q"
  using move_candidate_irqs_state [of r info s] force_rebalance_other [of s r d q] assms
  by (auto simp: assigned_to_def)

lemma candidates_other:
  assumes "irqs_ok s" "distinct rs" "\<forall>r \<in> set rs. assigned_to d r s" "q \<notin> set rs"
  shows "irqs (snd (fold move_candidate_irqs rs (info, s))) q = irqs s q"
  using assms
proof (induction rs arbitrary: info s)
  case (Cons r rs)
  let ?t = "move_candidate_irqs r (info, s)"
  have st: "selects s (snd ?t)" using selects_candidates [of s "[r]" d info] Cons.prems by simp
  have "\<forall>x \<in> set rs. assigned_to d x (snd ?t)"
  proof
    fix x assume "x \<in> set rs"
    with Cons.prems have x: "x \<noteq> r" "assigned_to d x s" by auto
    with move_candidate_other [of s d r x info] Cons.prems st show "assigned_to d x (snd ?t)"
      by (simp add: assigned_to_def selects_def same_frame_def)
  qed
  with Cons.IH [of "snd ?t" "fst ?t"] selects_ok [OF st] Cons.prems
  have "irqs (snd (fold move_candidate_irqs rs ?t)) q = irqs (snd ?t) q" by simp
  with move_candidate_other [of s d r q info] Cons.prems show ?case by simp
qed simp


lemma force_rebalance_unassigns:
  assumes ok: "irqs_ok s" and as: "assigned_to d r s" and lev: "i_level (irqs s r) \<noteq> BALANCE_NONE"
  shows "i_assigned_obj (irqs (force_rebalance_irq r s) r) = None"
proof -
  have on: "on_its_list s r" using ok as by (auto simp: on_its_list_def irqs_ok_def assigned_to_def)
  from migrate_irq_obj_effect(1) [OF ok on, of "i_assigned_obj (irqs s r)" None] as lev show ?thesis
    by (simp add: force_rebalance_irq_def assigned_to_def)
qed

lemma candidates_balance:
  assumes "irqs_ok s" "distinct rs" "\<forall>r \<in> set rs. assigned_to d r s" "migrate_ratio s = 0"
    and "sum_list (map (movable_load s) rs) \<le> unat (adjustment_load info)"
    and "unat (adjustment_load info) < 2 ^ 63" "min_load info \<le> adjustment_load info"
    and "fold move_candidate_irqs rs (info, s) = (info', s')"
  shows "unat (adjustment_load info') + moved_load s rs s' = unat (adjustment_load info)
    \<and> unat (min_load info') = unat (min_load info) + moved_load s rs s'
    \<and> min_load info' \<le> adjustment_load info'"
  using assms
proof (induction rs arbitrary: info s)
  case (Cons r rs)
  have r: "assigned_to d r s" "movable_load s r \<le> unat (adjustment_load info)" "r \<notin> set rs"
    "\<forall>x \<in> set rs. x \<noteq> r" using Cons.prems by auto
  show ?case
  proof (cases rule: move_candidate_cases [OF Cons.prems(4) r(2) Cons.prems(6,7)])
    case 1
    then have "fold move_candidate_irqs rs (info, s) = (info', s')" using Cons.prems(8) by simp
    moreover from this candidates_other [of s rs d r info] Cons.prems r
    have "i_assigned_obj (irqs s' r) = Some d" by (simp add: assigned_to_def)
    ultimately show ?thesis using Cons.IH [of s info] Cons.prems by (simp add: moved_load_def)
  next
    case (2 info1)
    let ?s = "force_rebalance_irq r s"
    note st = force_step [OF Cons.prems(1) r(1)]
    have fold: "fold move_candidate_irqs rs (info1, ?s) = (info', s')" using Cons.prems(8) 2(1) by simp
    have loads: "movable_load ?s = movable_load s"
      using st(1) by (auto simp: selects_def movable_load_def)
    have "i_assigned_obj (irqs ?s r) = None" by (rule force_rebalance_unassigns [OF Cons.prems(1) r(1) 2(2)])
    with candidates_other [of ?s rs d r info1] fold selects_ok [OF st(1)] Cons.prems r st(2)
    have none: "i_assigned_obj (irqs s' r) = None" by simp
    have IH: "unat (adjustment_load info') + moved_load ?s rs s' = unat (adjustment_load info1)
      \<and> unat (min_load info') = unat (min_load info1) + moved_load ?s rs s' \<and> min_load info' \<le> adjustment_load info'"
      by (rule Cons.IH [OF selects_ok [OF st(1)] _ _ _ _ _ _ fold])
        (use Cons.prems 2 st r loads in \<open>auto simp: selects_def same_frame_def\<close>)
    with 2(4,5) none show ?thesis by (simp add: moved_load_def loads)
  qed
qed (simp add: moved_load_def)

lemma candidates_keep_one:
  assumes "irqs_ok s" "distinct rs" "\<forall>r \<in> set rs. assigned_to d r s" "t_interrupts (objs s d) \<noteq> []"
  shows "t_interrupts (objs (snd (fold move_candidate_irqs rs (info, s))) d) \<noteq> []"
proof -
  let ?I = "\<lambda>t. selects s (snd t) \<and> t_interrupts (objs (snd t) d) \<noteq> []"
  have "?I (move_candidate_irqs x t) \<and> (\<forall>y. y \<noteq> x \<longrightarrow> assigned_to d y (snd t) \<longrightarrow> assigned_to d y (snd (move_candidate_irqs x t)))"
    if t: "?I t" and x: "assigned_to d x (snd t)" for x and t :: "load_balance_info \<times> state"
  proof (cases "snd (move_candidate_irqs x t) = snd t")
    case True
    with t show ?thesis by simp
  next
    case False
    with move_candidate_irqs_state [of x "fst t" "snd t"] x
    have s': "snd (move_candidate_irqs x t) = force_rebalance_irq x (snd t)" "1 < length (t_interrupts (objs (snd t) d))"
      by (simp_all add: assigned_to_def)
    have ok: "irqs_ok (snd t)" using t selects_ok by blast
    note st = force_step [OF ok x]
    have on: "on_its_list (snd t) x" using ok x by (auto simp: on_its_list_def irqs_ok_def assigned_to_def)
    have "distinct (get_list (Interrupts d) (snd t))" using ok unfolding irqs_ok_def by blast
    then have "card (set (t_interrupts (objs (snd t) d))) = length (t_interrupts (objs (snd t) d))"
      by (simp add: distinct_card)
    with s'(2) have "\<not> set (t_interrupts (objs (snd t) d)) \<subseteq> {x}"
      using card_mono [of "{x}" "set (t_interrupts (objs (snd t) d))"] by auto
    moreover have "set (t_interrupts (objs (migrate_irq_obj (i_assigned_obj (irqs (snd t) x)) None x (snd t)) d))
        = set (t_interrupts (objs (snd t) d)) - {x}"
      using set_list_migrate [OF ok on, of "i_assigned_obj (irqs (snd t) x)" "Interrupts d" None] by simp
    ultimately have "t_interrupts (objs (migrate_irq_obj (i_assigned_obj (irqs (snd t) x)) None x (snd t)) d) \<noteq> []"
      by force
    then have "t_interrupts (objs (force_rebalance_irq x (snd t)) d) \<noteq> []"
      using t x unfolding force_rebalance_irq_def assigned_to_def by simp
    with st t show ?thesis unfolding s'(1) by (auto intro: selects_trans)
  qed
  then show ?thesis
    using fold_each [of rs ?I "(info, s)" "\<lambda>r t. assigned_to d r (snd t)" move_candidate_irqs] assms by simp
qed


lemma selects_unassigned: "selects s s' \<Longrightarrow> i_assigned_obj (irqs s r) = None \<Longrightarrow> i_assigned_obj (irqs s' r) = None"
  unfolding selects_def stays_or_waits_def by metis

lemma force_all_unassigns:
  assumes "irqs_ok s" "distinct rs" "\<forall>r \<in> set rs. assigned_to d r s" "r \<in> set rs" "i_level (irqs s r) \<noteq> BALANCE_NONE"
  shows "i_assigned_obj (irqs (fold force_rebalance_irq rs s) r) = None"
  using assms
proof (induction rs arbitrary: s)
  case (Cons q rs)
  let ?s = "force_rebalance_irq q s"
  have q: "assigned_to d q s" using Cons.prems by simp
  note st = force_step [OF Cons.prems(1) q] selects_ok [OF force_step(1) [OF Cons.prems(1) q]]
  have rest: "\<forall>x \<in> set rs. assigned_to d x ?s"
  proof
    fix x assume "x \<in> set rs"
    with Cons.prems(2,3) have "x \<noteq> q" "assigned_to d x s" by auto
    then show "assigned_to d x ?s" by (rule st(2))
  qed
  show ?case
  proof (cases "r = q")
    case True
    with force_rebalance_unassigns [OF Cons.prems(1) q] Cons.prems(5) have "i_assigned_obj (irqs ?s r) = None" by simp
    moreover have "selects ?s (fold force_rebalance_irq rs ?s)"
      using selects_force_all [OF st(3) _ rest] Cons.prems(2) by simp
    ultimately show ?thesis by (simp add: selects_unassigned)
  next
    case False
    moreover have "i_level (irqs ?s r) = i_level (irqs s r)" using st(1) by (simp add: selects_def)
    ultimately show ?thesis using Cons.IH [OF st(3) _ rest] Cons.prems by auto
  qed
qed simp

lemma fold_force_powersave: "t_powersave_mode (objs (fold force_rebalance_irq rs s) d) = t_powersave_mode (objs s d)"
proof (rule fold_unchanged)
  show "t_powersave_mode (objs (force_rebalance_irq r s) d) = t_powersave_mode (objs s d)" for r s
    by (simp add: force_rebalance_irq_def migrate_irq_obj_def Let_def split: option.split)
qed

lemma sum_list_filter_perm:
  "mset xs = mset ys \<Longrightarrow> sum_list (map f (filter P xs)) = sum_list (map f (filter P ys))" for f :: "'a \<Rightarrow> nat"
  by (metis mset_filter mset_map sum_mset_sum_list)

lemma overloaded_loop:
  assumes "sorts g_list_sort" and over: "t_load (objs s d) > min_load info \<and> length (t_interrupts (objs s d)) > 1"
  obtains info' where "adjustment_load info' = t_load (objs s d)" "min_load info' = min_load info"
    "migrate_overloaded_irqs g_list_sort d (info, s)
      = (let s = sort_irq_list g_list_sort (Interrupts d) s in fold move_candidate_irqs (t_interrupts (objs s d)) (info', s))"
proof
  let ?d = "objs s d"
  let ?i1 = "if t_powersave_mode ?d then info\<lparr> num_powersave := num_powersave info + 1 \<rparr> else info"
  let ?i2 = "if under_average (t_load ?d) ?i1
     then let i = ?i1\<lparr> num_under := num_under ?i1 + 1 \<rparr>
       in if power_thresh s \<noteq> ULONG_MAX \<and> powersave i = None \<and> \<not> t_powersave_mode ?d
          then i\<lparr> powersave := Some d \<rparr> else i
     else if over_average (t_load ?d) ?i1 then ?i1\<lparr> num_over := num_over ?i1 + 1 \<rparr> else ?i1"
  have low: "min_load ?i2 = min_load info" by (simp add: Let_def)
  then show "min_load (?i2\<lparr> adjustment_load := t_load ?d \<rparr>) = min_load info" by simp
  have "t_interrupts (objs (sort_irq_list g_list_sort (Interrupts d) s) d) \<noteq> []"
    using over mset_interrupts_sort [OF assms(1), of d s] by auto
  with over low show "migrate_overloaded_irqs g_list_sort d (info, s)
      = (let s = sort_irq_list g_list_sort (Interrupts d) s
         in fold move_candidate_irqs (t_interrupts (objs s d)) (?i2\<lparr> adjustment_load := t_load ?d \<rparr>, s))"
    unfolding migrate_overloaded_irqs_def Let_def prod.case for_each_irq_def by simp
qed simp

section \<open>Properties\<close>

text \<open>
  A pass of \<open>update_migration_status\<close> keeps the agreement of lists and \<open>assigned_obj\<close> fields, the shape
  of the topology and all loads. Each interrupt stays on its list or waits on the rebalance
  list afterwards, the latter only where its balance level allows it to be moved.
\<close>

theorem update_migration_status_keeps_lists:
  assumes "irqs_ok s" and "sorts g_list_sort"
  shows "irqs_ok (update_migration_status g_list_sort s) \<and> same_frame s (update_migration_status g_list_sort s)
    \<and> t_load (objs (update_migration_status g_list_sort s) d) = t_load (objs s d)
    \<and> stays_or_waits s (update_migration_status g_list_sort s) r"
  using selects_update_migration_status [OF assms] by (simp add: selects_def)


text \<open>
  When a CPU is sent to powersave mode, it is marked, and the only interrupts left on it are those
  that must not be balanced; the others wait on the rebalance list.
\<close>

theorem update_powersave_evacuates:
  assumes ok: "irqs_ok s" and on: "power_thresh s \<noteq> ULONG_MAX" "cycle_count s > 5" "num_over info = 0"
    "of_nat (num_under info) \<ge> power_thresh s" "powersave info = Some d"
    and r: "r \<in> set (t_interrupts (objs s d))" "i_level (irqs s r) \<noteq> BALANCE_NONE"
  shows "t_powersave_mode (objs (update_powersave info s) d) \<and> r \<in> set (rebalance_irq_list (update_powersave info s))
    \<and> r \<notin> set (t_interrupts (objs (update_powersave info s) d))"
proof -
  let ?s = "upd_obj d (t_powersave_mode_update (\<lambda>_. True)) s" and ?s' = "update_powersave info s"
  have ne: "t_interrupts (objs s d) \<noteq> []" using r by auto
  have s': "?s' = fold force_rebalance_irq (t_interrupts (objs ?s d)) ?s"
    using on ne by (simp add: update_powersave_def Let_def for_each_irq_def)
  have 1: "irqs_ok ?s" by (rule selects_ok [OF selects_powersave [OF ok]])
  have dist: "distinct (t_interrupts (objs ?s d))" using 1 get_list.simps(2) [of d ?s] unfolding irqs_ok_def by metis
  have as: "\<forall>r \<in> set (t_interrupts (objs ?s d)). assigned_to d r ?s" using interrupts_assigned [OF 1] by blast
  have sel: "selects s ?s'" by (rule selects_update_powersave [OF ok])
  have none: "i_assigned_obj (irqs ?s' r) = None"
    unfolding s' by (rule force_all_unassigns [OF 1 dist as]) (use r in simp_all)
  moreover have "i_assigned_obj (irqs s r) = Some d" using interrupts_assigned [OF ok r(1)] by (simp add: assigned_to_def)
  ultimately have "r \<in> set (rebalance_irq_list ?s')" using sel by (auto simp: selects_def stays_or_waits_def)
  moreover have "r \<notin> set (t_interrupts (objs ?s' d))"
    using interrupts_assigned [OF selects_ok [OF sel]] none by (auto simp: assigned_to_def)
  moreover have "t_powersave_mode (objs ?s' d)" unfolding s' fold_force_powersave by simp
  ultimately show ?thesis by blast
qed

end
