(* ===== verification/Activate.thy ===== *)
theory Activate
  imports Placement
begin

text \<open>
  The activation of \<open>activate.c\<close>: the affinity of every interrupt that was moved is written to
  \<open>/proc/irq/<n>/smp_affinity\<close>, with the search for another CPU when the kernel answers that the
  chosen one has no free vector. The kernel is a parameter: a state of any type and the results
  of the file operations on it.
\<close>

section \<open>The kernel side\<close>

datatype errno = Err_EPERM | Err_EIO | Err_EAGAIN | Err_ENOMEM | Err_EBUSY | Err_EINVAL | Err_ENOSPC
  | Err_ERANGE | Err_other nat

text \<open>
  The operations on \<open>/proc/irq/<n>/smp_affinity\<close>: reading its first line, \<open>fopen\<close>, \<open>fprintf\<close> of a
  text, \<open>fflush\<close> and \<open>fclose\<close>. A failure carries \<open>errno\<close>.
\<close>

record 'k kernel_ops =
  k_read :: "int \<Rightarrow> 'k \<Rightarrow> string option"
  k_fopen :: "int \<Rightarrow> 'k \<Rightarrow> errno option \<times> 'k"
  k_fprintf :: "int \<Rightarrow> string \<Rightarrow> 'k \<Rightarrow> errno option \<times> 'k"
  k_fflush :: "int \<Rightarrow> 'k \<Rightarrow> errno option \<times> 'k"
  k_fclose :: "int \<Rightarrow> 'k \<Rightarrow> errno option \<times> 'k"

definition PATH_MAX :: nat where
  "PATH_MAX = 4096"

text \<open>The text \<open>cpumask_scnprintf\<close> leaves in a buffer of \<open>PATH_MAX\<close> bytes.\<close>

definition affinity_text :: "cpumask \<Rightarrow> string" where
  "affinity_text m = (case cpumask_scnprintf PATH_MAX m of Some (out, len) \<Rightarrow> out | None \<Rightarrow> '''')"

section \<open>Fallback CPUs\<close>

definition MAX_FALLBACK_ATTEMPTS :: nat where
  "MAX_FALLBACK_ATTEMPTS = 8"

definition SLOTS_SATURATED :: int where
  "SLOTS_SATURATED = 0"

text \<open>The lists of the topology hold no null pointers, so the first check has no counterpart.\<close>

definition is_valid_fallback :: "state \<Rightarrow> obj_ref \<Rightarrow> obj_ref \<Rightarrow> cpumask \<Rightarrow> bool" where
  "is_valid_fallback s cpu original tried_cpus =
     (if cpu = original \<or> t_obj_type (objs s cpu) \<noteq> OBJ_TYPE_CPU then False
      else if t_slots_left (objs s cpu) \<le> SLOTS_SATURATED then False
      else if \<not> cpus_intersects (t_mask (objs s cpu)) (unbanned_cpus s) then False
      else if cpus_intersects (t_mask (objs s cpu)) tried_cpus then False
      else True)"

text \<open>The recursion follows the children; the fuel bounds its depth.\<close>

definition better_cpu :: "state \<Rightarrow> obj_ref option \<Rightarrow> obj_ref option \<Rightarrow> obj_ref option" where
  "better_cpu s candidate cur =
     (case candidate of
        None \<Rightarrow> cur
      | Some c \<Rightarrow> (case cur of
            None \<Rightarrow> Some c
          | Some b \<Rightarrow> if t_slots_left (objs s c) > t_slots_left (objs s b) then Some c else Some b))"

fun find_best_cpu_under_obj :: "nat \<Rightarrow> state \<Rightarrow> obj_ref \<Rightarrow> obj_ref \<Rightarrow> cpumask \<Rightarrow> obj_ref option" where
  "find_best_cpu_under_obj 0 s obj original tried_cpus = None"
| "find_best_cpu_under_obj (Suc n) s obj original tried_cpus =
     (if t_obj_type (objs s obj) = OBJ_TYPE_CPU
      then (if is_valid_fallback s obj original tried_cpus then Some obj else None)
      else fold (\<lambda>child. better_cpu s (find_best_cpu_under_obj n s child original tried_cpus))
             (t_children (objs s obj)) None)"

definition balance_level_str :: "int \<Rightarrow> string" where
  "balance_level_str level =
     (if level = BALANCE_NONE then ''none''
      else if level = BALANCE_PACKAGE then ''package''
      else if level = BALANCE_CACHE then ''cache''
      else if level = BALANCE_CORE then ''core''
      else ''unknown'')"

text \<open>\<open>while (scope && scope->obj_type != ty) scope = scope->parent;\<close>, again with the depth as fuel.\<close>

fun ancestor_of_type :: "nat \<Rightarrow> state \<Rightarrow> obj_type_e \<Rightarrow> obj_ref option \<Rightarrow> obj_ref option" where
  "ancestor_of_type 0 s ty scope = None"
| "ancestor_of_type (Suc n) s ty scope =
     (case scope of
        None \<Rightarrow> None
      | Some d \<Rightarrow> if t_obj_type (objs s d) \<noteq> ty then ancestor_of_type n s ty (t_parent (objs s d)) else Some d)"

definition fallback_scope :: "state \<Rightarrow> int \<Rightarrow> obj_ref \<Rightarrow> obj_ref option" where
  "fallback_scope s balance_level original =
     (if t_obj_type (objs s original) = OBJ_TYPE_CPU
      then (if balance_level = BALANCE_CACHE
            then ancestor_of_type TOPO_DEPTH s OBJ_TYPE_CACHE (t_parent (objs s original))
            else if balance_level = BALANCE_PACKAGE
            then ancestor_of_type TOPO_DEPTH s OBJ_TYPE_PACKAGE (t_parent (objs s original))
            else None)
      else Some original)"

definition set_assigned :: "irq_ref \<Rightarrow> obj_ref option \<Rightarrow> state \<Rightarrow> state" where
  "set_assigned r d s = upd_irq r (i_assigned_obj_update (\<lambda>_. d)) s"

definition set_moved :: "irq_ref \<Rightarrow> bool \<Rightarrow> state \<Rightarrow> state" where
  "set_moved r m s = upd_irq r (i_moved_update (\<lambda>_. m)) s"

definition set_slots :: "obj_ref \<Rightarrow> int \<Rightarrow> state \<Rightarrow> state" where
  "set_slots d n s = upd_obj d (t_slots_left_update (\<lambda>_. n)) s"

text \<open>
  Writing the mask of a fallback CPU: \<open>Inl None\<close> when the file cannot be opened, \<open>Inl (Some e)\<close>
  when printing or flushing fails. The result of \<open>fclose\<close> is ignored here.
\<close>

definition write_fallback ::
  "'k kernel_ops \<Rightarrow> int \<Rightarrow> cpumask \<Rightarrow> 'k \<Rightarrow> (errno option + unit) \<times> 'k" where
  "write_fallback ops irq applied_mask k =
     (case k_fopen ops irq k of
        (Some e, k) \<Rightarrow> (Inl None, k)
      | (None, k) \<Rightarrow>
          let (ret, k) = k_fprintf ops irq (affinity_text applied_mask) k;
              (ret, k) = (case ret of None \<Rightarrow> k_fflush ops irq k | Some e \<Rightarrow> (Some e, k));
              (_, k) = k_fclose ops irq k
          in (case ret of None \<Rightarrow> (Inr (), k) | Some e \<Rightarrow> (Inl (Some e), k)))"

text \<open>
  The loop, on the number of attempts that are left. A path that does not fit \<open>buf\<close> cannot occur:
  an \<open>int\<close> has at most 11 characters.
\<close>

fun fallback_loop ::
  "'k kernel_ops \<Rightarrow> irq_ref \<Rightarrow> obj_ref \<Rightarrow> obj_ref \<Rightarrow> nat \<Rightarrow> cpumask \<Rightarrow> state \<Rightarrow> 'k \<Rightarrow> bool \<times> state \<times> 'k" where
  "fallback_loop ops info original scope 0 tried_cpus s k = (False, s, k)"
| "fallback_loop ops info original scope (Suc attempts) tried_cpus s k =
     (case find_best_cpu_under_obj TOPO_DEPTH s scope original tried_cpus of
        None \<Rightarrow> (False, s, k)
      | Some fallback \<Rightarrow>
          let tried_cpus = cpus_or tried_cpus tried_cpus (t_mask (objs s fallback));
              s = set_assigned info (Some fallback) s;
              applied_mask = cpus_and CPU_MASK_NONE (cpu_online_map s) (t_mask (objs s fallback))
          in case write_fallback ops (i_irq (irqs s info)) applied_mask k of
               (Inl err, k) \<Rightarrow>
                 let s = (if err = Some Err_ENOSPC then set_slots fallback SLOTS_SATURATED s else s);
                     s = set_assigned info (Some original) s
                 in fallback_loop ops info original scope attempts tried_cpus s k
             | (Inr _, k) \<Rightarrow>
                 let s = migrate_irq_obj (Some original) (Some fallback) info s;
                     s = (if t_obj_type (objs s original) = OBJ_TYPE_CPU
                          then set_slots original SLOTS_SATURATED s else s);
                     s = set_moved info False s
                 in (True, s, k))"

text \<open>\<open>info->assigned_obj\<close> is not null here, the caller checked it.\<close>

definition try_fallback_cpu ::
  "'k kernel_ops \<Rightarrow> irq_ref \<Rightarrow> obj_ref \<Rightarrow> state \<Rightarrow> 'k \<Rightarrow> bool \<times> state \<times> 'k" where
  "try_fallback_cpu ops info original s k =
     (let balance_level = i_level (irqs s info)
      in if balance_level = BALANCE_CORE then (False, s, k)
         else if balance_level = BALANCE_NONE then (False, s, k)
         else
           case fallback_scope s balance_level original of
             None \<Rightarrow> (False, s, k)
           | Some scope \<Rightarrow>
               fallback_loop ops info original scope MAX_FALLBACK_ATTEMPTS (cpus_clear CPU_MASK_NONE) s k)"

section \<open>Activation\<close>

definition check_affinity :: "'k kernel_ops \<Rightarrow> int \<Rightarrow> cpumask \<Rightarrow> 'k \<Rightarrow> bool" where
  "check_affinity ops irq applied_mask k =
     (case k_read ops irq k of
        None \<Rightarrow> True
      | Some line \<Rightarrow> cpus_equal applied_mask (snd (cpumask_parse_user line CPU_MASK_NONE)))"

definition write_affinity :: "'k kernel_ops \<Rightarrow> int \<Rightarrow> cpumask \<Rightarrow> 'k \<Rightarrow> errno option \<times> 'k" where
  "write_affinity ops irq applied_mask k =
     (case k_fopen ops irq k of
        (Some e, k) \<Rightarrow> (Some e, k)
      | (None, k) \<Rightarrow>
          let (ret, k) = k_fprintf ops irq (affinity_text applied_mask) k;
              (ret, k) = (case ret of None \<Rightarrow> k_fflush ops irq k | Some e \<Rightarrow> (Some e, k));
              (cl, k) = k_fclose ops irq k
          in (case cl of Some e \<Rightarrow> (Some e, k) | None \<Rightarrow> (ret, k)))"

definition activation_failed :: "'k kernel_ops \<Rightarrow> errno \<Rightarrow> irq_ref \<Rightarrow> obj_ref \<Rightarrow> state \<Rightarrow> 'k \<Rightarrow> state \<times> 'k" where
  "activation_failed ops errsave info d s k =
     (let errsave = (if errsave = Err_EIO then Err_EPERM else errsave)
      in if errsave \<in> {Err_EAGAIN, Err_EBUSY, Err_EINVAL, Err_ERANGE, Err_ENOMEM} then (s, k)
         else if errsave = Err_ENOSPC
         then
           let s = (if t_obj_type (objs s d) = OBJ_TYPE_CPU then set_slots d SLOTS_SATURATED s else s)
           in case try_fallback_cpu ops info d s k of
                (True, s, k) \<Rightarrow> (s, k)
              | (False, s, k) \<Rightarrow> (set_moved info False (force_rebalance_irq info s), k)
         else (set_moved info False (upd_irq info (i_level_update (\<lambda>_. BALANCE_NONE)) s), k))"

definition activate_mapping :: "'k kernel_ops \<Rightarrow> irq_ref \<Rightarrow> state \<times> 'k \<Rightarrow> state \<times> 'k" where
  "activate_mapping ops info = (\<lambda>(s, k).
     if \<not> i_moved (irqs s info) then (s, k)
     else
       case i_assigned_obj (irqs s info) of
         None \<Rightarrow> (s, k)
       | Some d \<Rightarrow>
           let applied_mask = cpus_and CPU_MASK_NONE (cpu_online_map s) (t_mask (objs s d));
               irq = i_irq (irqs s info)
           in if check_affinity ops irq applied_mask k then (set_moved info False s, k)
              else case write_affinity ops irq applied_mask k of
                     (None, k) \<Rightarrow> (set_moved info False s, k)
                   | (Some e, k) \<Rightarrow> activation_failed ops e info d s k)"

definition activate_mappings :: "'k kernel_ops \<Rightarrow> state \<times> 'k \<Rightarrow> state \<times> 'k" where
  "activate_mappings ops sk = for_each_irq (interrupts_db (fst sk)) [] (activate_mapping ops) sk"


section \<open>What is written and read back\<close>

lemma cpumask_scnprintf_PATH_MAX:
  "cpumask_scnprintf PATH_MAX m = Some (bitmap_text m NR_CPUS, length (bitmap_text m NR_CPUS))"
proof -
  have "length (bitmap_text m NR_CPUS) \<le> 1152"
    using length_bitmap_text [of m NR_CPUS] by (simp add: NR_CPUS_def)
  then show ?thesis
    unfolding cpumask_scnprintf_def by (intro bitmap_scnprintf_fits) (simp add: PATH_MAX_def)
qed

lemma affinity_text_eq: "affinity_text m = bitmap_text m NR_CPUS"
  by (simp add: affinity_text_def cpumask_scnprintf_PATH_MAX)

lemma wf_CPU_MASK_NONE [simp]: "wf_cpumask CPU_MASK_NONE"
  by (simp add: wf_cpumask_def CPU_MASK_NONE_def)

lemma parse_affinity_text:
  assumes "wf_cpumask dst"
  shows "cpus_of (snd (cpumask_parse_user (affinity_text m) dst)) = cpus_of m"
    and "fst (cpumask_parse_user (affinity_text m) dst) = Parsed"
proof -
  have "wf_bitmap dst NR_CPUS" "32 < NR_CPUS" using assms by (simp_all add: wf_cpumask_bitmap NR_CPUS_def)
  from parse_bitmap_text [OF this(2,1), of m] obtain mk
    where "raw_bitmap_parse (bitmap_text m NR_CPUS) dst NR_CPUS = (Parsed, mk)" "bits_of mk NR_CPUS = bits_of m NR_CPUS"
    by blast
  then show "cpus_of (snd (cpumask_parse_user (affinity_text m) dst)) = cpus_of m"
    "fst (cpumask_parse_user (affinity_text m) dst) = Parsed"
    by (simp_all add: cpumask_parse_user_def affinity_text_eq cpus_of_def)
qed

section \<open>The search for a fallback CPU\<close>

inductive under :: "state \<Rightarrow> obj_ref \<Rightarrow> obj_ref \<Rightarrow> bool" for s where
  under_self: "under s d d"
| under_child: "c \<in> set (t_children (objs s d)) \<Longrightarrow> under s c x \<Longrightarrow> under s d x"

inductive_cases under_cases: "under s d x"

lemma better_cpu_None: "better_cpu s c cur = None \<longleftrightarrow> c = None \<and> cur = None"
  by (auto simp: better_cpu_def split: option.splits)

lemma better_cpu_Some:
  "better_cpu s c cur = Some b \<Longrightarrow> (c = Some b \<or> cur = Some b) \<and>
     (\<forall>x. c = Some x \<or> cur = Some x \<longrightarrow> t_slots_left (objs s x) \<le> t_slots_left (objs s b))"
  by (auto simp: better_cpu_def split: option.splits if_splits)

lemma better_cpu_fold_None:
  "fold (\<lambda>c. better_cpu s (f c)) cs cur = None \<longleftrightarrow> cur = None \<and> (\<forall>c \<in> set cs. f c = None)"
  by (induction cs arbitrary: cur) (auto simp: better_cpu_None)

lemma better_cpu_fold_Some:
  assumes "fold (\<lambda>c. better_cpu s (f c)) cs cur = Some b"
  shows "(cur = Some b \<or> (\<exists>c \<in> set cs. f c = Some b)) \<and>
    (\<forall>x. cur = Some x \<or> (\<exists>c \<in> set cs. f c = Some x) \<longrightarrow> t_slots_left (objs s x) \<le> t_slots_left (objs s b))"
  using assms
proof (induction cs arbitrary: cur)
  case (Cons c cs)
  let ?cur = "better_cpu s (f c) cur"
  have "fold (\<lambda>c. better_cpu s (f c)) cs ?cur = Some b" using Cons.prems by simp
  from Cons.IH [OF this] have IH: "?cur = Some b \<or> (\<exists>c \<in> set cs. f c = Some b)"
    "\<And>x. ?cur = Some x \<Longrightarrow> t_slots_left (objs s x) \<le> t_slots_left (objs s b)"
    "\<And>x c. c \<in> set cs \<Longrightarrow> f c = Some x \<Longrightarrow> t_slots_left (objs s x) \<le> t_slots_left (objs s b)"
    by blast+
  have "t_slots_left (objs s x) \<le> t_slots_left (objs s b)" if "cur = Some x \<or> f c = Some x" for x
  proof -
    from that obtain y where y: "?cur = Some y" using better_cpu_None [of s "f c" cur] by auto
    with better_cpu_Some [OF y] that IH(2) [OF y] show ?thesis by force
  qed
  with IH(1,3) better_cpu_Some [of s "f c" cur b] show ?case by auto
qed simp

lemma CPU_least [simp]: "\<not> t < OBJ_TYPE_CPU"
  by (simp add: less_obj_type_e_def)

lemma find_best_cpu_spec:
  assumes "tree_descends s" and "obj_type_value (t_obj_type (objs s obj)) < n"
  shows "case find_best_cpu_under_obj n s obj original tried of
      None \<Rightarrow> \<forall>c. under s obj c \<longrightarrow> \<not> is_valid_fallback s c original tried
    | Some b \<Rightarrow> under s obj b \<and> is_valid_fallback s b original tried \<and>
        (\<forall>c. under s obj c \<and> is_valid_fallback s c original tried \<longrightarrow>
           t_slots_left (objs s c) \<le> t_slots_left (objs s b))"
  using assms(2)
proof (induction n arbitrary: obj)
  case (Suc n)
  let ?valid = "\<lambda>c. is_valid_fallback s c original tried"
  show ?case
  proof (cases "t_obj_type (objs s obj) = OBJ_TYPE_CPU")
    case True
    then have "t_children (objs s obj) = []"
      using assms(1) unfolding tree_descends_def by (metis CPU_least list.set_intros(1) neq_Nil_conv)
    then have "under s obj c \<longleftrightarrow> c = obj" for c by (auto elim: under_cases intro: under_self)
    with True show ?thesis by simp
  next
    case False
    let ?f = "\<lambda>c. find_best_cpu_under_obj n s c original tried"
    have eq: "find_best_cpu_under_obj (Suc n) s obj original tried
        = fold (\<lambda>c. better_cpu s (?f c)) (t_children (objs s obj)) None"
      using False by simp
    have below: "under s obj c \<and> ?valid c \<longleftrightarrow> (\<exists>d \<in> set (t_children (objs s obj)). under s d c \<and> ?valid c)" for c
      using False by (auto elim: under_cases intro: under_child simp: is_valid_fallback_def)
    have IH: "case ?f c of None \<Rightarrow> \<forall>x. under s c x \<longrightarrow> \<not> ?valid x
        | Some b \<Rightarrow> under s c b \<and> ?valid b \<and> (\<forall>x. under s c x \<and> ?valid x \<longrightarrow> t_slots_left (objs s x) \<le> t_slots_left (objs s b))"
      if "c \<in> set (t_children (objs s obj))" for c
      using that Suc.prems assms(1) by (intro Suc.IH) (force simp: tree_descends_def less_obj_type_e_def)
    show ?thesis
    proof (cases "find_best_cpu_under_obj (Suc n) s obj original tried")
      case None
      with better_cpu_fold_None [where s = s and f = ?f and cs = "t_children (objs s obj)" and cur = None] eq
      have "\<forall>c \<in> set (t_children (objs s obj)). ?f c = None" by simp
      with IH below None show ?thesis by fastforce
    next
      case (Some b)
      with better_cpu_fold_Some [where s = s and f = ?f and cs = "t_children (objs s obj)" and cur = None] eq
      obtain d where d: "d \<in> set (t_children (objs s obj))" "?f d = Some b"
        and max: "\<And>x c. c \<in> set (t_children (objs s obj)) \<Longrightarrow> ?f c = Some x \<Longrightarrow> t_slots_left (objs s x) \<le> t_slots_left (objs s b)"
        by auto
      have b: "under s obj b \<and> ?valid b" using IH [OF d(1)] d below [of b] by auto
      have "t_slots_left (objs s x) \<le> t_slots_left (objs s b)" if x: "under s obj x" "?valid x" for x
      proof -
        obtain c where c: "c \<in> set (t_children (objs s obj))" "under s c x" using x below [of x] by auto
        with IH [OF c(1)] x(2) obtain y where y: "?f c = Some y" "t_slots_left (objs s x) \<le> t_slots_left (objs s y)"
          by (cases "?f c") auto
        with max [OF c(1) y(1)] show ?thesis by linarith
      qed
      with b Some show ?thesis by simp
    qed
  qed
qed simp

text \<open>The depth of the topology is fuel enough.\<close>

lemma find_best_cpu_fuel:
  assumes "tree_descends s" and "obj_type_value (t_obj_type (objs s obj)) < n"
    and "obj_type_value (t_obj_type (objs s obj)) < m"
  shows "find_best_cpu_under_obj n s obj original tried = find_best_cpu_under_obj m s obj original tried"
  using assms(2,3)
proof (induction n arbitrary: obj m)
  case (Suc n)
  then obtain m' where m: "m = Suc m'" by (cases m) auto
  have "find_best_cpu_under_obj n s c original tried = find_best_cpu_under_obj m' s c original tried"
    if "c \<in> set (t_children (objs s obj))" for c
    using that Suc.prems m assms(1) by (intro Suc.IH) (force simp: tree_descends_def less_obj_type_e_def)+
  then show ?case by (simp add: m cong: fold_cong)
qed simp

section \<open>What the fallback does to the state\<close>

text \<open>A state that differs in slot counters that were set to saturated, and in nothing else.\<close>

definition saturated :: "state \<Rightarrow> state \<Rightarrow> bool" where
  "saturated s s' \<longleftrightarrow> (\<exists>D. s' = s\<lparr> objs := \<lambda>d. if d \<in> D then (objs s d)\<lparr> t_slots_left := SLOTS_SATURATED \<rparr> else objs s d \<rparr>)"

lemma saturated_refl [simp]: "saturated s s"
  unfolding saturated_def by (rule exI [of _ "{}"]) simp

lemma saturated_set_slots: "saturated s s' \<Longrightarrow> saturated s (set_slots d SLOTS_SATURATED s')"
  unfolding saturated_def
proof (elim exE)
  fix D
  have *: "(\<lambda>d. if d \<in> D then (objs s d)\<lparr> t_slots_left := SLOTS_SATURATED \<rparr> else objs s d)
      (d := (objs s d)\<lparr> t_slots_left := SLOTS_SATURATED \<rparr>)
    = (\<lambda>x. if x \<in> insert d D then (objs s x)\<lparr> t_slots_left := SLOTS_SATURATED \<rparr> else objs s x)"
    by (auto simp: fun_eq_iff)
  assume "s' = s\<lparr> objs := \<lambda>d. if d \<in> D then (objs s d)\<lparr> t_slots_left := SLOTS_SATURATED \<rparr> else objs s d \<rparr>"
  then show "\<exists>D. set_slots d SLOTS_SATURATED s' = s\<lparr> objs := \<lambda>d. if d \<in> D then (objs s d)\<lparr> t_slots_left := SLOTS_SATURATED \<rparr> else objs s d \<rparr>"
    using * by (intro exI [of _ "insert d D"]) (simp add: set_slots_def upd_obj_def)
qed

lemma saturated_sel:
  assumes "saturated s s'"
  shows "irqs s' = irqs s" "same_frame s s'" "get_list l s' = get_list l s"
    "t_slots_left (objs s' d) = t_slots_left (objs s d) \<or> t_slots_left (objs s' d) = SLOTS_SATURATED"
proof -
  obtain D where s': "s' = s\<lparr> objs := \<lambda>d. if d \<in> D then (objs s d)\<lparr> t_slots_left := SLOTS_SATURATED \<rparr> else objs s d \<rparr>"
    using assms by (auto simp: saturated_def)
  show "irqs s' = irqs s" "same_frame s s'" by (auto simp: s' same_frame_def shape_def)
  show "get_list l s' = get_list l s" by (cases l) (auto simp: s')
  show "t_slots_left (objs s' d) = t_slots_left (objs s d) \<or> t_slots_left (objs s' d) = SLOTS_SATURATED"
    by (auto simp: s')
qed

lemma saturated_irqs_ok: "saturated s s' \<Longrightarrow> irqs_ok s' = irqs_ok s"
proof -
  assume sat: "saturated s s'"
  have "t_interrupts (objs s' d) = t_interrupts (objs s d)" for d
    using saturated_sel(3) [OF sat, of "Interrupts d"] by simp
  then show ?thesis
    using saturated_sel(1,2) [OF sat] by (simp add: irqs_ok_def saturated_sel(3) [OF sat] same_frame_def)
qed

lemma saturated_on_its_list: "saturated s s' \<Longrightarrow> on_its_list s' r = on_its_list s r"
  by (simp add: on_its_list_def saturated_sel)

lemma set_assigned_back:
  "i_assigned_obj (irqs s r) = Some d \<Longrightarrow> set_assigned r (Some d) (set_assigned r x s) = s"
proof -
  assume "i_assigned_obj (irqs s r) = Some d"
  then have "(irqs s r)\<lparr> i_assigned_obj := Some d \<rparr> = irqs s r" by (cases "irqs s r") simp
  then show ?thesis by (simp add: set_assigned_def upd_irq_def)
qed

lemma set_assigned_set_slots: "set_slots f n (set_assigned r x s) = set_assigned r x (set_slots f n s)"
  by (simp add: set_assigned_def set_slots_def upd_irq_def upd_obj_def)

text \<open>
  The temporary assignment of the loop does not matter to \<open>migrate_irq_obj\<close>, which is given the
  source and sets the new object.
\<close>

lemma same_irq_set_assigned [simp]: "same_irq (set_assigned r x s) = same_irq s"
  by (auto simp: same_irq_def set_assigned_def fun_eq_iff)

lemma get_list_set_assigned [simp]: "get_list l (set_assigned r x s) = get_list l s"
  by (simp add: set_assigned_def)

lemma set_list_set_assigned: "set_list l xs (set_assigned r x s) = set_assigned r x (set_list l xs s)"
  by (cases l) (simp_all add: set_assigned_def upd_irq_def upd_obj_def)

lemma migrate_irq_set_assigned: "migrate_irq l l' r (set_assigned r x s) = set_assigned r x (migrate_irq l l' r s)"
proof -
  have "i_irq (irqs (set_assigned r x s) r) = i_irq (irqs s r)" by (simp add: set_assigned_def)
  moreover have "upd_irq r (i_moved_update (\<lambda>_. True)) (set_assigned r x t)
      = set_assigned r x (upd_irq r (i_moved_update (\<lambda>_. True)) t)" for t
    by (cases "irqs t r") (simp add: set_assigned_def upd_irq_def)
  ultimately show ?thesis
    by (simp add: migrate_irq_def Let_def set_list_set_assigned split: option.split)
qed

lemma migrate_set_assigned:
  assumes "irqs_ok s" "on_its_list s r" "i_assigned_obj (irqs s r) = Some d"
  shows "migrate_irq_obj (Some d) to r (set_assigned r x s) = migrate_irq_obj (Some d) to r s"
proof -
  let ?m = "migrate_irq (Interrupts d) (list_of to) r s"
  have "i_moved (irqs ?m r)"
    using find_on_list(1) [OF assms(1), of r "Interrupts d"] assms(2,3)
    by (simp add: migrate_irq_irqs on_its_list_def)
  then show ?thesis
    unfolding migrate_irq_obj_def Let_def list_of_simps option.case migrate_irq_set_assigned
    by (simp add: set_assigned_def upd_irq_def upd_obj_def split: option.split)
qed

text \<open>
  The loop ends in a state where only slot counters are saturated, and, when it succeeds, with the
  interrupt migrated from there to a CPU of the scope that was valid at that point.
\<close>

lemma same_frame_under: "same_frame s s' \<Longrightarrow> under s' = under s"
proof -
  assume "same_frame s s'"
  then have c: "t_children (objs s' d) = t_children (objs s d)" for d by (rule same_frame_children)
  have "under s' d x \<Longrightarrow> under s d x" for d x
    by (induction rule: under.induct) (auto intro: under.intros simp: c)
  moreover have "under s d x \<Longrightarrow> under s' d x" for d x
    by (induction rule: under.induct) (auto intro: under.intros simp: c)
  ultimately show ?thesis by (auto simp: fun_eq_iff)
qed

lemma same_frame_descends: "same_frame s s' \<Longrightarrow> tree_descends s' = tree_descends s"
  by (simp add: tree_descends_def same_frame_type same_frame_children)

lemma saturated_trans: "saturated s s' \<Longrightarrow> saturated s' s'' \<Longrightarrow> saturated s s''"
  unfolding saturated_def
proof (elim exE)
  fix D E
  assume 1: "s' = s\<lparr> objs := \<lambda>d. if d \<in> D then (objs s d)\<lparr> t_slots_left := SLOTS_SATURATED \<rparr> else objs s d \<rparr>"
    and 2: "s'' = s'\<lparr> objs := \<lambda>d. if d \<in> E then (objs s' d)\<lparr> t_slots_left := SLOTS_SATURATED \<rparr> else objs s' d \<rparr>"
  have "(\<lambda>d. if d \<in> E then (objs s' d)\<lparr> t_slots_left := SLOTS_SATURATED \<rparr> else objs s' d)
    = (\<lambda>d. if d \<in> D \<union> E then (objs s d)\<lparr> t_slots_left := SLOTS_SATURATED \<rparr> else objs s d)"
    by (auto simp: 1 fun_eq_iff)
  with 1 2 show "\<exists>D. s'' = s\<lparr> objs := \<lambda>d. if d \<in> D then (objs s d)\<lparr> t_slots_left := SLOTS_SATURATED \<rparr> else objs s d \<rparr>"
    by (intro exI [of _ "D \<union> E"]) simp
qed

definition fallback_done :: "irq_ref \<Rightarrow> obj_ref \<Rightarrow> obj_ref \<Rightarrow> state \<Rightarrow> bool \<Rightarrow> state \<Rightarrow> bool" where
  "fallback_done r original scope s found s' \<longleftrightarrow>
     (if found
      then \<exists>s1 fb tried. saturated s s1 \<and> under s scope fb \<and> is_valid_fallback s1 fb original tried \<and>
        s' = set_moved r False (let s2 = migrate_irq_obj (Some original) (Some fb) r s1
          in if t_obj_type (objs s original) = OBJ_TYPE_CPU then set_slots original SLOTS_SATURATED s2 else s2)
      else saturated s s')"

lemma fallback_done_trans:
  "saturated s s0 \<Longrightarrow> fallback_done r original scope s0 found s' \<Longrightarrow> fallback_done r original scope s found s'"
  using saturated_sel(2) [of s s0] same_frame_under [of s s0] same_frame_type [of s s0 original]
  by (cases found) (auto simp: fallback_done_def intro: saturated_trans)

lemma fallback_loop_result:
  assumes "irqs_ok s" "on_its_list s r" "i_assigned_obj (irqs s r) = Some original" "tree_descends s"
    and "fallback_loop ops r original scope n tried s k = (found, s', k')"
  shows "fallback_done r original scope s found s'"
  using assms
proof (induction n arbitrary: tried s k)
  case (Suc n)
  show ?case
  proof (cases "find_best_cpu_under_obj TOPO_DEPTH s scope original tried")
    case None
    with Suc.prems(5) show ?thesis by (auto simp: fallback_done_def)
  next
    case (Some fb)
    have fb: "under s scope fb" "is_valid_fallback s fb original tried"
      using find_best_cpu_spec [OF Suc.prems(4) type_value_less_depth, of scope original tried] Some by auto
    let ?tried = "cpus_or tried tried (t_mask (objs s fb))"
    let ?s = "set_assigned r (Some fb) s"
    obtain res k1 where w: "write_fallback ops (i_irq (irqs ?s r)) (cpus_and CPU_MASK_NONE (cpu_online_map ?s)
        (t_mask (objs ?s fb))) k = (res, k1)" by fastforce
    show ?thesis
    proof (cases res)
      case (Inl err)
      define s0 where "s0 = (if err = Some Err_ENOSPC then set_slots fb SLOTS_SATURATED s else s)"
      have sat: "saturated s s0" by (simp add: s0_def saturated_set_slots)
      have assigned0: "i_assigned_obj (irqs s0 r) = Some original"
        using Suc.prems(3) saturated_sel(1) [OF sat] by simp
      have "set_assigned r (Some original) (if err = Some Err_ENOSPC then set_slots fb SLOTS_SATURATED ?s else ?s) = s0"
        using set_assigned_back [of s0 r original "Some fb"] assigned0
        by (auto simp: s0_def set_assigned_set_slots)
      with Suc.prems(5) Some w Inl have "fallback_loop ops r original scope n ?tried s0 k1 = (found, s', k')"
        by (simp add: Let_def)
      then have "fallback_done r original scope s0 found s'"
        using Suc.prems assigned0 saturated_irqs_ok [OF sat] saturated_on_its_list [OF sat]
          same_frame_descends [OF saturated_sel(2) [OF sat]] by (intro Suc.IH) auto
      with sat show ?thesis by (rule fallback_done_trans)
    next
      case (Inr u)
      have "t_obj_type (objs (migrate_irq_obj (Some original) (Some fb) r s) original) = t_obj_type (objs s original)"
        by (rule same_frame_type [OF same_frame_migrate_irq_obj])
      with Suc.prems(5) Some w Inr migrate_set_assigned [OF Suc.prems(1-3), of "Some fb" "Some fb"]
      have "found" "s' = set_moved r False (let s2 = migrate_irq_obj (Some original) (Some fb) r s
          in if t_obj_type (objs s original) = OBJ_TYPE_CPU then set_slots original SLOTS_SATURATED s2 else s2)"
        by (simp_all add: Let_def)
      with fb show ?thesis unfolding fallback_done_def by (simp only: if_True) (blast intro: saturated_refl)
    qed
  qed
qed (simp add: fallback_done_def)


section \<open>The invariant of the lists\<close>

lemma irqs_ok_set_moved [simp]: "irqs_ok (set_moved r b s) = irqs_ok s"
  by (simp add: set_moved_def irqs_ok_upd_irq)

lemma irqs_ok_set_slots [simp]: "irqs_ok (set_slots d SLOTS_SATURATED s) = irqs_ok s"
  by (rule saturated_irqs_ok) (simp add: saturated_set_slots)

lemma same_frame_set_moved: "same_frame s (set_moved r b s)"
  unfolding set_moved_def by (rule same_frame_upd_irq) simp

lemma same_frame_set_slots: "same_frame s (set_slots d n s)"
  unfolding set_slots_def by (rule same_frame_upd_obj) (simp add: shape_def)

text \<open>After a successful fallback the interrupt is on the list of the new CPU.\<close>

lemma fallback_found:
  assumes ok: "irqs_ok s" and on: "on_its_list s r" and as: "i_assigned_obj (irqs s r) = Some original"
    and don: "fallback_done r original scope s True s'"
  obtains fb where "under s scope fb" "t_obj_type (objs s fb) = OBJ_TYPE_CPU" "fb \<noteq> original"
    "cpus_intersects (t_mask (objs s fb)) (unbanned_cpus s)"
    "irqs_ok s'" "same_frame s s'" "irqs s' = (irqs s)(r := (irqs s r)\<lparr> i_moved := False, i_assigned_obj := Some fb \<rparr>)"
    "t_obj_type (objs s original) = OBJ_TYPE_CPU \<Longrightarrow> t_slots_left (objs s' original) = SLOTS_SATURATED"
proof -
  obtain s1 fb tried where *: "saturated s s1" "under s scope fb" "is_valid_fallback s1 fb original tried"
    "s' = set_moved r False (let s2 = migrate_irq_obj (Some original) (Some fb) r s1
       in if t_obj_type (objs s original) = OBJ_TYPE_CPU then set_slots original SLOTS_SATURATED s2 else s2)"
    using don by (auto simp: fallback_done_def)
  let ?s2 = "migrate_irq_obj (Some original) (Some fb) r s1"
  have s1: "irqs_ok s1" "on_its_list s1 r" "Some original = None \<or> Some original = i_assigned_obj (irqs s1 r)"
    using ok on as saturated_irqs_ok [OF *(1)] saturated_on_its_list [OF *(1)] saturated_sel(1) [OF *(1)] by auto
  note eff = migrate_irq_obj_effect [OF s1, where to = "Some fb"]
  have ok2: "irqs_ok ?s2" by (rule irqs_ok_migrate [OF s1])
  have fr: "same_frame s ?s2" using same_frame_trans [OF saturated_sel(2) [OF *(1)] eff(3)] .
  have "same_frame s s'" unfolding *(4) Let_def
    using same_frame_trans [OF fr same_frame_set_slots] fr same_frame_trans [OF _ same_frame_set_moved] by simp
  moreover have "irqs_ok s'" using ok2 by (simp add: *(4) Let_def)
  moreover have "irqs s' = (irqs s)(r := (irqs s r)\<lparr> i_moved := False, i_assigned_obj := Some fb \<rparr>)"
    using eff(1) saturated_sel(1) [OF *(1)] by (cases "irqs s r") (simp add: *(4) Let_def set_moved_def set_slots_def)
  moreover have "t_obj_type (objs s original) = OBJ_TYPE_CPU \<Longrightarrow> t_slots_left (objs s' original) = SLOTS_SATURATED"
    by (simp add: *(4) set_moved_def set_slots_def)
  moreover have "fb \<noteq> original" "t_obj_type (objs s fb) = OBJ_TYPE_CPU" "cpus_intersects (t_mask (objs s fb)) (unbanned_cpus s)"
    using *(3) saturated_sel(2) [OF *(1)] by (auto simp: is_valid_fallback_def same_frame_def shape_def split: if_splits)
  ultimately show thesis using *(2) that by blast
qed

lemma try_fallback_done:
  assumes "irqs_ok s" "on_its_list s r" "i_assigned_obj (irqs s r) = Some original" "tree_descends s"
    and "try_fallback_cpu ops r original s k = (found, s', k')"
  shows "(\<not> found \<and> saturated s s') \<or>
    (\<exists>scope. fallback_scope s (i_level (irqs s r)) original = Some scope \<and>
       i_level (irqs s r) \<noteq> BALANCE_CORE \<and> i_level (irqs s r) \<noteq> BALANCE_NONE \<and>
       fallback_done r original scope s found s')"
proof (cases "i_level (irqs s r) = BALANCE_CORE \<or> i_level (irqs s r) = BALANCE_NONE
    \<or> fallback_scope s (i_level (irqs s r)) original = None")
  case True
  then have "found = False" "s' = s" using assms(5) by (auto simp: try_fallback_cpu_def Let_def split: if_splits)
  then show ?thesis by simp
next
  case False
  then obtain scope where scope: "fallback_scope s (i_level (irqs s r)) original = Some scope" by auto
  with False assms(5) have "fallback_loop ops r original scope MAX_FALLBACK_ATTEMPTS (cpus_clear CPU_MASK_NONE) s k = (found, s', k')"
    by (simp add: try_fallback_cpu_def Let_def)
  from fallback_loop_result [OF assms(1-4) this] scope False show ?thesis by blast
qed

lemma try_fallback_ok:
  assumes "irqs_ok s" "on_its_list s r" "i_assigned_obj (irqs s r) = Some original" "tree_descends s"
    and "try_fallback_cpu ops r original s k = (found, s', k')"
  shows "irqs_ok s'" "same_frame s s'" "\<not> found \<Longrightarrow> saturated s s'"
proof -
  from try_fallback_done [OF assms] consider "saturated s s'" "\<not> found"
    | scope where "fallback_done r original scope s found s'" "found"
    by (cases found) (auto simp: fallback_done_def)
  then have "irqs_ok s' \<and> same_frame s s' \<and> (\<not> found \<longrightarrow> saturated s s')"
  proof cases
    case 1
    then show ?thesis using saturated_irqs_ok [of s s'] saturated_sel(2) [of s s'] assms(1) by simp
  next
    case (2 scope)
    then have "fallback_done r original scope s True s'" by simp
    from fallback_found [OF assms(1-3) this] 2 show ?thesis by metis
  qed
  then show "irqs_ok s'" "same_frame s s'" "\<not> found \<Longrightarrow> saturated s s'" by blast+
qed

lemma activation_failed_ok:
  assumes "irqs_ok s" "on_its_list s r" "i_assigned_obj (irqs s r) = Some d" "tree_descends s"
  shows "irqs_ok (fst (activation_failed ops e r d s k)) \<and> same_frame s (fst (activation_failed ops e r d s k))"
proof -
  define e' where "e' = (if e = Err_EIO then Err_EPERM else e)"
  show ?thesis
  proof (cases "e' = Err_ENOSPC")
    case True
    define s0 where "s0 = (if t_obj_type (objs s d) = OBJ_TYPE_CPU then set_slots d SLOTS_SATURATED s else s)"
    have sat: "saturated s s0" by (simp add: s0_def saturated_set_slots)
    obtain found s' k' where f: "try_fallback_cpu ops r d s0 k = (found, s', k')" by (metis prod_cases3)
    have s0: "irqs_ok s0" "on_its_list s0 r" "i_assigned_obj (irqs s0 r) = Some d" "tree_descends s0"
      using assms saturated_irqs_ok [OF sat] saturated_on_its_list [OF sat] saturated_sel(1) [OF sat]
        same_frame_descends [OF saturated_sel(2) [OF sat]] by auto
    note res = try_fallback_ok [OF s0 f]
    have fr: "same_frame s s'" by (rule same_frame_trans [OF saturated_sel(2) [OF sat] res(2)])
    have eq: "activation_failed ops e r d s k
        = (if found then (s', k') else (set_moved r False (force_rebalance_irq r s'), k'))"
      using True f by (simp add: activation_failed_def Let_def e'_def s0_def split: if_splits bool.split)
    show ?thesis
    proof (cases found)
      case True
      then show ?thesis using eq res(1) fr by simp
    next
      case False
      have "on_its_list s' r" "i_assigned_obj (irqs s' r) = Some d"
        using res(3) [OF False] s0 saturated_on_its_list saturated_sel(1) by auto
      then have "irqs_ok (force_rebalance_irq r s')"
        using res(1) by (intro irqs_ok_force_rebalance on_its_list_db) auto
      with eq False same_frame_trans [OF same_frame_trans [OF fr same_frame_force_rebalance] same_frame_set_moved]
      show ?thesis by simp
    qed
  next
    case False
    have "same_frame s (upd_irq r (i_level_update (\<lambda>_. BALANCE_NONE)) s)" by (rule same_frame_upd_irq) simp
    from same_frame_trans [OF this same_frame_set_moved] False assms(1) show ?thesis
      by (simp add: activation_failed_def Let_def e'_def irqs_ok_upd_irq)
  qed
qed

lemma activate_mapping_ok:
  assumes "irqs_ok s" "r \<in> set (interrupts_db s)" "tree_descends s"
  shows "irqs_ok (fst (activate_mapping ops r (s, k))) \<and> same_frame s (fst (activate_mapping ops r (s, k)))"
proof (cases "i_assigned_obj (irqs s r)")
  case None
  with assms show ?thesis by (simp add: activate_mapping_def)
next
  case (Some d)
  then have on: "on_its_list s r" using assms by (auto simp: on_its_list_def irqs_ok_def)
  obtain res k1 where w: "write_affinity ops (i_irq (irqs s r)) (cpus_and CPU_MASK_NONE (cpu_online_map s) (t_mask (objs s d))) k
      = (res, k1)" by fastforce
  from activation_failed_ok [OF assms(1) on Some assms(3), of ops _ k1] assms(1) Some w same_frame_set_moved show ?thesis
    by (cases res) (simp_all add: activate_mapping_def Let_def)
qed

lemma activate_mappings_ok:
  assumes "irqs_ok s" "tree_descends s"
  shows "irqs_ok (fst (activate_mappings ops (s, k))) \<and> same_frame s (fst (activate_mappings ops (s, k)))"
proof -
  let ?I = "\<lambda>sk. irqs_ok (fst sk) \<and> same_frame s (fst sk)"
  have "?I (fold (activate_mapping ops) (interrupts_db s) (s, k))"
  proof (rule fold_invariant_on)
    fix r and sk :: "state \<times> 'a" assume r: "r \<in> set (interrupts_db s)" and I: "?I sk"
    then have "r \<in> set (interrupts_db (fst sk))" "tree_descends (fst sk)"
      using same_frame_descends [of s "fst sk"] assms(2) by (auto simp: same_frame_def)
    from activate_mapping_ok [OF conjunct1 [OF I] this, of ops "snd sk"] I show "?I (activate_mapping ops r sk)"
      using same_frame_trans by auto
  qed (use assms in simp)
  then show ?thesis by (simp add: activate_mappings_def for_each_irq_def)
qed

section \<open>Properties\<close>

text \<open>
  The buffers of \<open>PATH_MAX\<close> bytes in which the masks are printed before they are written to
  \<open>smp_affinity\<close> are large enough for every mask: the printer never leaves them and never truncates.
\<close>

theorem affinity_buffer_suffices:
  "\<exists>out. cpumask_scnprintf PATH_MAX m = Some (out, length out) \<and> out = affinity_text m \<and> length out < PATH_MAX"
proof -
  have "length (bitmap_text m NR_CPUS) \<le> 1152"
    using length_bitmap_text [of m NR_CPUS] by (simp add: NR_CPUS_def)
  then have "length (bitmap_text m NR_CPUS) < PATH_MAX" by (simp add: PATH_MAX_def)
  then show ?thesis by (simp add: cpumask_scnprintf_PATH_MAX affinity_text_eq)
qed

text \<open>
  The check before a write recognises its own output: when the kernel reports the text that was
  written for some mask, \<open>check_affinity\<close> holds exactly for masks with the same CPUs.
\<close>

theorem check_affinity_after_write:
  assumes "k_read ops irq k = Some (affinity_text m)"
  shows "check_affinity ops irq m' k = (cpus_of m' = cpus_of m)"
  using assms parse_affinity_text(1) [OF wf_CPU_MASK_NONE, of m] by (simp add: check_affinity_def mask.equal_op)

text \<open>
  (C11) The recursive search for a fallback CPU is exact: in a topology whose objects only contain
  objects of smaller types it returns a valid CPU below the given object with the most free slots
  of all valid ones, and nothing only if there is no valid one.
\<close>

theorem find_best_cpu_under_obj_is_optimal:
  assumes "tree_descends s"
  shows "case find_best_cpu_under_obj TOPO_DEPTH s obj original tried of
      None \<Rightarrow> \<forall>c. under s obj c \<longrightarrow> \<not> is_valid_fallback s c original tried
    | Some b \<Rightarrow> under s obj b \<and> is_valid_fallback s b original tried \<and>
        (\<forall>c. under s obj c \<and> is_valid_fallback s c original tried \<longrightarrow>
           t_slots_left (objs s c) \<le> t_slots_left (objs s b))"
  by (rule find_best_cpu_spec [OF assms type_value_less_depth])

text \<open>
  Termination of that recursion: the depth of a topology, four, is fuel enough; more fuel gives
  the same CPU.
\<close>

theorem find_best_cpu_under_obj_terminates:
  assumes "tree_descends s" and "TOPO_DEPTH \<le> n"
  shows "find_best_cpu_under_obj n s obj original tried = find_best_cpu_under_obj TOPO_DEPTH s obj original tried"
  using assms type_value_less_depth [of "t_obj_type (objs s obj)"]
  by (intro find_best_cpu_fuel) (auto intro: less_le_trans)

text \<open>
  (C12) A fallback that succeeds moves the interrupt to another CPU of its scope that is not banned,
  clears its \<open>moved\<close> flag, keeps the lists consistent, and leaves the CPU it came from saturated. It
  never happens for interrupts balanced by core or not at all.
\<close>

theorem try_fallback_cpu_success:
  assumes "irqs_ok s" and "on_its_list s r" and "i_assigned_obj (irqs s r) = Some original" and "tree_descends s"
    and "try_fallback_cpu ops r original s k = (True, s', k')"
  shows "i_level (irqs s r) \<noteq> BALANCE_CORE \<and> i_level (irqs s r) \<noteq> BALANCE_NONE \<and> irqs_ok s' \<and>
    (\<exists>scope fb. fallback_scope s (i_level (irqs s r)) original = Some scope \<and> under s scope fb \<and> fb \<noteq> original \<and>
       t_obj_type (objs s fb) = OBJ_TYPE_CPU \<and> cpus_of (t_mask (objs s fb)) \<inter> cpus_of (unbanned_cpus s) \<noteq> {} \<and>
       i_assigned_obj (irqs s' r) = Some fb \<and> \<not> i_moved (irqs s' r) \<and>
       (t_obj_type (objs s original) = OBJ_TYPE_CPU \<longrightarrow> t_slots_left (objs s' original) = SLOTS_SATURATED))"
proof -
  from try_fallback_done [OF assms] obtain scope where scope:
    "fallback_scope s (i_level (irqs s r)) original = Some scope" "i_level (irqs s r) \<noteq> BALANCE_CORE"
    "i_level (irqs s r) \<noteq> BALANCE_NONE" "fallback_done r original scope s True s'" by auto
  from fallback_found [OF assms(1-3) scope(4)] obtain fb where fb: "under s scope fb"
    "t_obj_type (objs s fb) = OBJ_TYPE_CPU" "fb \<noteq> original" "cpus_intersects (t_mask (objs s fb)) (unbanned_cpus s)"
    "irqs_ok s'" "irqs s' = (irqs s)(r := (irqs s r)\<lparr> i_moved := False, i_assigned_obj := Some fb \<rparr>)"
    "t_obj_type (objs s original) = OBJ_TYPE_CPU \<Longrightarrow> t_slots_left (objs s' original) = SLOTS_SATURATED" by metis
  then show ?thesis using scope by (auto simp: mask.intersects_op)
qed


text \<open>
  (C6) Activating the mappings keeps the lists and the \<open>assigned_obj\<close> fields in agreement and leaves
  the topology alone, whatever the kernel answers to the writes.
\<close>

theorem activate_mappings_keeps_lists:
  assumes "irqs_ok s" and "tree_descends s"
  shows "irqs_ok (fst (activate_mappings ops (s, k))) \<and> same_frame s (fst (activate_mappings ops (s, k)))"
  by (rule activate_mappings_ok [OF assms])

text \<open>
  The error policy of \<open>activate_mapping\<close>: after a write that the kernel refused, transient errors
  leave the daemon's state as it is, so that the write is tried again; permanent ones take the
  interrupt out of balancing for good.
\<close>

theorem activation_error_policy:
  "activation_failed ops Err_EAGAIN r d s k = (s, k)
   \<and> activation_failed ops Err_EBUSY r d s k = (s, k)
   \<and> activation_failed ops Err_EINVAL r d s k = (s, k)
   \<and> activation_failed ops Err_ERANGE r d s k = (s, k)
   \<and> activation_failed ops Err_ENOMEM r d s k = (s, k)
   \<and> activation_failed ops Err_EIO r d s k = activation_failed ops Err_EPERM r d s k
   \<and> irqs (fst (activation_failed ops Err_EPERM r d s k)) r = (irqs s r)\<lparr> i_level := BALANCE_NONE, i_moved := False \<rparr>
   \<and> irqs (fst (activation_failed ops (Err_other n) r d s k)) r = (irqs s r)\<lparr> i_level := BALANCE_NONE, i_moved := False \<rparr>"
  by (simp add: activation_failed_def Let_def set_moved_def)

end
