(* ===== verification/Procstat.thy ===== *)
theory Procstat
  imports Classify Irqlist Activate
begin

text \<open>
  The counters of \<open>/proc/interrupts\<close> and \<open>/proc/stat\<close> (the second half of \<open>procinterrupts.c\<close>): how many
  interrupts have arrived, how loaded the CPUs are, and which share of the load each interrupt
  is responsible for.
\<close>

section \<open>/proc/interrupts\<close>

lemma read_number_shorter:
  assumes "read_number base s = Some (neg, v, rest)"
  shows "length rest < length s"
proof -
  define a where "a = dropWhile isspace s"
  define b where "b = (case a of c # t \<Rightarrow> if c = CHR ''-'' \<or> c = CHR ''+'' then t else a | [] \<Rightarrow> a)"
  define c where "c = (if base = 16 \<and> (g_str_has_prefix b ''0x'' \<or> g_str_has_prefix b ''0X'')
    \<and> starts_with_digit base (drop 2 b) then drop 2 b else b)"
  have le: "length a \<le> length s" unfolding a_def by (rule length_dropWhile_le)
  have "length b \<le> length a" "length c \<le> length b" by (auto simp: b_def c_def split: list.split)
  note le = le this
  have "starts_with_digit base c \<and> rest = snd (read_digits base c 0)"
    using assms unfolding read_number_def Let_def a_def [symmetric]
    by (cases a) (auto simp: b_def c_def split: if_splits prod.splits)
  moreover from this obtain x y d where "c = x # y" "digit_val base x = Some d"
    by (cases c) (auto simp: starts_with_digit_def)
  ultimately have "length rest < length c"
    using read_digits_rest [of base y "base * 0 + d"] by simp
  with le show ?thesis by simp
qed

text \<open>
  The loop over the counters of a line. At the end of the text \<open>strchr\<close> finds the terminator, so a
  number that ends the line is counted too.
\<close>

function count_loop :: "string \<Rightarrow> u64 \<Rightarrow> nat \<Rightarrow> u64 \<times> nat" where
  "count_loop c cnt cpunr =
     (case read_number 10 c of
        None \<Rightarrow> (cnt, cpunr)
      | Some (_, _, c2) \<Rightarrow>
          if c2 = [] \<or> isblank (hd c2) then count_loop c2 (cnt + fst (strtoul 10 c)) (cpunr + 1)
          else (cnt, cpunr))"
  by pat_completeness auto
termination
  by (relation "measure (\<lambda>(c, _). length c)") (auto dest: read_number_shorter)

declare count_loop.simps [simp del]

text \<open>One line: the interrupt it belongs to, and its counters. False is a \<open>break\<close>.\<close>

definition line_irq :: "sys \<Rightarrow> string \<Rightarrow> int \<Rightarrow> state \<Rightarrow> irq_ref option \<times> state" where
  "line_irq sys savedline number s =
     (case get_irq_info number s of
        Some r \<Rightarrow> (Some r, s)
      | None \<Rightarrow> proc_irq_hotplug sys savedline number s)"

definition count_line :: "string \<Rightarrow> irq_ref \<Rightarrow> state \<Rightarrow> bool \<times> state" where
  "count_line c info s =
     (let s = upd_irq info (i_existing_update (\<lambda>_. True)) s;
          (cnt, cpunr) = count_loop c 0 0
      in if cpunr \<noteq> num_online_cpus (cpu_online_map s) then (False, s\<lparr> need_rescan := True \<rparr>)
         else if cnt < i_irq_count (irqs s info) then (False, s\<lparr> need_rescan := True \<rparr>)
         else
           let s = upd_irq info (\<lambda>i. i\<lparr> i_last_irq_count := i_irq_count i, i_irq_count := cnt \<rparr>) s
           in (True, if i_type (irqs s info) = IRQ_TYPE_MSI \<or> i_type (irqs s info) = IRQ_TYPE_MSIX
                     then s\<lparr> msi_found_in_sysfs := True \<rparr> else s))"

fun interrupt_lines :: "sys \<Rightarrow> string list \<Rightarrow> state \<Rightarrow> state" where
  "interrupt_lines sys [] s = s"
| "interrupt_lines sys (line # lines) s =
     (let s = (if \<not> proc_int_has_msi s \<and> strstr line ''MSI'' then s\<lparr> proc_int_has_msi := True \<rparr> else s)
      in if \<not> numbered_line line then s
         else case strchr line CHR '':'' of
           None \<Rightarrow> interrupt_lines sys lines s
         | Some (before, c) \<Rightarrow>
             let (saved, s) = mem_next s
             in if \<not> saved then s
                else case line_irq sys line (int_strtoul 10 before) s of
                  (None, s) \<Rightarrow> s\<lparr> need_rescan := True \<rparr>
                | (Some info, s) \<Rightarrow>
                    let (go_on, s) = count_line c info s
                    in if go_on then interrupt_lines sys lines s else s)"

definition parse_proc_interrupts :: "sys \<Rightarrow> state \<Rightarrow> state" where
  "parse_proc_interrupts sys s =
     (case file_lines sys ''/proc/interrupts'' of
        None \<Rightarrow> s
      | Some [] \<Rightarrow> s
      | Some (_ # lines) \<Rightarrow>
          let s = interrupt_lines sys lines s;
              s = (if proc_int_has_msi s \<and> \<not> msi_found_in_sysfs s \<and> \<not> need_rescan s
                   then s\<lparr> msi_found_in_sysfs := True \<rparr> else s)
          in if \<not> need_rescan s then clear_no_existing_irqs s else s)"

section \<open>Sharing the load\<close>

definition assign_load_slice :: "u64 \<Rightarrow> irq_ref \<Rightarrow> state \<Rightarrow> state" where
  "assign_load_slice load_slice info s =
     (let s = upd_irq info (\<lambda>i. i\<lparr> i_load := (i_irq_count i - i_last_irq_count i) * load_slice \<rparr>) s
      in if i_load (irqs s info) = 0 then upd_irq info (i_load_update (\<lambda>l. l + 1)) s else s)"

text \<open>None stands for a division by zero, or for a chain of parents longer than the fuel.\<close>

fun get_parent_branch_irq_count_share :: "nat \<Rightarrow> state \<Rightarrow> obj_ref \<Rightarrow> u64 option" where
  "get_parent_branch_irq_count_share 0 s d = None"
| "get_parent_branch_irq_count_share (Suc fuel) s d =
     do {
       total_irq_count \<leftarrow>
         (case t_parent (objs s d) of
            None \<Rightarrow> Some 0
          | Some p \<Rightarrow>
              do {
                total_irq_count \<leftarrow> get_parent_branch_irq_count_share fuel s p;
                if t_children (objs s p) = [] then None
                else Some (total_irq_count div of_nat (length (t_children (objs s p))))
              });
       Some (total_irq_count + t_irq_count (objs s d))
     }"

fun get_children_branch_irq_count :: "nat \<Rightarrow> state \<Rightarrow> obj_ref \<Rightarrow> u64 \<Rightarrow> u64" where
  "get_children_branch_irq_count 0 s d total_irq_count = total_irq_count"
| "get_children_branch_irq_count (Suc fuel) s d total_irq_count =
     (let total_irq_count =
        (if length (t_children (objs s d)) > 0
         then for_each_object (t_children (objs s d)) (get_children_branch_irq_count fuel s) total_irq_count
         else total_irq_count)
      in total_irq_count + t_irq_count (objs s d))"

definition compute_irq_branch_load_share :: "obj_ref \<Rightarrow> state \<Rightarrow> state option" where
  "compute_irq_branch_load_share d s =
     (if length (t_interrupts (objs s d)) > 0
      then
        do {
          local_irq_counts \<leftarrow> get_parent_branch_irq_count_share TOPO_DEPTH s d;
          let local_irq_counts =
            (if length (t_children (objs s d)) > 0
             then for_each_object (t_children (objs s d)) (get_children_branch_irq_count TOPO_DEPTH s) local_irq_counts
             else local_irq_counts);
          let load_slice = (if local_irq_counts \<noteq> 0 then t_load (objs s d) div local_irq_counts else 1);
          Some (for_each_irq (interrupts_db s) (t_interrupts (objs s d)) (assign_load_slice load_slice) s)
        }
      else Some s)"

definition accumulate_irq_count :: "state \<Rightarrow> irq_ref \<Rightarrow> u64 \<Rightarrow> u64" where
  "accumulate_irq_count s info acc = acc + (i_irq_count (irqs s info) - i_last_irq_count (irqs s info))"

fun accumulate_interrupts :: "nat \<Rightarrow> obj_ref \<Rightarrow> state \<Rightarrow> state" where
  "accumulate_interrupts 0 d s = s"
| "accumulate_interrupts (Suc fuel) d s =
     (let s = (if length (t_children (objs s d)) > 0
               then for_each_object (t_children (objs s d)) (accumulate_interrupts fuel) s else s);
          irq_count = (if length (t_interrupts (objs s d)) > 0
                       then for_each_irq (interrupts_db s) (t_interrupts (objs s d)) (accumulate_irq_count s) 0 else 0)
      in upd_obj d (t_irq_count_update (\<lambda>_. irq_count)) s)"

definition accumulate_load :: "state \<Rightarrow> obj_ref \<Rightarrow> u64 \<Rightarrow> u64" where
  "accumulate_load s d load = load + t_load (objs s d)"

fun set_load :: "nat \<Rightarrow> obj_ref \<Rightarrow> state \<Rightarrow> state" where
  "set_load 0 d s = s"
| "set_load (Suc fuel) d s =
     (if length (t_children (objs s d)) > 0
      then
        let s = for_each_object (t_children (objs s d)) (set_load fuel) s
        in upd_obj d (t_load_update (\<lambda>_. for_each_object (t_children (objs s d)) (accumulate_load s) 0)) s
      else s)"

section \<open>/proc/stat\<close>

text \<open>
  \<open>NSEC_PER_SEC\<close> is the \<open>double\<close> 1e9, so the load is multiplied in floating point. A finite \<open>double\<close> that is not
  negative is a fraction; every operation rounds its exact result to 53 bits, ties to even.
\<close>

fun nbits :: "nat \<Rightarrow> nat" where
  "nbits n = (if n = 0 then 0 else Suc (nbits (n div 2)))"

declare nbits.simps [simp del]

definition round_half_even :: "nat \<Rightarrow> nat \<Rightarrow> nat" where
  "round_half_even a b =
     (let q = a div b; r = a mod b in if 2 * r < b \<or> (2 * r = b \<and> even q) then q else q + 1)"

definition round_double :: "nat \<times> nat \<Rightarrow> nat \<times> nat" where
  "round_double = (\<lambda>(a, b).
     if a = 0 then (0, 1)
     else
       let k = int (nbits a) - int (nbits b);
           e = (if (if k \<ge> 0 then a \<ge> b * 2 ^ nat k else a * 2 ^ nat (- k) \<ge> b) then k else k - 1)
       in if e \<le> 52 then (round_half_even (a * 2 ^ nat (52 - e)) b, 2 ^ nat (52 - e))
          else (round_half_even a (b * 2 ^ nat (e - 52)) * 2 ^ nat (e - 52), 1))"

definition NSEC_PER_SEC :: "nat \<times> nat" where
  "NSEC_PER_SEC = (10 ^ 9, 1)"

text \<open>\<open>load *= NSEC_PER_SEC/HZ\<close>; a product that does not fit into the target has no defined value.\<close>

definition scale_load :: "int \<Rightarrow> u64 \<Rightarrow> u64 option" where
  "scale_load hz load =
     (if hz \<le> 0 then None
      else
        let (a, b) = round_double (fst NSEC_PER_SEC, snd NSEC_PER_SEC * nat hz);
            (c, d) = round_double (unat load, 1);
            (p, q) = round_double (a * c, b * d)
        in if p div q < 2 ^ 64 then Some (of_nat (p div q)) else None)"

text \<open>\<open>sscanf\<close> with the format \<open>%*s %*u %*u %*u %*u %*u %llu %llu\<close>; None when fewer than two values are read.\<close>

fun skip_numbers :: "nat \<Rightarrow> string \<Rightarrow> string option" where
  "skip_numbers 0 s = Some s"
| "skip_numbers (Suc n) s = do { (_, _, s) \<leftarrow> read_number 10 s; skip_numbers n s }"

definition scan_loads :: "string \<Rightarrow> (u64 \<times> u64) option" where
  "scan_loads line =
     (if dropWhile isspace line = [] then None
      else do {
        s \<leftarrow> skip_numbers 5 (dropWhile (\<lambda>c. \<not> isspace c) (dropWhile isspace line));
        s' \<leftarrow> skip_numbers 1 s;
        _ \<leftarrow> skip_numbers 1 s';
        Some (fst (strtoul 10 s), fst (strtoul 10 s'))
      })"

text \<open>The loop over the lines counts the CPUs; None where the source has no defined behaviour.\<close>

fun stat_lines :: "string list \<Rightarrow> nat \<Rightarrow> state \<Rightarrow> (nat \<times> state) option" where
  "stat_lines [] cpucount s = Some (cpucount, s)"
| "stat_lines (line # lines) cpucount s =
     (if \<not> strstr line ''cpu'' then Some (cpucount, s)
      else
        let cpunr = int_strtoul 10 (drop 3 line)
        in do {
          banned \<leftarrow> cpu_isset cpunr (banned_cpus s);
          if banned then stat_lines lines cpucount s
          else case scan_loads line of
            None \<Rightarrow> Some (cpucount, s)
          | Some (irq_load, softirq_load) \<Rightarrow>
              case find_cpu_core cpunr s of
                None \<Rightarrow> Some (cpucount, s)
              | Some cpu \<Rightarrow>
                  do {
                    load \<leftarrow> (if cycle_count s \<noteq> 0
                              then scale_load (HZ s) ((irq_load + softirq_load) - t_last_load (objs s cpu))
                              else Some (t_load (objs s cpu)));
                    let s = upd_obj cpu (\<lambda>x. x\<lparr> t_load := load, t_last_load := irq_load + softirq_load \<rparr>) s;
                    stat_lines lines (cpucount + 1) s
                  }
        })"

text \<open>The last part of \<open>parse_proc_stat\<close>, once every CPU has its load.\<close>

definition compute_shares :: "obj_ref list \<Rightarrow> state \<Rightarrow> state option" where
  "compute_shares ds s = fold (\<lambda>d os. do { s \<leftarrow> os; compute_irq_branch_load_share d s }) ds (Some s)"

definition share_loads :: "state \<Rightarrow> state option" where
  "share_loads s =
     (let s = for_each_object (numa_nodes s) (set_load TOPO_DEPTH) s;
          s = for_each_object (numa_nodes s) (accumulate_interrupts TOPO_DEPTH) s
      in do {
        s \<leftarrow> compute_shares (cpus s) s;
        s \<leftarrow> compute_shares (cache_domains s) s;
        s \<leftarrow> compute_shares (packages s) s;
        compute_shares (numa_nodes s) s
      })"

definition parse_proc_stat :: "sys \<Rightarrow> state \<Rightarrow> state option" where
  "parse_proc_stat sys s =
     (case file_lines sys ''/proc/stat'' of
        None \<Rightarrow> Some s
      | Some [] \<Rightarrow> Some s
      | Some (_ # lines) \<Rightarrow>
          do {
            (cpucount, s) \<leftarrow> stat_lines lines 0 s;
            if cpucount \<noteq> get_cpu_count s then Some s else share_loads s
          })"


section \<open>What the accounting leaves alone\<close>

text \<open>A state without the counters and loads that the accounting writes.\<close>

definition bare :: "state \<Rightarrow> state" where
  "bare s = s\<lparr> objs := \<lambda>d. (objs s d)\<lparr> t_load := 0, t_last_load := 0, t_irq_count := 0 \<rparr>,
     irqs := \<lambda>r. (irqs s r)\<lparr> i_load := 0 \<rparr> \<rparr>"

lemma bare_upd_obj:
  assumes "\<And>x. (f x)\<lparr> t_load := 0, t_last_load := 0, t_irq_count := 0 \<rparr> = x\<lparr> t_load := 0, t_last_load := 0, t_irq_count := 0 \<rparr>"
  shows "bare (upd_obj d f s) = bare s"
  using assms by (simp add: bare_def upd_obj_def fun_eq_iff)

lemma bare_upd_irq:
  assumes "\<And>i. (f i)\<lparr> i_load := 0 \<rparr> = i\<lparr> i_load := 0 \<rparr>"
  shows "bare (upd_irq r f s) = bare s"
  using assms by (simp add: bare_def upd_irq_def fun_eq_iff)

lemma bare_obj:
  assumes "bare s' = bare s"
  shows "shape (objs s' d) = shape (objs s d)" and "t_interrupts (objs s' d) = t_interrupts (objs s d)"
    and "t_slots_left (objs s' d) = t_slots_left (objs s d)"
    and "t_children (objs s' d) = t_children (objs s d)" and "t_parent (objs s' d) = t_parent (objs s d)"
    and "t_obj_type (objs s' d) = t_obj_type (objs s d)"
  using arg_cong [OF assms, of "\<lambda>s. shape (objs s d)"] arg_cong [OF assms, of "\<lambda>s. t_interrupts (objs s d)"]
    arg_cong [OF assms, of "\<lambda>s. t_slots_left (objs s d)"]
  by (simp_all add: bare_def shape_def)

lemma bare_irq:
  assumes "bare s' = bare s"
  shows "i_assigned_obj (irqs s' r) = i_assigned_obj (irqs s r)" and "i_irq (irqs s' r) = i_irq (irqs s r)"
    and "i_level (irqs s' r) = i_level (irqs s r)" and "i_numa_node (irqs s' r) = i_numa_node (irqs s r)"
    and "i_irq_count (irqs s' r) = i_irq_count (irqs s r)" and "i_last_irq_count (irqs s' r) = i_last_irq_count (irqs s r)"
    and "i_moved (irqs s' r) = i_moved (irqs s r)"
  using arg_cong [OF assms, of "\<lambda>s. i_assigned_obj (irqs s r)"] arg_cong [OF assms, of "\<lambda>s. i_irq (irqs s r)"]
    arg_cong [OF assms, of "\<lambda>s. i_level (irqs s r)"] arg_cong [OF assms, of "\<lambda>s. i_numa_node (irqs s r)"]
    arg_cong [OF assms, of "\<lambda>s. i_irq_count (irqs s r)"] arg_cong [OF assms, of "\<lambda>s. i_last_irq_count (irqs s r)"]
    arg_cong [OF assms, of "\<lambda>s. i_moved (irqs s r)"]
  by (simp_all add: bare_def)

lemma bare_global:
  assumes "bare s' = bare s" and "\<And>o' i'. g (s\<lparr> objs := o', irqs := i' \<rparr>) = g s" and "\<And>o' i'. g (s'\<lparr> objs := o', irqs := i' \<rparr>) = g s'"
  shows "g s' = g s"
  using arg_cong [OF assms(1), of g] assms(2,3) by (simp add: bare_def)

lemma bare_same_frame: "bare s' = bare s \<Longrightarrow> same_frame s s'"
  unfolding same_frame_def by (intro conjI allI bare_obj(1) bare_irq(2); (assumption | rule bare_global; simp)?)

lemma bare_lists:
  assumes b: "bare s' = bare s"
  shows "rebalance_irq_list s' = rebalance_irq_list s" "get_list l s' = get_list l s"
    "interrupts_db s' = interrupts_db s"
proof -
  show 1: "rebalance_irq_list s' = rebalance_irq_list s" by (rule bare_global [OF b]) simp_all
  show "get_list l s' = get_list l s" by (cases l) (simp_all add: 1 bare_obj(2) [OF b])
  show "interrupts_db s' = interrupts_db s" by (rule bare_global [OF b]) simp_all
qed

lemma bare_irqs_ok:
  assumes b: "bare s' = bare s"
  shows "irqs_ok s' = irqs_ok s"
  by (simp add: irqs_ok_def bare_lists [OF b] bare_irq [OF b] bare_obj [OF b])

lemma bare_assign_load_slice: "bare (assign_load_slice sl r s) = bare s"
  by (simp add: assign_load_slice_def Let_def bare_upd_irq)

lemma bare_set_load: "bare (set_load fuel d s) = bare s"
proof (induction fuel arbitrary: d s)
  case (Suc fuel)
  have "bare (for_each_object ds (set_load fuel) s) = bare s" for ds
    unfolding for_each_object_def by (rule fold_unchanged) (rule Suc)
  then show ?case by (simp add: Let_def bare_upd_obj)
qed simp

lemma bare_accumulate_interrupts: "bare (accumulate_interrupts fuel d s) = bare s"
proof (induction fuel arbitrary: d s)
  case (Suc fuel)
  have "bare (for_each_object ds (accumulate_interrupts fuel) s) = bare s" for ds
    unfolding for_each_object_def by (rule fold_unchanged) (rule Suc)
  then show ?case by (simp add: Let_def bare_upd_obj)
qed simp

lemma bare_compute_share: "compute_irq_branch_load_share d s = Some s' \<Longrightarrow> bare s' = bare s"
  by (auto simp: compute_irq_branch_load_share_def Let_def for_each_irq_def bare_assign_load_slice
      split: if_splits option.splits Option.bind_splits intro!: fold_unchanged)

lemma compute_shares_None [simp]: "fold (\<lambda>d os. do { s \<leftarrow> os; f d s }) ds None = None"
  by (induction ds) simp_all

lemma compute_shares_Cons:
  "compute_shares (d # ds) s = do { s \<leftarrow> compute_irq_branch_load_share d s; compute_shares ds s }"
  by (cases "compute_irq_branch_load_share d s") (simp_all add: compute_shares_def)

lemma bare_compute_shares: "compute_shares ds s = Some s' \<Longrightarrow> bare s' = bare s"
proof (induction ds arbitrary: s)
  case (Cons d ds)
  then show ?case using bare_compute_share [of d s]
    by (auto simp: compute_shares_Cons split: Option.bind_splits)
qed (simp add: compute_shares_def)

section \<open>No division by zero\<close>

lemma parent_share_defined:
  assumes inv: "topo_inv {} s" and "TOPO_DEPTH \<le> fuel + obj_type_value (t_obj_type (objs s d))"
  shows "\<exists>n. get_parent_branch_irq_count_share fuel s d = Some n"
  using assms(2)
proof (induction fuel arbitrary: d)
  case 0
  then show ?case using type_value_less_depth [of "t_obj_type (objs s d)"] by simp
next
  case (Suc fuel)
  show ?case
  proof (cases "t_parent (objs s d)")
    case (Some p)
    then have c: "d \<in> set (t_children (objs s p))" by (rule topo_invD(7) [OF inv])
    with topo_invD(5) [OF inv c] Suc.prems
    have "TOPO_DEPTH \<le> fuel + obj_type_value (t_obj_type (objs s p))" by (simp add: less_obj_type_e_def)
    from Suc.IH [OF this] Some c show ?thesis by auto
  qed simp
qed

lemma compute_share_defined: "topo_inv {} s \<Longrightarrow> \<exists>s'. compute_irq_branch_load_share d s = Some s'"
  using parent_share_defined [of s TOPO_DEPTH d] by (auto simp: compute_irq_branch_load_share_def Let_def)

lemma bare_topo_inv: "bare s' = bare s \<Longrightarrow> topo_inv X s' = topo_inv X s"
  by (rule topo_inv_same_frame) (rule bare_same_frame)

lemma compute_shares_defined: "topo_inv {} s \<Longrightarrow> \<exists>s'. compute_shares ds s = Some s'"
proof (induction ds arbitrary: s)
  case (Cons d ds)
  from compute_share_defined [OF Cons.prems] obtain s1 where s1: "compute_irq_branch_load_share d s = Some s1" by blast
  with bare_topo_inv [OF bare_compute_share [OF s1]] Cons show ?case by (auto simp: compute_shares_Cons)
qed (simp add: compute_shares_def)

lemma share_loads_defined:
  assumes "topo_inv {} s"
  shows "\<exists>s'. share_loads s = Some s' \<and> same_frame s s' \<and> (irqs_ok s \<longrightarrow> irqs_ok s')"
proof -
  define s1 where "s1 = for_each_object (numa_nodes s) (set_load TOPO_DEPTH) s"
  define s2 where "s2 = for_each_object (numa_nodes s1) (accumulate_interrupts TOPO_DEPTH) s1"
  have b1: "bare s1 = bare s" unfolding s1_def for_each_object_def by (rule fold_unchanged) (rule bare_set_load)
  have b2: "bare s2 = bare s1"
    unfolding s2_def for_each_object_def by (rule fold_unchanged) (rule bare_accumulate_interrupts)
  have step: "\<exists>y. compute_shares ds x = Some y \<and> bare y = bare s" if "bare x = bare s" for ds x
    using compute_shares_defined [of x ds] bare_compute_shares [of ds x] bare_topo_inv [OF that, of "{}"] assms that by auto
  from b1 b2 have "bare s2 = bare s" by simp
  with step obtain s3 where s3: "compute_shares (cpus s2) s2 = Some s3" "bare s3 = bare s" by blast
  with step obtain s4 where s4: "compute_shares (cache_domains s3) s3 = Some s4" "bare s4 = bare s" by blast
  with step obtain s5 where s5: "compute_shares (packages s4) s4 = Some s5" "bare s5 = bare s" by blast
  with step obtain s6 where s6: "compute_shares (numa_nodes s5) s5 = Some s6" "bare s6 = bare s" by blast
  have "share_loads s = Some s6"
    using s3 s4 s5 s6 by (simp add: share_loads_def Let_def s1_def [symmetric] s2_def [symmetric])
  with s6(2) bare_same_frame [OF s6(2)] bare_irqs_ok [OF s6(2)] show ?thesis by blast
qed

text \<open>
  The accounting never divides by zero and its recursion over the parents ends (C30): in a topology
  that satisfies the invariant every parent has the object among its children, so the shares of
  all levels can be computed, and only counters and loads change.
\<close>

theorem share_loads_is_defined:
  assumes "topo_inv {} s"
  shows "\<exists>s'. share_loads s = Some s' \<and> same_frame s s' \<and> (irqs_ok s \<longrightarrow> irqs_ok s')"
  by (rule share_loads_defined [OF assms])

section \<open>Passes over the tree\<close>

text \<open>
  Two of the passes visit the children of an object before the object itself and then write one
  field of it. Objects can be visited more than once, since a package can hang below several
  nodes; every visit writes the same value, because that value depends only on what the pass keeps.
\<close>

lemma under_bare:
  assumes b: "bare s' = bare s"
  shows "under s' = under s"
proof -
  have c: "t_children (objs s' d) = t_children (objs s d)" for d by (rule bare_obj(4) [OF b])
  have "under s' d x" if "under s d x" for d x
    using that by induction (auto intro: under.intros simp: c)
  moreover have "under s d x" if "under s' d x" for d x
    using that by induction (auto intro: under.intros simp: c)
  ultimately show ?thesis by blast
qed

locale tree_pass =
  fixes pass :: "nat \<Rightarrow> obj_ref \<Rightarrow> state \<Rightarrow> state"
    and keeps :: "state \<Rightarrow> state \<Rightarrow> bool"
    and field :: "topo_obj \<Rightarrow> u64"
    and goal :: "state \<Rightarrow> obj_ref \<Rightarrow> u64"
  assumes keeps_refl: "keeps s s"
    and keeps_trans: "keeps s s1 \<Longrightarrow> keeps s1 s2 \<Longrightarrow> keeps s s2"
    and keeps_bare: "keeps s s' \<Longrightarrow> bare s' = bare s"
    and goal_keeps: "keeps s s' \<Longrightarrow> goal s' d = goal s d"
    and pass_step: "tree_descends s \<Longrightarrow> s1 = fold (pass fuel) (t_children (objs s d)) s \<Longrightarrow> keeps s s1 \<Longrightarrow>
      \<forall>c \<in> set (t_children (objs s d)). field (objs s1 c) = goal s c \<Longrightarrow>
      keeps s1 (pass (Suc fuel) d s) \<and>
      (\<forall>x. field (objs (pass (Suc fuel) d s) x) = (if x = d then goal s d else field (objs s1 x)))"
begin

definition settles :: "obj_ref set \<Rightarrow> state \<Rightarrow> state \<Rightarrow> bool" where
  "settles D s s' \<longleftrightarrow> keeps s s' \<and> (\<forall>x. field (objs s' x) = field (objs s x) \<or> field (objs s' x) = goal s x)
     \<and> (\<forall>x \<in> D. field (objs s' x) = goal s x)"

lemma settles_trans:
  assumes "settles D s s1" "settles E s1 s2"
  shows "settles (D \<union> E) s s2"
proof -
  have g: "goal s1 x = goal s x" for x using assms(1) goal_keeps by (auto simp: settles_def)
  show ?thesis using assms keeps_trans unfolding settles_def g by (metis Un_iff)
qed

definition settled_below :: "nat \<Rightarrow> bool" where
  "settled_below fuel \<longleftrightarrow> (\<forall>d s. tree_descends s \<longrightarrow> obj_type_value (t_obj_type (objs s d)) < fuel \<longrightarrow>
     settles {x. under s d x} s (pass fuel d s))"

lemma settles_fold:
  assumes "settled_below fuel" "tree_descends s" "\<forall>c \<in> set cs. obj_type_value (t_obj_type (objs s c)) < fuel"
  shows "settles (\<Union>c \<in> set cs. {x. under s c x}) s (fold (pass fuel) cs s)"
  using assms(2,3)
proof (induction cs arbitrary: s)
  case Nil
  then show ?case by (simp add: settles_def keeps_refl)
next
  case (Cons c cs)
  have 1: "settles {x. under s c x} s (pass fuel c s)" using Cons.prems assms(1) by (simp add: settled_below_def)
  then have b: "bare (pass fuel c s) = bare s" by (simp add: settles_def keeps_bare)
  have "tree_descends (pass fuel c s)" using Cons.prems(1) by (simp add: tree_descends_def bare_obj [OF b])
  moreover have "\<forall>c' \<in> set cs. obj_type_value (t_obj_type (objs (pass fuel c s) c')) < fuel"
    using Cons.prems(2) by (simp add: bare_obj [OF b])
  ultimately have "settles (\<Union>c' \<in> set cs. {x. under (pass fuel c s) c' x}) (pass fuel c s) (fold (pass fuel) cs (pass fuel c s))"
    by (rule Cons.IH)
  with settles_trans [OF 1 this] under_bare [OF b] show ?case by simp
qed

lemma settled_step: "settled_below fuel \<Longrightarrow> settled_below (Suc fuel)"
  unfolding settled_below_def [of "Suc fuel"]
proof (intro allI impI)
  fix d s
  assume ih: "settled_below fuel" and td: "tree_descends s" and v: "obj_type_value (t_obj_type (objs s d)) < Suc fuel"
  let ?cs = "t_children (objs s d)"
  define s1 where "s1 = fold (pass fuel) ?cs s"
  have "\<forall>c \<in> set ?cs. obj_type_value (t_obj_type (objs s c)) < fuel"
    using td v by (fastforce simp: tree_descends_def less_obj_type_e_def)
  from settles_fold [OF ih td this] have st: "settles (\<Union>c \<in> set ?cs. {x. under s c x}) s s1" by (simp add: s1_def)
  then have k: "keeps s s1" and c: "\<forall>c \<in> set ?cs. field (objs s1 c) = goal s c"
    by (auto simp: settles_def intro: under_self)
  note step = pass_step [OF td s1_def k c]
  from step have "settles {d} s1 (pass (Suc fuel) d s)" by (simp add: settles_def goal_keeps [OF k])
  from settles_trans [OF st this] show "settles {x. under s d x} s (pass (Suc fuel) d s)"
    by (rule back_subst [of "\<lambda>D. settles D s _"]) (auto elim: under_cases intro: under.intros)
qed

lemma pass_settles:
  assumes "tree_descends s" "obj_type_value (t_obj_type (objs s d)) < fuel"
  shows "settles {x. under s d x} s (pass fuel d s)"
proof -
  have "settled_below fuel" by (induction fuel) (simp add: settled_below_def, rule settled_step)
  with assms show ?thesis by (simp add: settled_below_def)
qed

lemma all_settle:
  assumes "tree_descends s"
  shows "settles (\<Union>n \<in> set ns. {x. under s n x}) s (for_each_object ns (pass TOPO_DEPTH) s)"
  unfolding for_each_object_def
  by (rule settles_fold [OF _ assms]) (simp_all add: settled_below_def pass_settles type_value_less_depth)

end

section \<open>The load of an object\<close>

text \<open>The load of the objects without children below an object: of its CPUs.\<close>

fun tree_load :: "nat \<Rightarrow> state \<Rightarrow> obj_ref \<Rightarrow> u64" where
  "tree_load 0 s d = 0"
| "tree_load (Suc fuel) s d =
     (if t_children (objs s d) = [] then t_load (objs s d)
      else sum_list (map (tree_load fuel s) (t_children (objs s d))))"

abbreviation load_below :: "state \<Rightarrow> obj_ref \<Rightarrow> u64" where
  "load_below \<equiv> tree_load TOPO_DEPTH"

definition same_leaves :: "state \<Rightarrow> state \<Rightarrow> bool" where
  "same_leaves s s' \<longleftrightarrow> bare s' = bare s \<and> (\<forall>d. t_children (objs s d) = [] \<longrightarrow> t_load (objs s' d) = t_load (objs s d))"

lemma tree_load_fuel:
  assumes "tree_descends s" and "obj_type_value (t_obj_type (objs s d)) < fuel" "fuel \<le> fuel'"
  shows "tree_load fuel s d = tree_load fuel' s d"
  using assms(2,3)
proof (induction fuel arbitrary: d fuel')
  case (Suc fuel)
  then obtain f where f: "fuel' = Suc f" "fuel \<le> f" by (cases fuel') auto
  have "tree_load fuel s c = tree_load f s c" if "c \<in> set (t_children (objs s d))" for c
    using assms(1) that Suc.prems f by (intro Suc.IH) (fastforce simp: tree_descends_def less_obj_type_e_def)+
  then show ?case by (simp add: f cong: map_cong)
qed simp

lemma load_below_rec:
  assumes "tree_descends s"
  shows "load_below s d = (if t_children (objs s d) = [] then t_load (objs s d)
    else sum_list (map (load_below s) (t_children (objs s d))))"
proof -
  have "TOPO_DEPTH \<le> Suc TOPO_DEPTH" by simp
  from tree_load_fuel [OF assms type_value_less_depth this, of d] show ?thesis by simp
qed

lemma tree_load_leaves: "same_leaves s s' \<Longrightarrow> tree_load fuel s' d = tree_load fuel s d"
proof (induction fuel arbitrary: d)
  case (Suc fuel)
  then have "bare s' = bare s" by (simp add: same_leaves_def)
  note c = bare_obj(4) [OF this]
  from Suc have "tree_load fuel s' = tree_load fuel s" by (simp add: fun_eq_iff)
  with Suc.prems show ?case by (auto simp: same_leaves_def c)
qed simp

lemma accumulate_load_sum: "fold (accumulate_load s) ds 0 = sum_list (map (\<lambda>c. t_load (objs s c)) ds)"
proof -
  have "fold (accumulate_load s) ds a = a + sum_list (map (\<lambda>c. t_load (objs s c)) ds)" for a
    by (induction ds arbitrary: a) (simp_all add: accumulate_load_def add.assoc)
  then show ?thesis by simp
qed

interpretation loads: tree_pass set_load same_leaves t_load load_below
proof
  fix s s1 fuel d
  assume td: "tree_descends s" and s1: "s1 = fold (set_load fuel) (t_children (objs s d)) s" and k: "same_leaves s s1"
    and c: "\<forall>c \<in> set (t_children (objs s d)). t_load (objs s1 c) = load_below s c"
  have b: "bare s1 = bare s" using k by (simp add: same_leaves_def)
  have ch: "t_children (objs s1 x) = t_children (objs s x)" for x by (rule bare_obj(4) [OF b])
  show "same_leaves s1 (set_load (Suc fuel) d s) \<and> (\<forall>x. t_load (objs (set_load (Suc fuel) d s) x)
      = (if x = d then load_below s d else t_load (objs s1 x)))"
  proof (cases "t_children (objs s d) = []")
    case True
    then show ?thesis using load_below_rec [OF td, of d] by (simp add: s1 same_leaves_def)
  next
    case False
    have "sum_list (map (\<lambda>c. t_load (objs s1 c)) (t_children (objs s d))) = load_below s d"
      using c load_below_rec [OF td, of d] False by (simp cong: map_cong)
    then have "set_load (Suc fuel) d s = upd_obj d (t_load_update (\<lambda>_. load_below s d)) s1"
      using False by (simp add: Let_def accumulate_load_sum for_each_object_def s1 [symmetric] ch)
    then show ?thesis using False by (auto simp: same_leaves_def bare_upd_obj ch)
  qed
next
  fix s s1 s2 assume k: "same_leaves s s1" "same_leaves s1 s2"
  then have "bare s1 = bare s" by (simp add: same_leaves_def)
  from bare_obj(4) [OF this] k show "same_leaves s s2" by (simp add: same_leaves_def)
qed (simp_all add: same_leaves_def tree_load_leaves)

section \<open>The interrupts of an object\<close>

definition arrived :: "state \<Rightarrow> irq_ref \<Rightarrow> u64" where
  "arrived s r = i_irq_count (irqs s r) - i_last_irq_count (irqs s r)"

definition own_count :: "state \<Rightarrow> obj_ref \<Rightarrow> u64" where
  "own_count s d = sum_list (map (arrived s) (t_interrupts (objs s d)))"

lemma own_count_bare: "bare s' = bare s \<Longrightarrow> own_count s' d = own_count s d"
proof -
  assume b: "bare s' = bare s"
  have "arrived s' = arrived s" by (simp add: fun_eq_iff arrived_def bare_irq [OF b])
  then show ?thesis by (simp add: own_count_def bare_obj [OF b])
qed

lemma accumulate_irq_count_sum:
  "fold (accumulate_irq_count s) rs a = a + sum_list (map (arrived s) rs)"
  by (induction rs arbitrary: a) (simp_all add: accumulate_irq_count_def arrived_def add.assoc)

interpretation counts: tree_pass accumulate_interrupts "\<lambda>s s'. bare s' = bare s" t_irq_count own_count
proof
  fix s s1 fuel d
  assume s1: "s1 = fold (accumulate_interrupts fuel) (t_children (objs s d)) s" and b: "bare s1 = bare s"
  have "accumulate_interrupts (Suc fuel) d s = upd_obj d (t_irq_count_update (\<lambda>_. own_count s1 d)) s1"
    using s1 by (cases "t_children (objs s d) = []"; cases "t_interrupts (objs s1 d) = []")
      (simp_all add: Let_def for_each_object_def for_each_irq_def accumulate_irq_count_sum own_count_def)
  then show "bare (accumulate_interrupts (Suc fuel) d s) = bare s1 \<and> (\<forall>x. t_irq_count (objs (accumulate_interrupts (Suc fuel) d s) x)
      = (if x = d then own_count s d else t_irq_count (objs s1 x)))"
    by (simp add: own_count_bare [OF b] bare_upd_obj)
qed (erule own_count_bare | simp)+

section \<open>The shares\<close>

lemma accumulate_keeps_load: "t_load (objs (accumulate_interrupts fuel d s) x) = t_load (objs s x)"
proof (induction fuel arbitrary: d s)
  case (Suc fuel)
  have "t_load (objs (for_each_object ds (accumulate_interrupts fuel) s) x) = t_load (objs s x)" for ds
    unfolding for_each_object_def by (rule fold_unchanged) (rule Suc)
  then show ?case by (auto simp: Let_def)
qed simp

lemma objs_assign [simp]: "objs (fold (assign_load_slice sl) rs s) = objs s"
  by (rule fold_unchanged) (simp add: assign_load_slice_def Let_def)

lemma objs_compute_share: "compute_irq_branch_load_share d s = Some s' \<Longrightarrow> objs s' = objs s"
  by (auto simp: compute_irq_branch_load_share_def Let_def for_each_irq_def split: if_splits Option.bind_splits)

lemma objs_compute_shares: "compute_shares ds s = Some s' \<Longrightarrow> objs s' = objs s"
proof (induction ds arbitrary: s)
  case (Cons d ds)
  then show ?case using objs_compute_share [of d s] by (auto simp: compute_shares_Cons split: Option.bind_splits)
qed (simp add: compute_shares_def)

text \<open>Before the shares are computed every object below a node has its load and its count.\<close>

definition counted_state :: "state \<Rightarrow> state" where
  "counted_state s = (let s = for_each_object (numa_nodes s) (set_load TOPO_DEPTH) s
     in for_each_object (numa_nodes s) (accumulate_interrupts TOPO_DEPTH) s)"

lemma counted_state_bare: "bare (counted_state s) = bare s"
  unfolding counted_state_def Let_def for_each_object_def
  by (rule trans; rule fold_unchanged) (rule bare_accumulate_interrupts, rule bare_set_load)

lemma counted_state_values:
  assumes td: "tree_descends s" and "n \<in> set (numa_nodes s)" "under s n d"
  shows "t_load (objs (counted_state s) d) = load_below s d" "t_irq_count (objs (counted_state s) d) = own_count s d"
proof -
  define s1 where "s1 = for_each_object (numa_nodes s) (set_load TOPO_DEPTH) s"
  have c: "counted_state s = for_each_object (numa_nodes s1) (accumulate_interrupts TOPO_DEPTH) s1"
    by (simp add: counted_state_def Let_def s1_def)
  have b: "bare s1 = bare s" unfolding s1_def for_each_object_def by (rule fold_unchanged) (rule bare_set_load)
  have nodes: "numa_nodes s1 = numa_nodes s" by (rule bare_global [OF b]) simp_all
  have "t_load (objs (counted_state s) d) = t_load (objs s1 d)"
    unfolding c for_each_object_def by (rule fold_unchanged) (rule accumulate_keeps_load)
  moreover have "t_load (objs s1 d) = load_below s d"
    using loads.all_settle [OF td, of "numa_nodes s"] assms(2,3) unfolding loads.settles_def s1_def by blast
  ultimately show "t_load (objs (counted_state s) d) = load_below s d" by simp
  have "tree_descends s1" using td by (simp add: tree_descends_def bare_obj [OF b])
  from counts.all_settle [OF this, of "numa_nodes s1"] assms(2,3)
  have "t_irq_count (objs (counted_state s) d) = own_count s1 d"
    unfolding counts.settles_def c under_bare [OF b] nodes by blast
  then show "t_irq_count (objs (counted_state s) d) = own_count s d" by (simp add: own_count_bare [OF b])
qed

lemma share_loads_steps:
  assumes "share_loads s = Some s'"
  obtains s3 s4 s5 where "compute_shares (cpus (counted_state s)) (counted_state s) = Some s3"
    "compute_shares (cache_domains s3) s3 = Some s4" "compute_shares (packages s4) s4 = Some s5"
    "compute_shares (numa_nodes s5) s5 = Some s'"
  using assms unfolding share_loads_def counted_state_def Let_def by (auto split: Option.bind_splits)

lemma share_loads_objs: "share_loads s = Some s' \<Longrightarrow> objs s' = objs (counted_state s)"
  by (erule share_loads_steps) (simp add: objs_compute_shares)

lemma share_loads_bare:
  assumes "share_loads s = Some s'"
  shows "bare s' = bare s"
proof -
  obtain s3 s4 s5 where "compute_shares (cpus (counted_state s)) (counted_state s) = Some s3"
    "compute_shares (cache_domains s3) s3 = Some s4" "compute_shares (packages s4) s4 = Some s5"
    "compute_shares (numa_nodes s5) s5 = Some s'" using assms by (rule share_loads_steps)
  from this [THEN bare_compute_shares] counted_state_bare [of s] show ?thesis by simp
qed

text \<open>
  The workload of an object is the aggregate workload of the objects below it (C15), as the comment
  of \<open>build_object_tree\<close> says: after the accounting every object that can be reached from a NUMA node
  and has children has the sum of their loads, and the CPUs have the load that was measured.
\<close>

theorem share_loads_aggregates:
  assumes "topo_inv {} s" "share_loads s = Some s'" "n \<in> set (numa_nodes s)" "under s n d"
  shows "t_load (objs s' d) = (if t_children (objs s d) = [] then t_load (objs s d)
    else sum_list (map (\<lambda>c. t_load (objs s' c)) (t_children (objs s d))))"
proof -
  have td: "tree_descends s" by (rule topo_inv_descends [OF assms(1)])
  have val: "t_load (objs s' x) = load_below s x" if "under s n x" for x
    using counted_state_values(1) [OF td assms(3) that] share_loads_objs [OF assms(2)] by simp
  have "under s n c" if "c \<in> set (t_children (objs s d))" for c
    using assms(4) that by (induction rule: under.induct) (auto intro: under.intros)
  with val load_below_rec [OF td, of d] assms(4) show ?thesis by (auto cong: map_cong)
qed

section \<open>Fairness\<close>

text \<open>The interrupts of the objects above and below an object, as a natural number.\<close>

fun chain_count :: "nat \<Rightarrow> state \<Rightarrow> obj_ref \<Rightarrow> nat" where
  "chain_count 0 s d = 0"
| "chain_count (Suc fuel) s d =
     (case t_parent (objs s d) of None \<Rightarrow> 0 | Some p \<Rightarrow> chain_count fuel s p) + unat (t_irq_count (objs s d))"

fun branch_count :: "nat \<Rightarrow> state \<Rightarrow> obj_ref \<Rightarrow> nat" where
  "branch_count 0 s d = 0"
| "branch_count (Suc fuel) s d = sum_list (map (branch_count fuel s) (t_children (objs s d))) + unat (t_irq_count (objs s d))"

definition related_count :: "state \<Rightarrow> obj_ref \<Rightarrow> nat" where
  "related_count s d = chain_count TOPO_DEPTH s d + sum_list (map (branch_count TOPO_DEPTH s) (t_children (objs s d)))"

lemma u64_add_no_wrap: "unat a + unat b < 2 ^ 64 \<Longrightarrow> unat (a + b :: u64) = unat a + unat b"
  using unat_add_small [of a b] by simp

lemma parent_share_bounds:
  assumes "get_parent_branch_irq_count_share fuel s d = Some w" "chain_count fuel s d < 2 ^ 64"
  shows "unat (t_irq_count (objs s d)) \<le> unat w \<and> unat w \<le> chain_count fuel s d"
  using assms
proof (induction fuel arbitrary: d w)
  case (Suc fuel)
  show ?case
  proof (cases "t_parent (objs s d)")
    case None
    then show ?thesis using Suc.prems by simp
  next
    case (Some p)
    then obtain v where v: "get_parent_branch_irq_count_share fuel s p = Some v"
      and w: "w = v div of_nat (length (t_children (objs s p))) + t_irq_count (objs s d)"
      using Suc.prems(1) by (auto split: Option.bind_splits if_splits)
    have "unat (v div of_nat (length (t_children (objs s p)))) \<le> unat v" by (simp add: unat_div)
    moreover have "unat v \<le> chain_count fuel s p" using Suc.IH [OF v] Suc.prems(2) Some by simp
    ultimately show ?thesis using Suc.prems(2) Some w u64_add_no_wrap by (simp add: u64_add_no_wrap)
  qed
qed simp

lemma children_count_exact:
  "unat t + branch_count fuel s d < 2 ^ 64 \<Longrightarrow> unat (get_children_branch_irq_count fuel s d t) = unat t + branch_count fuel s d"
proof (induction fuel arbitrary: d t)
  case (Suc fuel)
  have fold: "unat t + sum_list (map (branch_count fuel s) cs) < 2 ^ 64 \<Longrightarrow>
      unat (fold (get_children_branch_irq_count fuel s) cs t) = unat t + sum_list (map (branch_count fuel s) cs)" for cs t
    by (induction cs arbitrary: t) (simp_all add: Suc.IH)
  from fold [of t "t_children (objs s d)"] Suc.prems show ?case
    by (simp add: for_each_object_def u64_add_no_wrap)
qed simp

lemma children_fold_exact:
  "unat t + sum_list (map (branch_count fuel s) cs) < 2 ^ 64 \<Longrightarrow>
    unat (fold (get_children_branch_irq_count fuel s) cs t) = unat t + sum_list (map (branch_count fuel s) cs)"
  by (induction cs arbitrary: t) (simp_all add: children_count_exact)

text \<open>The loads that an object assigns to its interrupts.\<close>

definition share_of :: "u64 \<Rightarrow> state \<Rightarrow> irq_ref \<Rightarrow> u64" where
  "share_of sl s r = (if arrived s r * sl = 0 then 1 else arrived s r * sl)"

lemma assign_load_slice_eq:
  "assign_load_slice sl r s = upd_irq r (i_load_update (\<lambda>_. share_of sl s r)) s"
  by (simp add: assign_load_slice_def share_of_def arrived_def Let_def upd_irq_def comp_def)

lemma assign_fold:
  "distinct rs \<Longrightarrow> irqs (fold (assign_load_slice sl) rs s) r
    = (if r \<in> set rs then (irqs s r)\<lparr> i_load := share_of sl s r \<rparr> else irqs s r)"
proof (induction rs arbitrary: s)
  case (Cons q rs)
  have "share_of sl (assign_load_slice sl q s) r = share_of sl s r"
    by (simp add: share_of_def arrived_def assign_load_slice_eq)
  with Cons show ?case by (auto simp: assign_load_slice_eq)
qed simp

lemma distinct_interrupts: "irqs_ok s \<Longrightarrow> distinct (t_interrupts (objs s d))"
  unfolding irqs_ok_def by (metis get_list.simps(2))

lemma share_sum:
  fixes sl :: u64
  assumes "sum_list (map (\<lambda>r. unat (arrived s r)) rs) \<le> unat c"
    and "sl = (if c \<noteq> 0 then l div c else 1)" and "\<forall>r \<in> set rs. i_load (irqs s' r) = share_of sl s r"
  shows "sum_list (map (movable_load s') rs) \<le> unat l"
proof -
  have each: "movable_load s' r \<le> unat (arrived s r) * unat sl" if "r \<in> set rs" for r
    using assms(3) that by (auto simp: movable_load_def share_of_def unat_word_ariths mod_less_eq_dividend)
  have "sum_list (map (movable_load s') rs) \<le> sum_list (map (\<lambda>r. unat (arrived s r) * unat sl) rs)"
    by (rule sum_list_mono) (rule each)
  also have "\<dots> = sum_list (map (\<lambda>r. unat (arrived s r)) rs) * unat sl" by (simp add: sum_list_mult_const)
  also have "\<dots> \<le> unat c * unat sl" using assms(1) by simp
  also have "\<dots> \<le> unat l" using assms(2) by (auto simp: unat_div div_times_less_eq_dividend mult.commute)
  finally show ?thesis .
qed

lemma compute_share_fair:
  assumes ok: "irqs_ok s" and cs: "compute_irq_branch_load_share d s = Some s'"
    and small: "related_count s d < 2 ^ 64"
    and own: "sum_list (map (\<lambda>r. unat (arrived s r)) (t_interrupts (objs s d))) = unat (t_irq_count (objs s d))"
  shows "fair_load d s'"
proof (cases "t_interrupts (objs s d) = []")
  case True
  with cs show ?thesis by (simp add: fair_load_def compute_irq_branch_load_share_def)
next
  case False
  let ?rs = "t_interrupts (objs s d)" and ?cs = "t_children (objs s d)"
  from cs False obtain w where w: "get_parent_branch_irq_count_share TOPO_DEPTH s d = Some w"
    by (auto simp: compute_irq_branch_load_share_def Let_def split: Option.bind_splits)
  define c where "c = fold (get_children_branch_irq_count TOPO_DEPTH s) ?cs w"
  define sl where "sl = (if c \<noteq> 0 then t_load (objs s d) div c else 1)"
  have s': "s' = fold (assign_load_slice sl) ?rs s"
    using cs False w by (cases "?cs = []")
      (auto simp: compute_irq_branch_load_share_def Let_def for_each_irq_def for_each_object_def c_def sl_def)
  from parent_share_bounds [OF w] small
  have pw: "unat (t_irq_count (objs s d)) \<le> unat w" "unat w \<le> chain_count TOPO_DEPTH s d" by (auto simp: related_count_def)
  then have "unat w \<le> unat c" using children_fold_exact [of w TOPO_DEPTH s ?cs] small by (simp add: c_def related_count_def)
  with pw own have le: "sum_list (map (\<lambda>r. unat (arrived s r)) ?rs) \<le> unat c" by simp
  have dist: "distinct ?rs" by (rule distinct_interrupts [OF ok])
  have "\<forall>r \<in> set ?rs. i_load (irqs s' r) = share_of sl s r" unfolding s' by (simp add: assign_fold [OF dist])
  from share_sum [OF le sl_def this] show ?thesis by (simp add: fair_load_def s')
qed

text \<open>The other objects leave the loads of its interrupts alone.\<close>

lemma compute_share_other:
  assumes ok: "irqs_ok s" and cs: "compute_irq_branch_load_share e s = Some s'" and "e \<noteq> d" and "fair_load d s"
  shows "fair_load d s'"
proof (cases "t_interrupts (objs s e) = []")
  case True
  with cs assms(4) show ?thesis by (simp add: compute_irq_branch_load_share_def)
next
  case False
  obtain sl where s': "s' = fold (assign_load_slice sl) (t_interrupts (objs s e)) s"
    using cs False by (auto simp: compute_irq_branch_load_share_def Let_def for_each_irq_def split: Option.bind_splits if_splits)
  have "r \<notin> set (t_interrupts (objs s e))" if "r \<in> set (t_interrupts (objs s d))" for r
    using interrupts_assigned [OF ok, of r d] interrupts_assigned [OF ok, of r e] that assms(3)
    by (auto simp: assigned_to_def)
  then have "map (movable_load s') (t_interrupts (objs s d)) = map (movable_load s) (t_interrupts (objs s d))"
    by (simp add: movable_load_def s' assign_fold [OF distinct_interrupts [OF ok]])
  moreover have "objs s' = objs s" by (simp add: s')
  ultimately show ?thesis using assms(4) unfolding fair_load_def by (simp only:)
qed

lemma related_count_objs:
  assumes o: "objs s' = objs s"
  shows "related_count s' d = related_count s d"
proof -
  have "chain_count fuel s' = chain_count fuel s \<and> branch_count fuel s' = branch_count fuel s" for fuel
    by (induction fuel) (auto simp: fun_eq_iff o split: option.split intro: arg_cong [where f = sum_list])
  then show ?thesis by (simp add: related_count_def o)
qed

lemma compute_shares_fair:
  assumes "irqs_ok s" "compute_shares ds s = Some s'" "related_count s d < 2 ^ 64"
    and "sum_list (map (\<lambda>r. unat (arrived s r)) (t_interrupts (objs s d))) = unat (t_irq_count (objs s d))"
    and "d \<in> set ds \<or> fair_load d s"
  shows "fair_load d s'"
  using assms
proof (induction ds arbitrary: s)
  case Nil
  then show ?case by (simp add: compute_shares_def)
next
  case (Cons e ds)
  from Cons.prems(2) obtain s1 where s1: "compute_irq_branch_load_share e s = Some s1" "compute_shares ds s1 = Some s'"
    by (auto simp: compute_shares_Cons split: Option.bind_splits)
  note b = bare_compute_share [OF s1(1)] and o = objs_compute_share [OF s1(1)]
  have "related_count s1 d = related_count s d" by (rule related_count_objs [OF o])
  moreover have "arrived s1 = arrived s" by (simp add: fun_eq_iff arrived_def bare_irq [OF b])
  moreover have "d \<in> set ds \<or> fair_load d s1"
    using Cons.prems compute_share_fair [OF _ s1(1)] compute_share_other [OF _ s1(1), of d] by (cases "e = d") auto
  ultimately show ?case using Cons.prems(1,3,4) bare_irqs_ok [OF b] by (intro Cons.IH [OF _ s1(2)]) (simp_all add: o)
qed

lemma under_live:
  assumes "topo_inv X s" "n \<in> live X s" "under s n d"
  shows "d \<in> live X s"
  using assms(3,2) by (induction rule: under.induct) (auto dest: topo_invD(5) [OF assms(1)])

lemma sum_unat_small:
  fixes f :: "'a \<Rightarrow> u64"
  shows "sum_list (map (\<lambda>r. unat (f r)) rs) < 2 ^ 64 \<Longrightarrow> unat (sum_list (map f rs)) = sum_list (map (\<lambda>r. unat (f r)) rs)"
  by (induction rs) (simp_all add: u64_add_no_wrap)



section \<open>The scale of the load\<close>

lemma nbits_bounds: "n < 2 ^ nbits n" "0 < n \<Longrightarrow> 2 ^ (nbits n - 1) \<le> n"
proof (induction n rule: nbits.induct)
  case (1 n)
  {
    case 1
    show ?case using "1.IH"(1) by (cases "n = 0") (simp_all add: nbits.simps [of n])
  next
    case 2
    show ?case
    proof (cases "n div 2 = 0")
      case True
      with 2 have "n = 1" by simp
      then show ?thesis by (simp add: nbits.simps)
    next
      case False
      with "1.IH"(2) 2 have "2 ^ (nbits (n div 2) - 1) \<le> n div 2" by simp
      moreover have "nbits (n div 2) > 0" using False by (simp add: nbits.simps [of "n div 2"])
      ultimately show ?thesis using 2 by (cases "nbits (n div 2)") (simp_all add: nbits.simps [of n])
    qed
  }
qed

lemma round_half_even_exact: "0 < b \<Longrightarrow> round_half_even (n * b) b = n"
  by (simp add: round_half_even_def Let_def)

text \<open>An integer of at most 53 bits is a \<open>double\<close>.\<close>

lemma round_double_exact:
  assumes b: "0 < b" and n: "n < 2 ^ 53" and "round_double (n * b, b) = (p, q)"
  shows "p = n * q \<and> 0 < q"
proof (cases "n = 0")
  case True
  with assms show ?thesis by (simp add: round_double_def)
next
  case False
  define a where "a = n * b"
  define k where "k = int (nbits a) - int (nbits b)"
  define e where "e = (if (if k \<ge> 0 then a \<ge> b * 2 ^ nat k else a * 2 ^ nat (- k) \<ge> b) then k else k - 1)"
  have a: "0 < a" "a < b * 2 ^ 53" using False b n by (simp_all add: a_def)
  have "e \<le> 52"
  proof (rule ccontr)
    assume "\<not> e \<le> 52"
    then have k: "k \<ge> 53" "k \<ge> 54 \<or> a \<ge> b * 2 ^ nat k" by (auto simp: e_def split: if_splits)
    show False
    proof (cases "k \<ge> 54")
      case True
      have "b * 2 ^ 53 < 2 ^ nbits b * 2 ^ 53" using nbits_bounds(1) [of b] by simp
      also have "\<dots> = 2 ^ (nbits b + 53)" by (simp add: power_add)
      also have "\<dots> \<le> 2 ^ (nbits a - 1)" using True by (intro power_increasing) (simp_all add: k_def)
      also have "\<dots> \<le> a" by (rule nbits_bounds(2) [OF a(1)])
      finally show False using a(2) by simp
    next
      case False
      with k have "k = 53" "b * 2 ^ nat k \<le> a" by auto
      with a(2) show False by simp
    qed
  qed
  then have "round_double (a, b) = (round_half_even (a * 2 ^ nat (52 - e)) b, 2 ^ nat (52 - e))"
    using a(1) unfolding round_double_def Let_def prod.case k_def [symmetric] e_def [symmetric] by simp
  moreover have "round_half_even (a * 2 ^ nat (52 - e)) b = n * 2 ^ nat (52 - e)"
    using round_half_even_exact [OF b, of "n * 2 ^ nat (52 - e)"] by (simp add: a_def algebra_simps)
  ultimately show ?thesis using assms(3) by (simp add: a_def)
qed

text \<open>
  The conversion of the load from jiffies to nanoseconds is exact (C31) although it is made in floating
  point, when the clock divides a second and the result has at most 53 bits; in particular its value
  is defined then.
\<close>

theorem scale_load_exact:
  assumes hz: "hz > 0" "nat hz dvd 10 ^ 9" and small: "unat load * (10 ^ 9 div nat hz) < 2 ^ 53"
  shows "scale_load hz load = Some (load * of_nat (10 ^ 9 div nat hz))"
proof -
  define f where "f = 10 ^ 9 div nat hz"
  have f: "f * nat hz = 10 ^ 9" using hz by (simp add: f_def)
  obtain a b where ab: "round_double (fst NSEC_PER_SEC, snd NSEC_PER_SEC * nat hz) = (a, b)" by (metis surj_pair)
  obtain c d where cd: "round_double (unat load, 1) = (c, d)" by (metis surj_pair)
  obtain p q where pq: "round_double (a * c, b * d) = (p, q)" by (metis surj_pair)
  have "f \<le> 10 ^ 9" unfolding f_def by (rule div_le_dividend)
  then have f53: "f < 2 ^ 53" by simp
  have "round_double (f * nat hz, nat hz) = (a, b)" using ab by (simp add: f NSEC_PER_SEC_def)
  from round_double_exact [OF _ f53 this] hz have a: "a = f * b" "0 < b" by simp_all
  have l: "unat load < 2 ^ 53"
  proof -
    have "0 < f" using f by (cases f) auto
    then have "unat load \<le> unat load * f" by simp
    also have "\<dots> < 2 ^ 53" using small by (simp add: f_def)
    finally show ?thesis .
  qed
  have "round_double (unat load * 1, 1) = (c, d)" using cd by simp
  from round_double_exact [OF _ l this] have c: "c = unat load * d" "0 < d" by simp_all
  have s: "unat load * f < 2 ^ 53" using small by (simp add: f_def)
  have "round_double (unat load * f * (b * d), b * d) = (p, q)" using pq a c by (simp add: algebra_simps)
  from round_double_exact [OF _ s this] a c have "p = unat load * f * q" "0 < q" by simp_all
  then have "p div q = unat load * f" by simp
  moreover from s have "unat load * f < 2 ^ 64" by simp
  moreover have "of_nat (unat load * f) = load * of_nat f" by simp
  ultimately show ?thesis using hz ab cd pq by (simp add: scale_load_def f_def)
qed

end
