(* ===== verification/Thermal.thy ===== *)
theory Thermal
  imports Sysfs
begin

text \<open>
  The events of \<open>thermal.c\<close>: the kernel reports the performance and the efficiency of CPUs, and CPUs
  that have neither are banned once a report for every CPU has arrived. The netlink library is a
  parameter: a message is what the library hands to the callback.
\<close>

definition MAX_RECV_ERRS :: nat where "MAX_RECV_ERRS = 2"
definition INVALID_EVENT_VALUE :: int where "INVALID_EVENT_VALUE = - 1"

definition INDEX_CPUNUM :: nat where "INDEX_CPUNUM = 0"
definition INDEX_PERF :: nat where "INDEX_PERF = 1"
definition INDEX_EFFI :: nat where "INDEX_EFFI = 2"
definition INDEX_MAX :: nat where "INDEX_MAX = 3"

text \<open>The static variables of \<open>update_banned_cpus\<close> and \<open>receive_thermal_event\<close>.\<close>

record thermal =
  banmask :: cpumask
  itrmask :: cpumask
  retry :: u32

text \<open>None stands for a write outside of a mask.\<close>

definition update_banned_cpus :: "sys \<Rightarrow> int \<Rightarrow> bool \<Rightarrow> thermal \<times> state \<Rightarrow> (thermal \<times> state) option" where
  "update_banned_cpus sys cur_cpuidx need_to_ban = (\<lambda>(t, s).
     do {
       ban \<leftarrow> (if need_to_ban then cpu_set cur_cpuidx (banmask t) else Some (banmask t));
       itr \<leftarrow> cpu_set cur_cpuidx (itrmask t);
       let t = t\<lparr> banmask := ban, itrmask := itr \<rparr>;
       if int (cpus_weight itr) < nprocessors_onln sys then Some (t, s)
       else
         let s = (if cpus_equal (thermal_banned_cpus s) ban then s
                  else s\<lparr> thermal_banned_cpus := cpus_copy (thermal_banned_cpus s) ban, need_rescan := True \<rparr>)
         in Some (t\<lparr> banmask := cpus_clear ban, itrmask := cpus_clear itr \<rparr>, s)
     })"

text \<open>A netlink message: its command, whether its attributes can be parsed, and the capability attribute.\<close>

record nl_msg =
  capability_change :: bool
  parses :: bool
  cpu_capability :: "u32 list option"

text \<open>The loop over the values, where \<open>event_data\<close> collects the three values of a CPU.\<close>

fun thermal_values ::
  "sys \<Rightarrow> nat \<Rightarrow> int list \<Rightarrow> u32 list \<Rightarrow> thermal \<times> state \<Rightarrow> (thermal \<times> state) option" where
  "thermal_values sys i event_data [] ts = Some ts"
| "thermal_values sys i event_data (value # values) ts =
     (let idx = i mod INDEX_MAX;
          event_data = event_data[idx := sint value];
          cur_cpuidx = event_data ! INDEX_CPUNUM;
          need_to_ban = (event_data ! INDEX_PERF = 0 \<and> event_data ! INDEX_EFFI = 0)
      in if idx \<noteq> INDEX_EFFI then thermal_values sys (i + 1) event_data values ts
         else if \<not> cur_cpuidx \<le> int NR_CPUS then thermal_values sys (i + 1) event_data values ts
         else do {
           ts \<leftarrow> update_banned_cpus sys cur_cpuidx need_to_ban ts;
           thermal_values sys (i + 1) event_data values ts
         })"

definition handle_thermal_event :: "sys \<Rightarrow> nl_msg \<Rightarrow> thermal \<times> state \<Rightarrow> (thermal \<times> state) option" where
  "handle_thermal_event sys msg ts =
     (if \<not> capability_change msg then Some ts
      else if \<not> parses msg then Some ts
      else case cpu_capability msg of
        None \<Rightarrow> Some ts
      | Some values \<Rightarrow> thermal_values sys 0 [INVALID_EVENT_VALUE, 0, 0] values ts)"

text \<open>\<open>nl_recvmsgs\<close> hands the messages to the callback and returns an error code. The result: whether to stay connected.\<close>

definition receive_thermal_event ::
  "sys \<Rightarrow> bool \<Rightarrow> nl_msg list \<Rightarrow> int \<Rightarrow> thermal \<times> state \<Rightarrow> (bool \<times> thermal \<times> state) option" where
  "receive_thermal_event sys g_io_in msgs err ts =
     (if \<not> g_io_in then Some (True, ts)
      else do {
        (t, s) \<leftarrow> fold (\<lambda>msg o'. do { ts \<leftarrow> o'; handle_thermal_event sys msg ts }) msgs (Some ts);
        if err = 0 then Some (True, t, s)
        else
          let t = t\<lparr> retry := retry t + 1 \<rparr>
          in Some (unat (retry t) \<le> MAX_RECV_ERRS, t, s)
      })"


section \<open>A round of reports\<close>

text \<open>A report: a CPU, its performance and its efficiency; three values of a message.\<close>

type_synonym report = "nat \<times> u32 \<times> u32"

definition report_values :: "report \<Rightarrow> u32 list" where
  "report_values = (\<lambda>(c, perf, effi). [of_nat c, perf, effi])"

definition report_bans :: "report \<Rightarrow> bool" where
  "report_bans = (\<lambda>(c, perf, effi). perf = 0 \<and> effi = 0)"

definition report_msg :: "report list \<Rightarrow> nl_msg" where
  "report_msg rs = \<lparr> capability_change = True, parses = True, cpu_capability = Some (concat (map report_values rs)) \<rparr>"

fun reports :: "sys \<Rightarrow> report list \<Rightarrow> thermal \<times> state \<Rightarrow> (thermal \<times> state) option" where
  "reports sys [] ts = Some ts"
| "reports sys (r # rs) ts = do { ts \<leftarrow> update_banned_cpus sys (int (fst r)) (report_bans r) ts; reports sys rs ts }"

lemma sint_cpu: "c < NR_CPUS \<Longrightarrow> sint (of_nat c :: u32) = int c"
  by (simp add: NR_CPUS_def sint_word_ariths signed_take_bit_int_eq_self signed_of_nat)

lemma thermal_values_reports:
  assumes "\<forall>r \<in> set rs. fst r < NR_CPUS" "i mod INDEX_MAX = 0" "length ed = INDEX_MAX"
  shows "thermal_values sys i ed (concat (map report_values rs)) ts = reports sys rs ts"
  using assms
proof (induction rs arbitrary: i ed ts)
  case (Cons r rs)
  obtain c perf effi where r: "r = (c, perf, effi)" by (rule prod_cases3)
  obtain a b d where ed: "ed = [a, b, d]" using Cons.prems(3)
    by (auto simp: INDEX_MAX_def length_Suc_conv numeral_eq_Suc)
  have idx: "i mod INDEX_MAX = 0" "(i + 1) mod INDEX_MAX = 1" "(i + 2) mod INDEX_MAX = 2" "(i + 3) mod INDEX_MAX = 0"
    using Cons.prems(2) unfolding INDEX_MAX_def by presburger+
  have "thermal_values sys (i + 3) [int c, sint perf, sint effi] (concat (map report_values rs)) = reports sys rs"
    using Cons.prems idx by (intro ext Cons.IH) (simp_all add: INDEX_MAX_def)
  moreover have "c \<le> NR_CPUS" "sint (of_nat c :: u32) = int c" using Cons.prems(1) sint_cpu by (simp_all add: r)
  moreover have "(sint perf = 0 \<and> sint effi = 0) = report_bans r"
    by (simp add: report_bans_def r) (metis signed_eq_0_iff)
  moreover have "report_values r = [of_nat c, perf, effi]" by (simp add: r report_values_def)
  ultimately show ?case using idx
    by (simp add: r ed Let_def INDEX_CPUNUM_def INDEX_PERF_def INDEX_EFFI_def eval_nat_numeral)
qed simp

lemma messages_reports:
  assumes "\<forall>rs \<in> set rss. \<forall>r \<in> set rs. fst r < NR_CPUS"
  shows "fold (\<lambda>msg o'. do { ts \<leftarrow> o'; handle_thermal_event sys msg ts }) (map report_msg rss) (Some ts)
    = reports sys (concat rss) ts"
proof -
  have app: "reports sys (rs @ qs) ts = do { ts \<leftarrow> reports sys rs ts; reports sys qs ts }" for rs qs ts
  proof (induction rs arbitrary: ts)
    case (Cons r rs)
    then have "reports sys (rs @ qs) = (\<lambda>ts. do { ts \<leftarrow> reports sys rs ts; reports sys qs ts })" by (intro ext)
    then show ?case by simp
  qed simp
  have none: "fold (\<lambda>msg o'. do { ts \<leftarrow> o'; handle_thermal_event sys msg ts }) ms None = None" for ms
    by (induction ms) simp_all
  show ?thesis using assms
  proof (induction rss arbitrary: ts)
    case (Cons rs rss)
    then have "handle_thermal_event sys (report_msg rs) ts = reports sys rs ts"
      by (simp add: handle_thermal_event_def report_msg_def thermal_values_reports INDEX_MAX_def)
    with Cons show ?case by (cases "reports sys rs ts") (simp_all add: app none)
  qed simp
qed

lemma clear_mask: "wf_cpumask m \<Longrightarrow> cpus_of (cpus_clear m) = {} \<and> wf_cpumask (cpus_clear m)"
  by (simp add: cpus_of_def cpus_clear_def wf_cpumask_bitmap bits_of_zero)

text \<open>One report sets the bits of its CPU; the round ends when all CPUs are there.\<close>

lemma update_report:
  assumes wf: "wf_cpumask (banmask t)" "wf_cpumask (itrmask t)" and c: "c < NR_CPUS"
  obtains b i where "wf_cpumask b" "wf_cpumask i" "cpus_of i = insert c (cpus_of (itrmask t))"
    "cpus_of b = (if ban then insert c (cpus_of (banmask t)) else cpus_of (banmask t))"
    "update_banned_cpus sys (int c) ban (t, s) = Some
       (if int (card (cpus_of i)) < nprocessors_onln sys then (t\<lparr> banmask := b, itrmask := i \<rparr>, s)
        else (t\<lparr> banmask := cpus_clear b, itrmask := cpus_clear i \<rparr>,
              if cpus_of (thermal_banned_cpus s) = cpus_of b then s
              else s\<lparr> thermal_banned_cpus := cpus_copy (thermal_banned_cpus s) b, need_rescan := True \<rparr>))"
proof -
  have "\<exists>b. (if ban then cpu_set (int c) (banmask t) else Some (banmask t)) = Some b \<and> wf_cpumask b
      \<and> cpus_of b = (if ban then insert c (cpus_of (banmask t)) else cpus_of (banmask t))"
    using mask.set_op [OF wf(1), of c] c wf(1) by auto
  then obtain b where b: "(if ban then cpu_set (int c) (banmask t) else Some (banmask t)) = Some b" "wf_cpumask b"
      "cpus_of b = (if ban then insert c (cpus_of (banmask t)) else cpus_of (banmask t))" by blast
  obtain i where i: "cpu_set (int c) (itrmask t) = Some i" "wf_cpumask i" "cpus_of i = insert c (cpus_of (itrmask t))"
    using mask.set_op [OF wf(2)] c by auto
  show thesis
    by (rule that [OF b(2) i(2,3) b(3)]) (simp add: update_banned_cpus_def b(1) i(1) mask.weight_op mask.equal_op Let_def)
qed

lemma cpus_of_copy: "wf_cpumask d \<Longrightarrow> cpus_of (cpus_copy d a) = cpus_of a"
  by (simp add: cpus_of_def cpus_copy_def wf_cpumask_bitmap bits_of_writes)

definition banned_by :: "report list \<Rightarrow> nat set" where
  "banned_by rs = fst ` {r \<in> set rs. report_bans r}"

lemma reports_round:
  assumes "wf_cpumask (banmask t)" "wf_cpumask (itrmask t)" "wf_cpumask (thermal_banned_cpus s)"
    and "\<forall>r \<in> set rs. fst r < NR_CPUS" "distinct (map fst rs)" "fst ` set rs \<inter> cpus_of (itrmask t) = {}"
    and "rs \<noteq> []" "int (card (cpus_of (itrmask t)) + length rs) = nprocessors_onln sys"
  shows "\<exists>t' s'. reports sys rs (t, s) = Some (t', s') \<and> cpus_of (banmask t') = {} \<and> cpus_of (itrmask t') = {}
    \<and> cpus_of (thermal_banned_cpus s') = cpus_of (banmask t) \<union> banned_by rs
    \<and> need_rescan s' = (need_rescan s \<or> cpus_of (thermal_banned_cpus s) \<noteq> cpus_of (banmask t) \<union> banned_by rs)"
  using assms
proof (induction rs arbitrary: t)
  case (Cons r rs)
  have c: "fst r < NR_CPUS" "fst r \<notin> cpus_of (itrmask t)" using Cons.prems by auto
  obtain b i where bi: "wf_cpumask b" "wf_cpumask i" "cpus_of i = insert (fst r) (cpus_of (itrmask t))"
      "cpus_of b = (if report_bans r then insert (fst r) (cpus_of (banmask t)) else cpus_of (banmask t))"
    and up: "update_banned_cpus sys (int (fst r)) (report_bans r) (t, s) = Some
       (if int (card (cpus_of i)) < nprocessors_onln sys then (t\<lparr> banmask := b, itrmask := i \<rparr>, s)
        else (t\<lparr> banmask := cpus_clear b, itrmask := cpus_clear i \<rparr>,
              if cpus_of (thermal_banned_cpus s) = cpus_of b then s
              else s\<lparr> thermal_banned_cpus := cpus_copy (thermal_banned_cpus s) b, need_rescan := True \<rparr>))"
    by (rule update_report [OF Cons.prems(1,2) c(1)])
  have card: "card (cpus_of i) = Suc (card (cpus_of (itrmask t)))" using c(2) by (simp add: bi(3))
  have ban: "cpus_of b \<union> banned_by rs = cpus_of (banmask t) \<union> banned_by (r # rs)"
    by (auto simp: bi(4) banned_by_def)
  show ?case
  proof (cases "rs = []")
    case True
    then have "cpus_of b = cpus_of (banmask t) \<union> banned_by (r # rs)" using ban by (simp add: banned_by_def)
    moreover have "\<not> int (card (cpus_of i)) < nprocessors_onln sys" using Cons.prems(8) True card by simp
    ultimately show ?thesis using up True bi clear_mask Cons.prems(3) by (simp add: cpus_of_copy)
  next
    case False
    define t1 where "t1 = t\<lparr> banmask := b, itrmask := i \<rparr>"
    have "int (card (cpus_of i)) < nprocessors_onln sys" using Cons.prems(8) False card by (cases rs) simp_all
    then have "reports sys (r # rs) (t, s) = reports sys rs (t1, s)" using up by (simp add: t1_def)
    moreover have "\<exists>t' s'. reports sys rs (t1, s) = Some (t', s') \<and> cpus_of (banmask t') = {} \<and> cpus_of (itrmask t') = {}
        \<and> cpus_of (thermal_banned_cpus s') = cpus_of (banmask t1) \<union> banned_by rs
        \<and> need_rescan s' = (need_rescan s \<or> cpus_of (thermal_banned_cpus s) \<noteq> cpus_of (banmask t1) \<union> banned_by rs)"
      by (rule Cons.IH) (use Cons.prems False bi card in \<open>auto simp: t1_def\<close>)
    ultimately show ?thesis using ban by (simp add: t1_def)
  qed
qed simp

section \<open>Properties\<close>

text \<open>
  (C16) A complete round of thermal events takes effect, however the kernel spreads it over
  messages: after one report for every online CPU the thermally banned CPUs are exactly those that
  were reported with no performance and no efficiency, the topology is scanned again exactly if
  they have changed, and the collection starts anew.
\<close>

theorem thermal_round:
  assumes "cpus_of (banmask t) = {}" "cpus_of (itrmask t) = {}"
    and "wf_cpumask (banmask t)" "wf_cpumask (itrmask t)" "wf_cpumask (thermal_banned_cpus s)"
    and "\<forall>r \<in> set (concat rss). fst r < NR_CPUS" "distinct (map fst (concat rss))"
    and "concat rss \<noteq> []" "int (length (concat rss)) = nprocessors_onln sys"
  shows "\<exists>t' s'. receive_thermal_event sys True (map report_msg rss) 0 (t, s) = Some (True, t', s')
    \<and> cpus_of (banmask t') = {} \<and> cpus_of (itrmask t') = {}
    \<and> cpus_of (thermal_banned_cpus s') = banned_by (concat rss)
    \<and> (need_rescan s' \<longleftrightarrow> need_rescan s \<or> cpus_of (thermal_banned_cpus s) \<noteq> banned_by (concat rss))"
proof -
  have "fold (\<lambda>msg o'. do { ts \<leftarrow> o'; handle_thermal_event sys msg ts }) (map report_msg rss) (Some (t, s))
      = reports sys (concat rss) (t, s)" using assms(6) by (intro messages_reports) auto
  moreover have "\<exists>t' s'. reports sys (concat rss) (t, s) = Some (t', s') \<and> cpus_of (banmask t') = {} \<and> cpus_of (itrmask t') = {}
      \<and> cpus_of (thermal_banned_cpus s') = cpus_of (banmask t) \<union> banned_by (concat rss)
      \<and> need_rescan s' = (need_rescan s \<or> cpus_of (thermal_banned_cpus s) \<noteq> cpus_of (banmask t) \<union> banned_by (concat rss))"
    by (rule reports_round) (use assms in auto)
  ultimately show ?thesis using assms(1) by (auto simp: receive_thermal_event_def)
qed

text \<open>
  (C39) The check of the CPU number in a thermal event is off by one: an event for the CPU number
  \<open>NR_CPUS\<close>, which no mask can hold, passes it, and a bit outside of the mask is written.
\<close>

theorem thermal_event_out_of_range:
  assumes wf: "wf_cpumask (banmask t)" "wf_cpumask (itrmask t)"
  shows "handle_thermal_event sys (report_msg [(NR_CPUS, perf, effi)]) (t, s) = None"
proof -
  have "sint (of_nat NR_CPUS :: u32) = int NR_CPUS"
    by (simp add: NR_CPUS_def signed_take_bit_int_eq_self signed_of_nat)
  moreover have "cpu_set (int NR_CPUS) m = None" if "wf_cpumask m" for m
    using that bit_ops_out_of_range(1) [of "int NR_CPUS" m] by (simp add: cpu_set_def wf_cpumask_def NR_CPUS_def)
  ultimately show ?thesis using wf
    by (simp add: handle_thermal_event_def report_msg_def report_values_def Let_def INDEX_MAX_def INDEX_CPUNUM_def
        INDEX_PERF_def INDEX_EFFI_def update_banned_cpus_def)
qed

end
