(* ===== verification/Daemon.thy ===== *)
theory Daemon
  imports Procstat Thermal
begin

text \<open>
  The daemon itself (\<open>irqbalance.c\<close>): its options, the periodic scan with the rebuilding of the
  topology, the commands of the user interface and the main loop that calls all of these.
\<close>

section \<open>State\<close>

text \<open>The globals of \<open>irqbalance.c\<close> around those that all files share, and whether the main loop was told to end.\<close>

record daemon =
  d_state :: state
  d_thermal :: thermal
  keep_going :: bool
  one_shot_mode :: bool
  debug_mode :: bool
  foreground_mode :: bool
  journal_logging :: bool
  pidfile :: "string option"
  sleep_interval :: int
  last_interval :: int
  loop_quit :: bool

definition SLEEP_INTERVAL :: int where
  "SLEEP_INTERVAL = 10"

text \<open>The values of the globals when the program starts; \<open>fs\<close> are the outcomes of the allocations to come.\<close>

definition initial_state :: "bool list \<Rightarrow> state" where
  "initial_state fs = \<lparr> objs = \<lambda>_. zero_obj, irqs = \<lambda>_. zero_irq, interrupts_db = [], banned_irqs = [], rebalance_irq_list = [],
     numa_nodes = [], packages = [], cache_domains = [], cpus = [], numa_avail = False, banned_cpus = CPU_MASK_NONE,
     unbanned_cpus = CPU_MASK_NONE, cpu_online_map = CPU_MASK_NONE, cycle_count = 0, power_thresh = ULONG_MAX, migrate_ratio = 0,
     need_rescan = False, need_rebuild = False, deepest_cache = 2, HZ = 0, cache_domain_count = 0,
     thermal_banned_cpus = CPU_MASK_NONE, cl_banned_irqs = [], cl_banned_modules = [], polscript = None, cpu_ban_string = None,
     banned_cpumask_from_ui = None, proc_int_has_msi = False, msi_found_in_sysfs = False, next_obj = 0, next_irq = 0, mem_fails = fs \<rparr>"

definition initial_daemon :: "bool list \<Rightarrow> daemon" where
  "initial_daemon fs = \<lparr> d_state = initial_state fs, d_thermal = \<lparr> banmask = CPU_MASK_NONE, itrmask = CPU_MASK_NONE, retry = 0 \<rparr>,
     keep_going = True, one_shot_mode = False, debug_mode = False, foreground_mode = False, journal_logging = False, pidfile = None,
     sleep_interval = SLEEP_INTERVAL, last_interval = 0, loop_quit = False \<rparr>"

definition upd_state :: "(state \<Rightarrow> state) \<Rightarrow> daemon \<Rightarrow> daemon" where
  "upd_state f d = d\<lparr> d_state := f (d_state d) \<rparr>"

section \<open>The command line\<close>

text \<open>
  \<open>getopt_long\<close> is a parameter: the list of options it finds, each a character with its argument.
  \<open>Inl\<close> is a call of \<open>exit\<close>.
\<close>

definition parse_option :: "char \<times> string \<Rightarrow> daemon \<Rightarrow> int + daemon" where
  "parse_option = (\<lambda>(opt, optarg) d.
     if opt = CHR ''?'' then Inl 1
     else if opt = CHR ''V'' then Inl 0
     else if opt = CHR ''c''
     then
       let (v, endptr) = strtoul 10 optarg;
           d = upd_state (deepest_cache_update (\<lambda>_. v)) d
       in if optarg = endptr \<or> v = ULONG_MAX \<or> v < 1 then Inl 1 else Inr d
     else if opt = CHR ''d'' then Inr (d\<lparr> debug_mode := True, foreground_mode := True \<rparr>)
     else if opt = CHR ''f'' then Inr (d\<lparr> foreground_mode := True \<rparr>)
     else if opt = CHR ''i''
     then
       let (val, endptr) = strtoul 10 optarg
       in if optarg = endptr \<or> val = ULONG_MAX then Inl 1
          else Inr (upd_state (add_cl_banned_irq (int_of_u64 val)) d)
     else if opt = CHR ''l''
     then Inr (upd_state (\<lambda>s. let (ok, s) = mem_next s in s\<lparr> polscript := (if ok then Some optarg else None) \<rparr>) d)
     else if opt = CHR ''m'' then Inr (upd_state (add_cl_banned_module optarg) d)
     else if opt = CHR ''p''
     then
       if g_str_has_prefix optarg ''off'' then Inr (upd_state (power_thresh_update (\<lambda>_. ULONG_MAX)) d)
       else
         let (v, endptr) = strtoul 10 optarg;
             d = upd_state (power_thresh_update (\<lambda>_. v)) d
         in if optarg = endptr \<or> v = ULONG_MAX then Inl 1 else Inr d
     else if opt = CHR ''o'' then Inr (d\<lparr> one_shot_mode := True \<rparr>)
     else if opt = CHR ''s'' then Inr (d\<lparr> pidfile := Some optarg \<rparr>)
     else if opt = CHR ''j'' then Inr (d\<lparr> journal_logging := True, foreground_mode := True \<rparr>)
     else if opt = CHR ''t''
     then
       let (v, endptr) = strtol 10 optarg;
           d = d\<lparr> sleep_interval := int_of_long v \<rparr>
       in if optarg = endptr \<or> sleep_interval d < 1 then Inl 1 else Inr d
     else if opt = CHR ''e''
     then
       let (v, endptr) = strtoul 10 optarg;
           d = upd_state (migrate_ratio_update (\<lambda>_. v)) d
       in if optarg = endptr then Inl 1 else Inr d
     else Inr d)"

fun parse_command_line :: "(char \<times> string) list \<Rightarrow> daemon \<Rightarrow> int + daemon" where
  "parse_command_line [] d = Inr d"
| "parse_command_line (o' # os) d =
     (case parse_option o' d of Inl code \<Rightarrow> Inl code | Inr d \<Rightarrow> parse_command_line os d)"

section \<open>The scan\<close>

definition build_object_tree :: "sys \<Rightarrow> state \<Rightarrow> state option" where
  "build_object_tree sys s =
     do {
       s \<leftarrow> parse_cpu_tree sys (build_numa_node_list sys s);
       Some (rebuild_irq_db sys s)
     }"

definition free_object_tree :: "state \<Rightarrow> state" where
  "free_object_tree s = free_irq_db (clear_cpu_tree (free_numa_node_list s))"

definition handler :: "daemon \<Rightarrow> daemon" where
  "handler d = d\<lparr> keep_going := False, loop_quit := True \<rparr>"

definition force_rescan :: "daemon \<Rightarrow> daemon" where
  "force_rescan d = upd_state (\<lambda>s. if cycle_count s \<noteq> 0 then s\<lparr> need_rescan := True \<rparr> else s) d"

text \<open>
  The inner loop of \<open>scan\<close>, on the number of attempts that are left; the system may look different in
  every attempt. False is the jump to \<open>out\<close>.
\<close>

fun rebuild_loop :: "(nat \<Rightarrow> sys) \<Rightarrow> nat \<Rightarrow> state \<Rightarrow> (bool \<times> state) option" where
  "rebuild_loop sysv 0 s = Some (False, free_object_tree s)"
| "rebuild_loop sysv (Suc tries) s =
     do {
       s \<leftarrow> build_object_tree (sysv tries) ((free_object_tree s)\<lparr> need_rebuild := False \<rparr>);
       if need_rebuild s then rebuild_loop sysv tries s else Some (True, s)
     }"

definition finish_scan :: "daemon \<Rightarrow> bool \<times> daemon" where
  "finish_scan d =
     (let d = (if one_shot_mode d then d\<lparr> keep_going := False \<rparr> else d);
          d = upd_state (cycle_count_update (\<lambda>c. c + 1)) d
      in if last_interval d \<noteq> sleep_interval d then (False, d\<lparr> last_interval := sleep_interval d \<rparr>)
         else if keep_going d then (True, d)
         else (False, d\<lparr> loop_quit := True \<rparr>))"

text \<open>
  The body of the outer loop ends with \<open>return\<close> or \<open>goto out\<close>, so it runs at most once. The system as the
  calls find it: \<open>sysv 0\<close> to \<open>sysv 2\<close> for the attempts, \<open>sysv 3\<close> and \<open>sysv 4\<close> for the files in \<open>/proc\<close> before,
  \<open>sysv 5\<close> and \<open>sysv 6\<close> for those after a rebuild.
\<close>

definition scan ::
  "sorter \<Rightarrow> 'k kernel_ops \<Rightarrow> (nat \<Rightarrow> sys) \<Rightarrow> daemon \<Rightarrow> 'k \<Rightarrow> (bool \<times> daemon \<times> 'k) option" where
  "scan g_list_sort ops sysv d k =
     (let s = clear_work_stats (d_state d);
          s = parse_proc_interrupts (sysv 3) s
      in if keep_going d \<and> (need_rescan s \<or> need_rebuild s)
         then
           let s = s\<lparr> need_rescan := False, cycle_count := 0 \<rparr>;
               s = clear_work_stats s
           in do {
             (ok, s) \<leftarrow> rebuild_loop sysv 3 s;
             if \<not> ok then
               let (ret, d) = finish_scan (d\<lparr> d_state := s \<rparr>) in Some (ret, d, k)
             else
               let s = for_each_irq (interrupts_db s) [] force_rebalance_irq s;
                   s = clear_slots s;
                   s = parse_proc_interrupts (sysv 5) s
               in do {
                 s \<leftarrow> parse_proc_stat (sysv 6) s;
                 Some (True, d\<lparr> d_state := s \<rparr>, k)
               }
           }
         else
           do {
             s \<leftarrow> parse_proc_stat (sysv 4) s;
             let s = (if cycle_count s \<noteq> 0 then update_migration_status g_list_sort s else s);
             let s = calculate_placement g_list_sort s;
             let (s, k) = activate_mappings ops (s, k);
             let (ret, d) = finish_scan (d\<lparr> d_state := s \<rparr>);
             Some (ret, d, k)
           })"

section \<open>Commands of the user interface\<close>

text \<open>\<open>sprintf\<close> to the end of a string in a buffer of so many bytes; None where it writes behind the buffer.\<close>

definition append_text :: "nat \<Rightarrow> string \<Rightarrow> string \<Rightarrow> string option" where
  "append_text bytes old new = (if length old + length new < bytes then Some (old @ new) else None)"

definition text_of :: "string option \<Rightarrow> string" where
  "text_of t = (case t of None \<Rightarrow> [] | Some t \<Rightarrow> t)"

definition u64_text :: "u64 \<Rightarrow> string" where
  "u64_text w = dec_of_nat (unat w)"

definition irq_text :: "irq_info \<Rightarrow> string" where
  "irq_text i = ''IRQ '' @ dec_of_int (i_irq i) @ '' LOAD '' @ u64_text (i_load i) @
     '' DIFF '' @ u64_text (i_irq_count i - i_last_irq_count i) @ '' CLASS '' @ dec_of_int (i_class i) @ '' ''"

definition get_irq_data :: "irq_ref \<Rightarrow> string option \<times> state \<Rightarrow> (string option \<times> state) option" where
  "get_irq_data irq = (\<lambda>(irqdata, s).
     let (ok, s) = mem_next s
     in if \<not> ok then Some (irqdata, s)
        else do {
          t \<leftarrow> append_text (length (text_of irqdata) + (24 + 1 + 11 + 20 + 20 + 11)) (text_of irqdata) (irq_text (irqs s irq));
          Some (Some t, s)
        })"

fun foldM :: "('a \<Rightarrow> 'b \<Rightarrow> 'b option) \<Rightarrow> 'a list \<Rightarrow> 'b \<Rightarrow> 'b option" where
  "foldM f [] y = Some y"
| "foldM f (x # xs) y = do { y \<leftarrow> f x y; foldM f xs y }"

definition obj_text :: "topo_obj \<Rightarrow> string \<Rightarrow> string" where
  "obj_text d irq_data = ''TYPE '' @ dec_of_nat (obj_type_value (t_obj_type d)) @ '' NUMBER '' @ dec_of_int (t_number d) @
     '' LOAD '' @ u64_text (t_load d) @ '' SAVE_MODE '' @ (if t_powersave_mode d then ''1'' else ''0'') @ '' '' @ irq_data"

fun get_object_stat :: "nat \<Rightarrow> obj_ref \<Rightarrow> string option \<times> state \<Rightarrow> (string option \<times> state) option" where
  "get_object_stat 0 d x = None"
| "get_object_stat (Suc fuel) d (stats, s) =
     do {
       (irq_data, s) \<leftarrow> (if length (t_interrupts (objs s d)) > 0
                          then foldM get_irq_data (t_interrupts (objs s d)) (None, s) else Some (None, s));
       let irqdlen = length (text_of irq_data);
       let (ok, s) = mem_next s;
       if \<not> ok then Some (stats, s)
       else do {
         t \<leftarrow> append_text (length (text_of stats) + irqdlen + 31 + 11 + 20 + 11 + 1) (text_of stats)
                 (obj_text (objs s d) (text_of irq_data));
         if t_obj_type (objs s d) \<noteq> OBJ_TYPE_CPU
         then foldM (get_object_stat fuel) (t_children (objs s d)) (Some t, s)
         else Some (Some t, s)
       }
     }"

text \<open>
  A connection: whether it was accepted, how many bytes were received (negative for an error), the
  bytes of \<open>buff\<close>, of which only the first ones were received, and the credentials if there is a control
  message: whether it has them, and the user.
\<close>

record connection =
  accepted :: bool
  recv_size :: int
  buff :: string
  cmsg :: "(bool \<times> nat) option"

text \<open>
  The copy of the argument of a command; None where the subtraction of the length of the prefix
  from the number of bytes received wraps around.
\<close>

definition command_arg :: "string \<Rightarrow> connection \<Rightarrow> string option" where
  "command_arg prefix c =
     (if recv_size c < int (length prefix) then None
      else Some (takeWhile (\<lambda>x. x \<noteq> CHR 0x00) (take (nat (recv_size c) - length prefix) (drop (length prefix) (buff c)))))"

lemma strtoul_shorter: "fst (strtoul 10 s) \<noteq> 0 \<Longrightarrow> length (snd (strtoul 10 s)) < length s"
  by (auto simp: strtoul_def read_number_shorter split: option.splits)

lemma int_of_u64_0 [simp]: "int_of_u64 0 = 0"
  by (simp add: int_of_u64_def)

text \<open>\<open>do { add_cl_banned_irq(irq); } while ((irq = strtoul(end, &end, 10)));\<close>\<close>

function ban_irqs :: "int \<Rightarrow> string \<Rightarrow> state \<Rightarrow> state" where
  "ban_irqs irq rest s =
     (let s = add_cl_banned_irq irq s;
          irq = int_strtoul 10 rest
      in if irq = 0 then s else ban_irqs irq (snd (strtoul 10 rest)) s)"
  by pat_completeness auto
termination
proof (relation "measure (\<lambda>(irq, rest, s). length rest)")
  fix irq :: int and rest :: string and s s' :: state and i :: int
  assume "i = int_strtoul 10 rest" "i \<noteq> 0"
  then have "fst (strtoul 10 rest) \<noteq> 0" by (auto simp: int_strtoul_def)
  then show "((i, snd (strtoul 10 rest), s'), irq, rest, s) \<in> measure (\<lambda>(irq, rest, s). length rest)"
    by (simp add: strtoul_shorter)
qed simp

declare ban_irqs.simps [simp del]

definition settings_sleep :: "string \<Rightarrow> daemon \<Rightarrow> daemon" where
  "settings_sleep sleep_string d =
     (let new_iterval = int_strtoul 10 sleep_string
      in if new_iterval \<ge> 1 then d\<lparr> sleep_interval := new_iterval \<rparr> else d)"

definition settings_ban_irqs :: "string \<Rightarrow> state \<Rightarrow> state" where
  "settings_ban_irqs irq_string s =
     (let s = s\<lparr> cl_banned_irqs := [], need_rescan := True \<rparr>
      in if g_str_has_prefix irq_string ''NONE'' then s
         else ban_irqs (int_strtoul 10 irq_string) (snd (strtoul 10 irq_string)) s)"

definition settings_cpus :: "string \<Rightarrow> state \<Rightarrow> state" where
  "settings_cpus arg s =
     (let first = map_option fst (strtok arg);
          s = s\<lparr> cpu_ban_string := Some arg, banned_cpumask_from_ui := first \<rparr>;
          s = (if first \<noteq> None \<and> g_str_has_prefix (the first) ''NULL''
               then s\<lparr> banned_cpumask_from_ui := None, cpu_ban_string := None \<rparr> else s)
      in s\<lparr> need_rescan := True \<rparr>)"

text \<open>The answer to \<open>setup\<close>; None where a buffer is left.\<close>

definition setup_reply :: "daemon \<Rightarrow> (string option \<times> daemon) option" where
  "setup_reply d =
     (let (ok, s) = mem_next (d_state d)
      in if \<not> ok then Some (None, d\<lparr> d_state := s \<rparr>)
         else do {
           setup \<leftarrow> append_text (7 + 11 + 1) [] (''SLEEP '' @ dec_of_int (sleep_interval d) @ '' '');
           (setup, s) \<leftarrow> foldM get_irq_data (cl_banned_irqs s) (Some setup, s);
           (banned, _) \<leftarrow> cpumask_scnprintf 512 (banned_cpus s);
           let (ok, s) = mem_next s;
           Some (if ok then Some (text_of setup @ ''BANNED '' @ banned) else None, d\<lparr> d_state := s \<rparr>)
         })"

text \<open>\<open>strlen(stats)\<close> of the null pointer is not defined.\<close>

definition stats_reply :: "daemon \<Rightarrow> (string option \<times> daemon) option" where
  "stats_reply d =
     do {
       (stats, s) \<leftarrow> foldM (get_object_stat TOPO_DEPTH) (numa_nodes (d_state d)) (None, d_state d);
       if stats = None then None else Some (stats, d\<lparr> d_state := s \<rparr>)
     }"

definition sock_command :: "connection \<Rightarrow> daemon \<Rightarrow> (string option \<times> daemon) option" where
  "sock_command c d =
     (let has = g_str_has_prefix (buff c);
          (ok, s) = mem_next (d_state d)
      in if has ''stats'' then stats_reply d
         else if has ''settings sleep ''
         then do {
           arg \<leftarrow> command_arg ''settings sleep '' c;
           Some (None, if ok then settings_sleep arg (d\<lparr> d_state := s \<rparr>) else d\<lparr> d_state := s \<rparr>)
         }
         else if has ''settings ban irqs ''
         then do {
           arg \<leftarrow> command_arg ''settings ban irqs '' c;
           Some (None, d\<lparr> d_state := if ok then settings_ban_irqs arg s else s \<rparr>)
         }
         else if has ''settings cpus ''
         then do {
           arg \<leftarrow> command_arg ''settings cpus '' c;
           let s = s\<lparr> banned_cpumask_from_ui := None, cpu_ban_string := None \<rparr>;
           Some (None, d\<lparr> d_state := if ok then settings_cpus arg s else s \<rparr>)
         }
         else if has ''setup'' then setup_reply d
         else Some (None, d))"

text \<open>The reply that is sent, if any.\<close>

definition sock_handle :: "bool \<Rightarrow> connection \<Rightarrow> daemon \<Rightarrow> (string option \<times> daemon) option" where
  "sock_handle g_io_in c d =
     (if \<not> g_io_in then Some (None, d)
      else if \<not> accepted c then Some (None, d)
      else if recv_size c < 0 then Some (None, d)
      else if recv_size c = 16384 then Some (None, d)
      else case cmsg c of
        None \<Rightarrow> Some (None, d)
      | Some (credentials, uid) \<Rightarrow> if credentials \<and> uid = 0 then sock_command c d else Some (None, d))"

section \<open>Starting and stopping\<close>

text \<open>
  \<open>main\<close> after the options: the environment, \<open>numa_available\<close> and the clock of the system, the first tree.
  False when there is nothing to balance. The sockets, the signals and the process itself are not
  part of the model.
\<close>

definition startup_config :: "sys \<Rightarrow> int \<Rightarrow> int \<Rightarrow> daemon \<Rightarrow> daemon" where
  "startup_config sys numa_available clk_tck d =
     (let d = (if getenv sys ''INVOCATION_ID'' \<noteq> None then d\<lparr> journal_logging := True, foreground_mode := True \<rparr> else d);
          d = (if getenv sys ''IRQBALANCE_ONESHOT'' \<noteq> None then d\<lparr> one_shot_mode := True \<rparr> else d);
          d = (if getenv sys ''IRQBALANCE_DEBUG'' \<noteq> None then d\<lparr> debug_mode := True, foreground_mode := True \<rparr> else d);
          d = (if numa_available > - 1 then upd_state (numa_avail_update (\<lambda>_. True)) d else d)
      in upd_state (HZ_update (\<lambda>_. if clk_tck = - 1 then 100 else clk_tck)) d)"

definition startup :: "(nat \<Rightarrow> sys) \<Rightarrow> int \<Rightarrow> int \<Rightarrow> daemon \<Rightarrow> (bool \<times> daemon) option" where
  "startup sysv numa_available clk_tck d =
     (let d = startup_config (sysv 0) numa_available clk_tck d
      in do {
        s \<leftarrow> build_object_tree (sysv 0) (d_state d);
        if num_online_cpus (cpu_online_map s) \<le> 1 then Some (False, d\<lparr> d_state := s \<rparr>)
        else
          let s = for_each_irq (interrupts_db s) [] force_rebalance_irq s;
              s = parse_proc_interrupts (sysv 1) s
          in do {
            s \<leftarrow> parse_proc_stat (sysv 2) s;
            Some (True, d\<lparr> d_state := clear_slots s, last_interval := sleep_interval d \<rparr>)
          }
      })"

definition shutdown :: "daemon \<Rightarrow> daemon" where
  "shutdown d = upd_state (\<lambda>s. (free_cl_opts (free_object_tree s))\<lparr> polscript := None \<rparr>) d"

end
