(* ===== verification/Balance_Inv.thy ===== *)
theory Balance_Inv
  imports Daemon
begin

text \<open>
  The invariant of the running daemon: the lists of interrupts agree with their fields, the topology is
  well formed and without banned CPUs, no interrupt refers to a topology object that was freed, and the
  interrupts banned by the user are not balanced. Balancing and the reading of \<open>/proc\<close> keep it.
\<close>

section \<open>The invariant\<close>

definition assigned_live :: "state \<Rightarrow> bool" where
  "assigned_live s \<longleftrightarrow> (\<forall>r \<in> set (interrupts_db s). \<forall>d. i_assigned_obj (irqs s r) = Some d \<longrightarrow> d \<in> live {} s)"

definition balance_inv :: "state \<Rightarrow> bool" where
  "balance_inv s \<longleftrightarrow> db_inv s \<and> topo_inv {} s \<and> avoids_banned s \<and> nodes_ok s \<and> assigned_live s \<and>
     (need_rebuild s \<or> no_node_known s) \<and> (need_rescan s \<or> cl_bans_kept s) \<and> wf_cpumask (unbanned_cpus s)"

lemma balance_invD:
  assumes "balance_inv s"
  shows "db_inv s" "topo_inv {} s" "nodes_ok s" "assigned_live s" "irqs_ok s" "tree_descends s"
  using assms topo_inv_descends by (auto simp: balance_inv_def dest: db_invD(1))

section \<open>Steps that only move interrupts\<close>

text \<open>
  What balancing may do: the topology and the database stay, interrupts are unassigned or assigned to
  objects of the topology, and interrupts that are not balanced stay so.
\<close>

definition irq_moves :: "obj_ref set \<Rightarrow> irq_info \<Rightarrow> irq_info \<Rightarrow> bool" where
  "irq_moves L i i' \<longleftrightarrow> i_numa_node i' = i_numa_node i \<and>
     (i_level i = BALANCE_NONE \<longrightarrow> i_level i' = BALANCE_NONE) \<and>
     (case i_assigned_obj i' of None \<Rightarrow> True | Some d \<Rightarrow> i_assigned_obj i = Some d \<or> d \<in> L)"

lemma irq_moves_refl [simp]: "irq_moves L i i"
  by (simp add: irq_moves_def split: option.split)

lemma irq_moves_trans: "irq_moves L i i' \<Longrightarrow> irq_moves L i' i'' \<Longrightarrow> irq_moves L i i''"
  by (auto simp: irq_moves_def split: option.splits)

definition moves_only :: "state \<Rightarrow> state \<Rightarrow> bool" where
  "moves_only s s' \<longleftrightarrow> irqs_ok s' \<and> same_frame s s' \<and> (\<forall>r. irq_moves (live {} s) (irqs s r) (irqs s' r))"

lemma same_frame_live: "same_frame s s' \<Longrightarrow> live X s' = live X s"
  by (rule master_cong(2)) (simp_all add: same_frame_def)

lemma moves_only_refl: "irqs_ok s \<Longrightarrow> moves_only s s"
  by (simp add: moves_only_def)

lemma moves_only_trans [trans]:
  assumes "moves_only s s1" "moves_only s1 s2"
  shows "moves_only s s2"
proof -
  have fr: "same_frame s s1" "same_frame s1 s2" using assms by (simp_all add: moves_only_def)
  have "\<forall>r. irq_moves (live {} s) (irqs s r) (irqs s1 r)" "\<forall>r. irq_moves (live {} s) (irqs s1 r) (irqs s2 r)"
    using assms unfolding moves_only_def same_frame_live [OF fr(1)] by blast+
  then have "\<forall>r. irq_moves (live {} s) (irqs s r) (irqs s2 r)" using irq_moves_trans by blast
  with assms(2) same_frame_trans [OF fr] show ?thesis unfolding moves_only_def by blast
qed

lemma same_frame_nodes:
  assumes "same_frame s s'"
  shows "no_node_known s' = no_node_known s" "node_ok s' n = node_ok s n"
proof -
  have "numa_nodes s' = numa_nodes s" "t_number (objs s' d) = t_number (objs s d)" for d
    using assms by (simp_all add: same_frame_def shape_def)
  then show "no_node_known s' = no_node_known s" "node_ok s' n = node_ok s n"
    by (simp_all add: no_node_known_def node_ok_def split: option.split)
qed

lemma avoids_same:
  assumes "\<And>d. t_mask (objs s' d) = t_mask (objs s d)" "\<And>t. master t s' = master t s" "banned_cpus s' = banned_cpus s"
  shows "avoids_banned s' = avoids_banned s"
  using assms by (simp add: avoids_banned_def)

lemma same_frame_avoids:
  assumes "same_frame s s'"
  shows "avoids_banned s' = avoids_banned s"
proof (rule avoids_same)
  show "t_mask (objs s' d) = t_mask (objs s d)" for d using assms by (simp add: same_frame_def shape_def)
  show "master t s' = master t s" for t using assms by (cases t) (simp_all add: same_frame_def)
  show "banned_cpus s' = banned_cpus s" using assms by (simp add: same_frame_def)
qed

lemma moves_only_inv:
  assumes inv: "balance_inv s" and st: "moves_only s s'"
  shows "balance_inv s'"
proof -
  have fr: "same_frame s s'" and ok: "irqs_ok s'" using st by (simp_all add: moves_only_def)
  have sel: "interrupts_db s' = interrupts_db s" "banned_irqs s' = banned_irqs s" "cl_banned_irqs s' = cl_banned_irqs s"
    "next_irq s' = next_irq s" "need_rebuild s' = need_rebuild s" "need_rescan s' = need_rescan s"
    "unbanned_cpus s' = unbanned_cpus s" "i_irq (irqs s' r) = i_irq (irqs s r)" for r
    using fr by (simp_all add: same_frame_def)
  have "db_inv s'" using balance_invD(1) [OF inv] ok st unfolding db_inv_def sel by (simp add: moves_only_def irq_moves_def)
  moreover have "topo_inv {} s'" using balance_invD(2) [OF inv] topo_inv_same_frame [OF fr] by simp
  moreover have "avoids_banned s'" using inv same_frame_avoids [OF fr] by (simp add: balance_inv_def)
  moreover have "nodes_ok s'"
    using balance_invD(3) [OF inv] st by (simp add: nodes_ok_def sel same_frame_nodes [OF fr] moves_only_def irq_moves_def)
  moreover have "assigned_live s'"
    using balance_invD(4) [OF inv] st unfolding assigned_live_def sel(1) same_frame_live [OF fr]
    by (fastforce simp: moves_only_def irq_moves_def split: option.splits)
  moreover have "cl_bans_kept s' = cl_bans_kept s" by (simp add: cl_bans_kept_def sel)
  ultimately show ?thesis using inv by (simp add: balance_inv_def sel same_frame_nodes [OF fr])
qed

lemma moves_only_bare:
  assumes b: "bare s' = bare s" and "irqs_ok s"
  shows "moves_only s s'"
  using assms(2) bare_same_frame [OF b] by (simp add: moves_only_def irq_moves_def bare_irqs_ok [OF b] bare_irq [OF b] split: option.split)

lemma moves_only_selects:
  assumes "selects s s'"
  shows "moves_only s s'"
proof -
  have "irq_moves (live {} s) (irqs s r) (irqs s' r)" for r
  proof -
    have "stays_or_waits s s' r" "i_numa_node (irqs s' r) = i_numa_node (irqs s r)" "i_level (irqs s' r) = i_level (irqs s r)"
      using assms by (simp_all add: selects_def)
    then show ?thesis by (auto simp: irq_moves_def stays_or_waits_def split: option.split)
  qed
  with assms show ?thesis by (simp add: moves_only_def selects_def)
qed

lemma moves_only_upd_irq:
  assumes "irqs_ok s" "\<And>i. i_irq (f i) = i_irq i" "\<And>i. i_numa_node (f i) = i_numa_node i"
    "\<And>i. i_assigned_obj (f i) = i_assigned_obj i" "\<And>i. i_level i = BALANCE_NONE \<Longrightarrow> i_level (f i) = BALANCE_NONE"
  shows "moves_only s (upd_irq r f s)"
  using assms by (simp add: moves_only_def irqs_ok_upd_irq same_frame_upd_irq irq_moves_def split: option.split)

lemma moves_only_upd_obj:
  assumes "irqs_ok s" "\<And>x. shape (f x) = shape x" "\<And>x. t_interrupts (f x) = t_interrupts x"
  shows "moves_only s (upd_obj d f s)"
  unfolding moves_only_def using irqs_ok_upd_obj [OF assms(1,3)] same_frame_upd_obj [of f] assms(2) by simp

lemma moves_only_fold:
  assumes "irqs_ok s" "\<And>x t. x \<in> set xs \<Longrightarrow> irqs_ok t \<Longrightarrow> moves_only t (f x t)"
  shows "moves_only s (fold f xs s)"
proof (rule fold_invariant_on [where I = "moves_only s"])
  show "moves_only s s" using assms(1) by (rule moves_only_refl)
  fix x t assume "x \<in> set xs" "moves_only s t"
  moreover from this have "moves_only t (f x t)" using assms(2) by (simp add: moves_only_def)
  ultimately show "moves_only s (f x t)" by (blast intro: moves_only_trans)
qed


section \<open>Placement and activation\<close>

definition nodes_known :: "state \<Rightarrow> bool" where
  "nodes_known s \<longleftrightarrow> (\<forall>r \<in> set (interrupts_db s). \<exists>n \<in> set (numa_nodes s). i_numa_node (irqs s r) = Some n)"

lemma balance_nodes_known: "balance_inv s \<Longrightarrow> \<not> need_rebuild s \<Longrightarrow> nodes_known s"
  by (fastforce simp: balance_inv_def nodes_ok_def node_ok_def nodes_known_def split: option.splits)

lemma moves_only_migrate:
  assumes ok: "irqs_ok s" and on: "on_its_list s r" and frm: "from = None \<or> from = i_assigned_obj (irqs s r)"
    and to: "case to of None \<Rightarrow> True | Some d \<Rightarrow> d \<in> live {} s"
  shows "moves_only s (migrate_irq_obj from to r s)"
  using migrate_irq_obj_effect(1,3) [OF ok on frm, of to] irqs_ok_migrate [OF ok on frm, of to] to
  by (simp add: moves_only_def irq_moves_def split: option.splits)

lemma nodes_known_moves: "moves_only s t \<Longrightarrow> nodes_known t = nodes_known s"
  by (simp add: nodes_known_def moves_only_def irq_moves_def same_frame_def)

lemma node_live: "n \<in> set (numa_nodes s) \<Longrightarrow> n \<in> live X s"
  using master_live [of n OBJ_TYPE_NODE s X] by simp

interpretation pl_moves: placement_invariant "\<lambda>t. moves_only s t \<and> nodes_known s \<and> topo_inv {} s" for s
proof
  fix t r b
  assume I: "moves_only s t \<and> nodes_known s \<and> topo_inv {} s" and on: "on_its_list t r"
  have ok: "irqs_ok t" and fr: "same_frame s t" using I by (simp_all add: moves_only_def)
  {
    assume "node_target t r b" and as: "i_assigned_obj (irqs t r) = None"
    moreover have "r \<in> set (interrupts_db t)" by (rule on_its_list_db [OF ok on])
    ultimately have "b \<in> set (numa_nodes t)"
      using I nodes_known_moves [of s t] by (auto simp: node_target_def irq_numa_node_def nodes_known_def)
    then have "moves_only t (migrate_irq_obj None (Some b) r t)"
      by (intro moves_only_migrate [OF ok on]) (simp_all add: node_live)
    with I show "moves_only s (migrate_irq_obj None (Some b) r t) \<and> nodes_known s \<and> topo_inv {} s"
      by (blast intro: moves_only_trans)
  next
    fix d assume "i_assigned_obj (irqs t r) = Some d" "b \<in> set (t_children (objs t d))"
    moreover have "topo_inv {} t" using I topo_inv_same_frame [OF fr] by simp
    ultimately have "moves_only t (migrate_irq_obj (Some d) (Some b) r t)"
      using topo_invD(5) [of "{}" t b d] by (intro moves_only_migrate [OF ok on]) simp_all
    with I show "moves_only s (migrate_irq_obj (Some d) (Some b) r t) \<and> nodes_known s \<and> topo_inv {} s"
      by (blast intro: moves_only_trans)
  }
next
  fix t xs assume I: "moves_only s t \<and> nodes_known s \<and> topo_inv {} s" and xs: "mset xs = mset (rebalance_irq_list t)"
  then have "irqs_ok t" by (simp add: moves_only_def)
  from irqs_ok_permuted [OF this xs] I show "moves_only s (t\<lparr> rebalance_irq_list := xs \<rparr>) \<and> nodes_known s \<and> topo_inv {} s"
    by (simp add: moves_only_def same_frame_def)
qed (simp add: moves_only_def)

lemma moves_only_placement:
  assumes "balance_inv s" "\<not> need_rebuild s" "sorts g"
  shows "moves_only s (calculate_placement g s)"
  using pl_moves.calculate_placement [OF _ assms(3), of s s] balance_invD [OF assms(1)] balance_nodes_known [OF assms(1,2)]
  by (simp add: moves_only_refl)

text \<open>The scope of the search for a fallback is part of the topology, and so are the CPUs below it.\<close>

lemma ancestor_live:
  assumes inv: "topo_inv {} s"
  shows "ancestor_of_type n s ty d = Some x \<Longrightarrow> (\<forall>y. d = Some y \<longrightarrow> y \<in> live {} s) \<Longrightarrow> x \<in> live {} s"
proof (induction n arbitrary: d)
  case (Suc n)
  have "p \<in> live {} s" if "t_parent (objs s y) = Some p" for y p
    using topo_invD(3) [OF inv, of p] topo_invD(7) [OF inv that] by (auto simp: blank_def)
  then show ?case using Suc.prems by (auto split: option.splits if_splits intro: Suc.IH)
qed simp

lemma fallback_scope_live:
  assumes inv: "topo_inv {} s" and "d \<in> live {} s" "fallback_scope s lev d = Some x"
  shows "x \<in> live {} s"
proof -
  have "p \<in> live {} s" if "t_parent (objs s d) = Some p" for p
    using topo_invD(3) [OF inv, of p] topo_invD(7) [OF inv that] by (auto simp: blank_def)
  with assms(2,3) ancestor_live [OF inv, of TOPO_DEPTH _ "t_parent (objs s d)" x] show ?thesis
    by (auto simp: fallback_scope_def split: if_splits)
qed

lemma moves_only_saturated: "saturated s s' \<Longrightarrow> irqs_ok s \<Longrightarrow> moves_only s s'"
  using saturated_irqs_ok [of s s'] saturated_sel(1,2) [of s s'] by (simp add: moves_only_def)

lemma moves_only_fallback:
  assumes inv: "topo_inv {} s" and d: "d \<in> live {} s"
    and f: "irqs_ok s" "on_its_list s r" "i_assigned_obj (irqs s r) = Some d" "tree_descends s"
      "try_fallback_cpu ops r d s k = (found, s', k')"
  shows "moves_only s s'"
proof -
  from try_fallback_done [OF f] consider "saturated s s'"
    | scope where "fallback_scope s (i_level (irqs s r)) d = Some scope" "fallback_done r d scope s True s'"
    by (cases found) (auto simp: fallback_done_def)
  then show ?thesis
  proof cases
    case 1
    then show ?thesis using f(1) by (rule moves_only_saturated)
  next
    case (2 scope)
    obtain fb where fb: "under s scope fb" "irqs_ok s'" "same_frame s s'"
      "irqs s' = (irqs s)(r := (irqs s r)\<lparr> i_moved := False, i_assigned_obj := Some fb \<rparr>)"
      using fallback_found [OF f(1-3) 2(2)] by metis
    have "fb \<in> live {} s" by (rule under_live [OF inv fallback_scope_live [OF inv d 2(1)] fb(1)])
    with fb show ?thesis by (simp add: moves_only_def irq_moves_def split: option.split)
  qed
qed

lemma moves_only_set_moved: "irqs_ok s \<Longrightarrow> moves_only s (set_moved r b s)"
  unfolding set_moved_def by (rule moves_only_upd_irq) simp_all

lemma moves_only_force:
  assumes "irqs_ok s" "on_its_list s r" "i_assigned_obj (irqs s r) \<noteq> None"
  shows "moves_only s (force_rebalance_irq r s)"
  using moves_only_migrate [OF assms(1,2), of "i_assigned_obj (irqs s r)" None] assms
  by (auto simp: force_rebalance_irq_def moves_only_refl)

lemma moves_only_activation_failed:
  assumes inv: "topo_inv {} s" and d: "d \<in> live {} s"
    and as: "irqs_ok s" "on_its_list s r" "i_assigned_obj (irqs s r) = Some d"
  shows "moves_only s (fst (activation_failed ops e r d s k))"
proof -
  define e' where "e' = (if e = Err_EIO then Err_EPERM else e)"
  consider "e' \<in> {Err_EAGAIN, Err_EBUSY, Err_EINVAL, Err_ERANGE, Err_ENOMEM}" | "e' = Err_ENOSPC"
    | "e' \<notin> {Err_EAGAIN, Err_EBUSY, Err_EINVAL, Err_ERANGE, Err_ENOMEM, Err_ENOSPC}" by blast
  then show ?thesis
  proof cases
    case 1
    then have "activation_failed ops e r d s k = (s, k)"
      unfolding activation_failed_def Let_def e'_def [symmetric] by simp
    then show ?thesis using moves_only_refl [OF as(1)] by simp
  next
    case 2
    define s0 where "s0 = (if t_obj_type (objs s d) = OBJ_TYPE_CPU then set_slots d SLOTS_SATURATED s else s)"
    have sat: "saturated s s0" by (simp add: s0_def saturated_set_slots)
    have m0: "moves_only s s0" by (rule moves_only_saturated [OF sat as(1)])
    then have fr: "same_frame s s0" by (simp add: moves_only_def)
    have s0: "irqs_ok s0" "on_its_list s0 r" "i_assigned_obj (irqs s0 r) = Some d" "topo_inv {} s0" "d \<in> live {} s0"
      using as d inv saturated_irqs_ok [OF sat] saturated_on_its_list [OF sat] saturated_sel(1) [OF sat]
        topo_inv_same_frame [OF fr] same_frame_live [OF fr] by auto
    obtain found s' k' where f: "try_fallback_cpu ops r d s0 k = (found, s', k')" by (metis prod_cases3)
    have td: "tree_descends s0" by (rule topo_inv_descends [OF s0(4)])
    have m1: "moves_only s s'" by (rule moves_only_trans [OF m0 moves_only_fallback [OF s0(4,5,1,2,3) td f]])
    have eq: "activation_failed ops e r d s k
        = (if found then (s', k') else (set_moved r False (force_rebalance_irq r s'), k'))"
      unfolding activation_failed_def Let_def e'_def [symmetric] s0_def [symmetric] using 2 f
      by (simp split: bool.split)
    show ?thesis
    proof (cases found)
      case True
      with eq m1 show ?thesis by simp
    next
      case False
      have "saturated s0 s'" using try_fallback_ok(3) [OF s0(1-3) td f False] .
      then have "irqs_ok s'" "on_its_list s' r" "i_assigned_obj (irqs s' r) \<noteq> None"
        using s0(1-3) saturated_irqs_ok saturated_on_its_list saturated_sel(1) by auto
      then have m2: "moves_only s (force_rebalance_irq r s')" using moves_only_trans [OF m1 moves_only_force] by blast
      moreover from this have "irqs_ok (force_rebalance_irq r s')" by (simp add: moves_only_def)
      ultimately show ?thesis using moves_only_trans [OF m2 moves_only_set_moved] eq False by simp
    qed
  next
    case 3
    have m: "moves_only s (upd_irq r (i_level_update (\<lambda>_. BALANCE_NONE)) s)"
      by (rule moves_only_upd_irq [OF as(1)]) simp_all
    then have "irqs_ok (upd_irq r (i_level_update (\<lambda>_. BALANCE_NONE)) s)" by (simp add: moves_only_def)
    moreover have "fst (activation_failed ops e r d s k) = set_moved r False (upd_irq r (i_level_update (\<lambda>_. BALANCE_NONE)) s)"
      unfolding activation_failed_def Let_def e'_def [symmetric] using 3 by simp
    ultimately show ?thesis using moves_only_trans [OF m moves_only_set_moved] by simp
  qed
qed

lemma balance_moves_activate:
  assumes inv: "balance_inv s" and r: "r \<in> set (interrupts_db s)"
  shows "moves_only s (fst (activate_mapping ops r (s, k)))"
proof (cases "i_assigned_obj (irqs s r)")
  case None
  then show ?thesis using moves_only_refl [OF balance_invD(5) [OF inv]] by (simp add: activate_mapping_def)
next
  case (Some d)
  have ok: "irqs_ok s" by (rule balance_invD(5) [OF inv])
  have d: "d \<in> live {} s" using balance_invD(4) [OF inv] r Some by (simp add: assigned_live_def)
  have on: "on_its_list s r" using ok r Some by (auto simp: on_its_list_def irqs_ok_def)
  obtain res k1 where w: "write_affinity ops (i_irq (irqs s r)) (cpus_and CPU_MASK_NONE (cpu_online_map s) (t_mask (objs s d))) k
      = (res, k1)" by fastforce
  from moves_only_activation_failed [OF balance_invD(2) [OF inv] d ok on Some, of ops _ k1]
    moves_only_set_moved [OF ok] moves_only_refl [OF ok] Some w
  show ?thesis by (cases res) (simp_all add: activate_mapping_def Let_def)
qed

lemma moves_only_activate:
  assumes inv: "balance_inv s"
  shows "moves_only s (fst (activate_mappings ops (s, k)))"
proof -
  have "moves_only s (fst (fold (activate_mapping ops) (interrupts_db s) (s, k)))"
  proof (rule fold_invariant_on [where I = "\<lambda>sk. moves_only s (fst sk)"])
    show "moves_only s (fst (s, k))" using moves_only_refl [OF balance_invD(5) [OF inv]] by simp
    fix r and sk :: "state \<times> 'a" assume r: "r \<in> set (interrupts_db s)" and m: "moves_only s (fst sk)"
    then have "r \<in> set (interrupts_db (fst sk))" by (simp add: moves_only_def same_frame_def)
    from balance_moves_activate [OF moves_only_inv [OF inv m] this, of ops "snd sk"] m
    show "moves_only s (fst (activate_mapping ops r sk))" by (auto intro: moves_only_trans)
  qed
  then show ?thesis by (simp add: activate_mappings_def for_each_irq_def)
qed


section \<open>Counters and statistics\<close>

lemma moves_only_clear_obj_slots: "irqs_ok s \<Longrightarrow> moves_only s (clear_obj_slots n d s)"
proof (induction n arbitrary: d s)
  case (Suc n)
  let ?s = "upd_obj d (t_slots_left_update (\<lambda>_. INT_MAX)) s"
  have m: "moves_only s ?s" by (rule moves_only_upd_obj [OF Suc.prems]) (simp_all add: shape_def)
  then have "irqs_ok ?s" by (simp add: moves_only_def)
  then have "moves_only ?s (fold (clear_obj_slots n) (t_children (objs s d)) ?s)"
    using Suc.IH by (rule moves_only_fold)
  with m show ?case by (auto simp: for_each_object_def intro: moves_only_trans)
qed (simp add: moves_only_refl)

lemma moves_only_clear_slots: "irqs_ok s \<Longrightarrow> moves_only s (clear_slots s)"
  unfolding clear_slots_def for_each_object_def by (rule moves_only_fold) (auto intro: moves_only_clear_obj_slots)

lemma moves_only_clear_obj_stats: "irqs_ok s \<Longrightarrow> moves_only s (clear_obj_stats n d s)"
proof (induction n arbitrary: d s)
  case (Suc n)
  let ?s = "fold (clear_obj_stats n) (t_children (objs s d)) s"
  have m: "moves_only s ?s" using Suc.prems Suc.IH by (rule moves_only_fold)
  then have ok: "irqs_ok ?s" by (simp add: moves_only_def)
  have "moves_only ?s (fold clear_irq_stats rs ?s)" for rs
    by (rule moves_only_fold [OF ok]) (auto simp: clear_irq_stats_def intro: moves_only_upd_irq)
  with m show ?case unfolding clear_obj_stats.simps Let_def for_each_object_def for_each_irq_def by (blast intro: moves_only_trans)
qed (simp add: moves_only_refl)

lemma moves_only_clear_work_stats: "irqs_ok s \<Longrightarrow> moves_only s (clear_work_stats s)"
  unfolding clear_work_stats_def for_each_object_def by (rule moves_only_fold) (auto intro: moves_only_clear_obj_stats)

lemma stat_lines_bare: "stat_lines lines n s = Some (m, s') \<Longrightarrow> bare s' = bare s"
proof (induction lines arbitrary: n s)
  case (Cons line lines)
  have upd: "bare (upd_obj c (\<lambda>x. x\<lparr> t_load := l, t_last_load := l' \<rparr>) s) = bare s" for c l l'
    by (rule bare_upd_obj) simp
  show ?case using Cons.prems Cons.IH upd
    by (fastforce simp: Let_def split: if_splits option.splits prod.splits Option.bind_splits)
qed simp

lemma parse_proc_stat_bare: "parse_proc_stat sys s = Some s' \<Longrightarrow> bare s' = bare s"
  by (auto simp: parse_proc_stat_def split: option.splits list.splits Option.bind_splits if_splits
      dest!: stat_lines_bare share_loads_bare)

lemma moves_only_parse_proc_stat: "parse_proc_stat sys s = Some s' \<Longrightarrow> irqs_ok s \<Longrightarrow> moves_only s s'"
  by (rule moves_only_bare) (rule parse_proc_stat_bare)

section \<open>Reading /proc/interrupts\<close>

lemma balance_inv_same:
  assumes inv: "balance_inv s" and eq: "objs s' = objs s" "irqs s' = irqs s" "interrupts_db s' = interrupts_db s"
    "banned_irqs s' = banned_irqs s" "cl_banned_irqs s' = cl_banned_irqs s" "rebalance_irq_list s' = rebalance_irq_list s"
    "numa_nodes s' = numa_nodes s" "packages s' = packages s" "cache_domains s' = cache_domains s" "cpus s' = cpus s"
    "next_obj s' = next_obj s" "next_irq s' = next_irq s" "need_rebuild s' = need_rebuild s" "unbanned_cpus s' = unbanned_cpus s"
    "need_rescan s \<Longrightarrow> need_rescan s'" "banned_cpus s' = banned_cpus s"
  shows "balance_inv s'"
proof -
  have m: "master t s' = master t s" for t by (cases t) (simp_all add: eq)
  have "avoids_banned s' = avoids_banned s" by (rule avoids_same) (simp_all add: eq m)
  moreover have l: "get_list l s' = get_list l s" for l by (cases l) (simp_all add: eq)
  moreover have "db_inv s' = db_inv s" by (simp add: db_inv_def irqs_ok_def l eq)
  moreover have "topo_inv {} s' = topo_inv {} s" by (rule topo_inv_cong) (simp_all add: eq)
  moreover have nn: "no_node_known s' = no_node_known s" by (simp add: no_node_known_def eq)
  moreover have "nodes_ok s' = nodes_ok s" by (simp add: nodes_ok_def node_ok_def nn eq split: option.split)
  moreover have "live {} s' = live {} s" by (rule master_cong(2)) (simp_all add: eq)
  then have "assigned_live s' = assigned_live s" by (simp add: assigned_live_def eq)
  moreover have "cl_bans_kept s' = cl_bans_kept s" by (simp add: cl_bans_kept_def eq)
  ultimately show ?thesis using inv eq(15) unfolding balance_inv_def by (auto simp: eq(13,14))
qed

lemma balance_inv_step:
  assumes inv: "balance_inv s" and st: "db_step s s'" and db: "db_inv s'"
  shows "balance_inv s'"
proof -
  obtain s1 xs where g: "db_grows s s1" and s': "s' = s1\<lparr> rebalance_irq_list := xs \<rparr>" using st by (auto simp: db_step_def)
  note sel = db_grows_sel [OF g]
  obtain i1 d1 b1 n1 f1 where s1: "s1 = s\<lparr> irqs := i1, interrupts_db := d1, banned_irqs := b1, next_irq := n1, mem_fails := f1 \<rparr>"
    using g unfolding db_grows_def by blast
  have ub: "unbanned_cpus s1 = unbanned_cpus s" by (simp add: s1)
  have m: "master t s' = master t s" for t by (cases t) (simp_all add: s' s1)
  have old: "irqs s1 r = irqs s r" if "r < next_irq s" for r using g that by (simp add: db_grows_def)
  have cases: "(r \<in> set (interrupts_db s) \<and> irqs s1 r = irqs s r) \<or> new_irq s s1 r" if "r \<in> set (interrupts_db s1)" for r
    using g that old db_invD(2) [OF balance_invD(1) [OF inv]] unfolding db_grows_def by blast
  have lv: "live {} s' = live {} s" by (rule master_cong(2)) (simp_all add: s' sel)
  have nn: "no_node_known s' = no_node_known s" by (simp add: no_node_known_def s' sel)
  have no: "node_ok s' n = node_ok s n" for n by (cases n) (simp add: node_ok_def nn, simp add: node_ok_def s' sel)
  have "avoids_banned s' = avoids_banned s" by (rule avoids_same) (simp_all only: m, simp_all add: s' s1)
  moreover have "topo_inv {} s' = topo_inv {} s" by (rule topo_inv_cong) (simp_all add: s' sel)
  moreover have "nodes_ok s'"
    using cases balance_invD(3) [OF inv] unfolding nodes_ok_def no by (fastforce simp: s' new_irq_def)
  moreover have "assigned_live s'"
    using cases balance_invD(4) [OF inv] unfolding assigned_live_def lv by (fastforce simp: s' new_irq_def)
  moreover have "cl_bans_kept s'" if "cl_bans_kept s"
  proof -
    have "i_irq (irqs s1 r) \<noteq> i_irq (irqs s1 b)" if "r \<in> set (interrupts_db s1)" "b \<in> set (cl_banned_irqs s)" for r b
    proof -
      have "b < next_irq s" using db_invD(4) [OF balance_invD(1) [OF inv] that(2)] .
      then show ?thesis using cases [OF that(1)] that(2) \<open>cl_bans_kept s\<close> old by (auto simp: cl_bans_kept_def new_irq_def)
    qed
    then show ?thesis by (simp add: cl_bans_kept_def s' sel)
  qed
  ultimately show ?thesis using inv db by (auto simp: balance_inv_def nn) (simp_all add: s' sel ub)
qed

lemma balance_inv_shrinks:
  assumes inv: "balance_inv s" and sh: "shrinks s s'" and db: "db_inv s'"
  shows "balance_inv s'"
proof -
  obtain ob ir idb bn rl where s': "s' = s\<lparr> objs := ob, irqs := ir, interrupts_db := idb, banned_irqs := bn, rebalance_irq_list := rl \<rparr>"
    using sh unfolding shrinks_def by blast
  have sub: "set (interrupts_db s') \<subseteq> set (interrupts_db s)" using sh by (simp add: shrinks_def)
  have shp: "shape (objs s' d) = shape (objs s d)" for d using sh by (simp add: shrinks_def)
  have ir: "i_numa_node (irqs s' r) = i_numa_node (irqs s r)" "i_assigned_obj (irqs s' r) = i_assigned_obj (irqs s r)"
    "i_irq (irqs s' r) = i_irq (irqs s r)" for r
  proof -
    have "(irqs s' r)\<lparr> i_existing := False \<rparr> = (irqs s r)\<lparr> i_existing := False \<rparr>" using sh by (simp add: shrinks_def)
    from arg_cong [OF this, of i_numa_node] arg_cong [OF this, of i_assigned_obj] arg_cong [OF this, of i_irq]
    show "i_numa_node (irqs s' r) = i_numa_node (irqs s r)" "i_assigned_obj (irqs s' r) = i_assigned_obj (irqs s r)"
      "i_irq (irqs s' r) = i_irq (irqs s r)" by simp_all
  qed
  have lv: "live {} s' = live {} s" by (rule master_cong(2)) (simp_all add: s')
  have num: "t_number (objs s' d) = t_number (objs s d)" for d using shp [of d] by (simp add: shape_def)
  have nn: "no_node_known s' = no_node_known s" by (simp add: no_node_known_def num) (simp add: s')
  have no: "node_ok s' n = node_ok s n" for n by (simp add: node_ok_def nn split: option.split) (simp add: s')
  have m: "master t s' = master t s" for t by (cases t) (simp_all add: s')
  have "t_mask (objs s' d) = t_mask (objs s d)" for d using shp [of d] by (simp add: shape_def)
  then have "avoids_banned s' = avoids_banned s" by (rule avoids_same) (simp_all only: m, simp add: s')
  moreover have "topo_inv {} s' = topo_inv {} s" by (rule topo_inv_shape [OF shp]) (simp_all add: s')
  moreover have "nodes_ok s'" using balance_invD(3) [OF inv] sub unfolding nodes_ok_def no ir by blast
  moreover have "assigned_live s'" using balance_invD(4) [OF inv] sub unfolding assigned_live_def lv ir by blast
  moreover have "cl_banned_irqs s' = cl_banned_irqs s" by (simp add: s')
  then have "cl_bans_kept s \<Longrightarrow> cl_bans_kept s'" using sub unfolding cl_bans_kept_def ir by auto
  ultimately show ?thesis using inv db by (auto simp: balance_inv_def nn) (simp_all add: s')
qed

lemma balance_inv_flags:
  assumes "balance_inv s"
  shows "balance_inv (s\<lparr> proc_int_has_msi := b \<rparr>)" "balance_inv (s\<lparr> msi_found_in_sysfs := b \<rparr>)"
    "balance_inv (s\<lparr> mem_fails := fs \<rparr>)" "balance_inv (s\<lparr> need_rescan := True \<rparr>)" "balance_inv (s\<lparr> cycle_count := c \<rparr>)"
  by (rule balance_inv_same [OF assms]; simp)+

lemma balance_inv_upd_irq:
  assumes "balance_inv s" "\<And>i. i_irq (f i) = i_irq i" "\<And>i. i_numa_node (f i) = i_numa_node i"
    "\<And>i. i_assigned_obj (f i) = i_assigned_obj i" "\<And>i. i_level (f i) = i_level i"
  shows "balance_inv (upd_irq r f s)"
  by (rule moves_only_inv [OF assms(1) moves_only_upd_irq]) (use assms balance_invD(5) in simp_all)

lemma balance_inv_line_irq:
  assumes "balance_inv s" "line_irq sys line number s = (info, s')"
  shows "balance_inv s' \<and> need_rebuild s' = need_rebuild s"
proof (cases "get_irq_info number s")
  case None
  note st = hotplug_step [OF balance_invD(1) [OF assms(1)] None, of sys line]
  with None assms(2) have "db_step s s'" "db_inv s'" by (simp_all add: line_irq_def)
  moreover from this(1) have "need_rebuild s' = need_rebuild s" by (auto simp: db_step_def dest: db_grows_sel(11))
  ultimately show ?thesis using balance_inv_step [OF assms(1)] by blast
qed (use assms in \<open>auto simp: line_irq_def\<close>)

lemma balance_inv_count_line:
  assumes "balance_inv s"
  shows "balance_inv (snd (count_line c info s)) \<and> need_rebuild (snd (count_line c info s)) = need_rebuild s"
proof -
  define s1 where "s1 = upd_irq info (i_existing_update (\<lambda>_. True)) s"
  have s1: "balance_inv s1" unfolding s1_def by (rule balance_inv_upd_irq [OF assms]) simp_all
  define s2 where "s2 = upd_irq info (\<lambda>i. i\<lparr> i_last_irq_count := i_irq_count i, i_irq_count := fst (count_loop c 0 0) \<rparr>) s1"
  have s2: "balance_inv s2" unfolding s2_def by (rule balance_inv_upd_irq [OF s1]) simp_all
  have "need_rebuild s1 = need_rebuild s" "need_rebuild s2 = need_rebuild s" by (simp_all add: s1_def s2_def)
  then show ?thesis unfolding count_line_def Let_def case_prod_beta s1_def [symmetric] s2_def [symmetric]
    using s1 s2 by (simp add: balance_inv_flags)
qed

lemma balance_inv_interrupt_lines:
  "balance_inv s \<Longrightarrow> balance_inv (interrupt_lines sys lines s) \<and> need_rebuild (interrupt_lines sys lines s) = need_rebuild s"
proof (induction lines arbitrary: s)
  case (Cons line lines)
  let ?I = "\<lambda>t. balance_inv t \<and> need_rebuild t = need_rebuild s"
  define s1 where "s1 = (if \<not> proc_int_has_msi s \<and> strstr line ''MSI'' then s\<lparr> proc_int_has_msi := True \<rparr> else s)"
  have s1: "?I s1" using Cons.prems by (simp add: s1_def balance_inv_flags)
  then have s2: "?I (snd (mem_next s1))" by (simp add: mem_next_def balance_inv_flags)
  have "?I (case line_irq sys line n (snd (mem_next s1)) of (None, s) \<Rightarrow> s\<lparr> need_rescan := True \<rparr>
      | (Some info, s) \<Rightarrow> let (go_on, s) = count_line c info s in if go_on then interrupt_lines sys lines s else s)" for n c
  proof (cases "line_irq sys line n (snd (mem_next s1))")
    case (Pair info s3)
    then have s3: "?I s3" using balance_inv_line_irq [OF conjunct1 [OF s2] Pair] s2 by simp
    show ?thesis
    proof (cases info)
      case None
      then show ?thesis using Pair s3 by (simp add: balance_inv_flags)
    next
      case (Some r)
      have s4: "?I (snd (count_line c r s3))" using balance_inv_count_line [OF conjunct1 [OF s3], of c r] s3 by simp
      from Some show ?thesis using Pair s4 Cons.IH [OF conjunct1 [OF s4]] by (simp add: case_prod_beta Let_def)
    qed
  qed
  then show ?case using s1 s2 Cons.IH [OF conjunct1 [OF s1]]
    by (cases "mem_next s1") (simp add: Let_def s1_def [symmetric] split: option.split)
qed simp

lemma balance_inv_parse_proc_interrupts:
  assumes "balance_inv s"
  shows "balance_inv (parse_proc_interrupts sys s)" "need_rebuild (parse_proc_interrupts sys s) = need_rebuild s"
proof -
  let ?I = "\<lambda>t. balance_inv t \<and> need_rebuild t = need_rebuild s"
  have clear: "?I (clear_no_existing_irqs t)" if "?I t" for t
  proof -
    have inv: "balance_inv t" using that by blast
    note st = clear_step [OF balance_invD(1) [OF inv]]
    then obtain ob ir db bn rl where "clear_no_existing_irqs t
        = t\<lparr> objs := ob, irqs := ir, interrupts_db := db, banned_irqs := bn, rebalance_irq_list := rl \<rparr>"
      unfolding shrinks_def by blast
    then have "need_rebuild (clear_no_existing_irqs t) = need_rebuild t" by simp
    with st that balance_inv_shrinks [OF inv] show ?thesis by simp
  qed
  have "?I (parse_proc_interrupts sys s)" using balance_inv_interrupt_lines [OF assms] clear
    by (auto simp: parse_proc_interrupts_def Let_def balance_inv_flags assms split: option.split list.split)
  then show "balance_inv (parse_proc_interrupts sys s)" "need_rebuild (parse_proc_interrupts sys s) = need_rebuild s" by blast+
qed

end
