(* ===== verification/Commands.thy ===== *)
theory Commands
  imports Daemon
begin

text \<open>
  The commands of the user interface: who may give them, and what the replies say. The replies are
  computed in buffers that are just large enough, and the statistics are the objects of the tree in the
  order of a walk from the nodes down to the CPUs.
\<close>

section \<open>Replies only read\<close>

text \<open>A reply changes nothing but the memory that is left.\<close>

definition only_memory :: "state \<Rightarrow> state \<Rightarrow> bool" where
  "only_memory s s' \<longleftrightarrow> (\<exists>fs. s' = s\<lparr> mem_fails := fs \<rparr>)"

lemma only_memory_refl [simp]: "only_memory s s"
  unfolding only_memory_def by (rule exI [of _ "mem_fails s"]) simp

lemma only_memory_trans [trans]: "only_memory s s1 \<Longrightarrow> only_memory s1 s2 \<Longrightarrow> only_memory s s2"
  by (auto simp: only_memory_def)

lemma only_memory_next: "mem_next s = (ok, s') \<Longrightarrow> only_memory s s'"
  by (auto simp: only_memory_def mem_next_def)

lemma foldM_memory:
  assumes f: "\<And>x t u t' u'. f x (t, u) = Some (t', u') \<Longrightarrow> only_memory u u'"
  shows "foldM f xs (t, s) = Some (t', s') \<Longrightarrow> only_memory s s'"
proof (induction xs arbitrary: t s)
  case (Cons x xs)
  from Cons.prems obtain t1 s1 where 1: "f x (t, s) = Some (t1, s1)" "foldM f xs (t1, s1) = Some (t', s')"
    by (auto simp: bind_eq_Some_conv)
  show ?case by (rule only_memory_trans [OF f [OF 1(1)] Cons.IH [OF 1(2)]])
qed simp

lemma get_irq_data_memory: "get_irq_data r (t, s) = Some (t', s') \<Longrightarrow> only_memory s s'"
  by (auto simp: get_irq_data_def bind_eq_Some_conv Let_def split: prod.splits if_splits dest: only_memory_next)

lemma get_object_stat_memory: "get_object_stat n d (t, s) = Some (t', s') \<Longrightarrow> only_memory s s'"
proof (induction n arbitrary: d t s t' s')
  case (Suc n)
  from Suc.prems obtain dat s1 where 1: "(if length (t_interrupts (objs s d)) > 0
      then foldM get_irq_data (t_interrupts (objs s d)) (None, s) else Some (None, s)) = Some (dat, s1)"
    by (auto simp: bind_eq_Some_conv split del: if_split)
  have m1: "only_memory s s1"
    using 1 foldM_memory [of get_irq_data, OF get_irq_data_memory] by (auto split: if_splits)
  obtain ok s2 where 2: "mem_next s1 = (ok, s2)" by fastforce
  have m2: "only_memory s s2" by (rule only_memory_trans [OF m1 only_memory_next [OF 2]])
  have m3: "only_memory s2 s''" if "foldM (get_object_stat n) xs (t, s2) = Some (t', s'')" for xs t t' s''
    using that by (rule foldM_memory [rotated]) (rule Suc.IH)
  show ?case
  proof (cases ok)
    case False
    then show ?thesis using Suc.prems 1 2 m2 by (simp split del: if_split)
  next
    case True
    with Suc.prems 1 2 m2 m3 show ?thesis
      by (auto simp: bind_eq_Some_conv split: if_splits intro: only_memory_trans)
  qed
qed simp

section \<open>Texts of numbers\<close>

definition in_int :: "int \<Rightarrow> bool" where
  "in_int i \<longleftrightarrow> - (2 ^ 31) \<le> i \<and> i < 2 ^ 31"

lemma length_dec_digits: "v < 10 ^ Suc n \<Longrightarrow> length (dec_digits v) \<le> Suc n"
proof (induction n arbitrary: v)
  case (Suc n)
  then show ?case by (subst dec_digits.simps) (auto simp: less_mult_imp_div_less mult.commute)
qed (subst dec_digits.simps, simp)

lemma length_dec_of_nat: "v < 10 ^ Suc n \<Longrightarrow> length (dec_of_nat v) \<le> Suc n"
  by (simp add: dec_of_nat_def length_dec_digits del: power_Suc)

lemma length_u64_text: "length (u64_text w) \<le> 20"
proof -
  have "unat w < 2 ^ 64" using unsigned_less [of w, where ?'a = nat] by simp
  also have "(2 :: nat) ^ 64 < 10 ^ 20" by simp
  finally show ?thesis using length_dec_of_nat [of "unat w" 19] by (simp add: u64_text_def del: power_Suc)
qed

lemma length_dec_of_int:
  assumes "in_int i"
  shows "length (dec_of_int i) \<le> 11"
proof -
  have "nat i \<le> 2 ^ 31" "nat (- i) \<le> 2 ^ 31" using assms by (simp_all add: in_int_def nat_le_iff)
  then have "nat i < 10 ^ Suc 9" "nat (- i) < 10 ^ Suc 9" by simp_all
  then show ?thesis using length_dec_of_nat [of "nat i" 9] length_dec_of_nat [of "nat (- i)" 9]
    by (simp add: dec_of_int_def del: power_Suc)
qed

text \<open>The values that are printed with \<open>%d\<close> are values of type \<open>int\<close>.\<close>

definition ints_ok :: "state \<Rightarrow> bool" where
  "ints_ok s \<longleftrightarrow> (\<forall>r. in_int (i_irq (irqs s r)) \<and> in_int (i_class (irqs s r))) \<and> (\<forall>d. in_int (t_number (objs s d)))"

lemma ints_ok_memory: "only_memory s s' \<Longrightarrow> ints_ok s' = ints_ok s"
  by (auto simp: only_memory_def ints_ok_def)

lemma length_irq_text: "in_int (i_irq i) \<Longrightarrow> in_int (i_class i) \<Longrightarrow> length (irq_text i) < 24 + 1 + 11 + 20 + 20 + 11"
  using length_dec_of_int [of "i_irq i"] length_dec_of_int [of "i_class i"] length_u64_text [of "i_load i"]
    length_u64_text [of "i_irq_count i - i_last_irq_count i"]
  by (simp add: irq_text_def)

lemma length_obj_text:
  assumes "in_int (t_number d)"
  shows "length (obj_text d dat) < length dat + 31 + 11 + 20 + 11 + 1"
proof -
  have "length (dec_of_nat (obj_type_value (t_obj_type d))) \<le> 1"
    using length_dec_of_nat [of "obj_type_value (t_obj_type d)" 0] by (cases "t_obj_type d") simp_all
  then show ?thesis using length_dec_of_int [OF assms] length_u64_text [of "t_load d"] by (simp add: obj_text_def)
qed

section \<open>The buffers are large enough\<close>

lemma get_irq_data_defined:
  assumes "ints_ok s"
  shows "\<exists>t'. get_irq_data r (t, s) = Some (t', snd (mem_next s))"
proof -
  obtain ok s' where m: "mem_next s = (ok, s')" by fastforce
  then have "ints_ok s'" using assms ints_ok_memory only_memory_next by blast
  then have "length (irq_text (irqs s' r)) < 24 + 1 + 11 + 20 + 20 + 11" unfolding ints_ok_def by (intro length_irq_text) blast+
  then show ?thesis by (cases ok) (simp_all add: get_irq_data_def m append_text_def)
qed

lemma foldM_defined:
  assumes "\<And>x t s. P s \<Longrightarrow> x \<in> set xs \<Longrightarrow> \<exists>t' s'. f x (t, s) = Some (t', s') \<and> P s'" and "P s"
  shows "\<exists>t' s'. foldM f xs (t, s) = Some (t', s') \<and> P s'"
  using assms
proof (induction xs arbitrary: t s)
  case (Cons x xs)
  from Cons.prems(1) [OF Cons.prems(2), of x t] obtain t1 s1 where 1: "f x (t, s) = Some (t1, s1)" "P s1" by auto
  have "\<exists>t' s'. foldM f xs (t1, s1) = Some (t', s') \<and> P s'" by (rule Cons.IH) (use Cons.prems(1) 1 in auto)
  with 1 show ?case by simp
qed simp

lemma irq_data_defined: "only_memory s0 s \<Longrightarrow> ints_ok s0 \<Longrightarrow>
    \<exists>t' s'. foldM get_irq_data rs (t, s) = Some (t', s') \<and> only_memory s0 s'"
  by (rule foldM_defined)
    (metis get_irq_data_defined ints_ok_memory only_memory_next only_memory_trans prod.collapse)+

lemma get_object_stat_defined:
  assumes "tree_descends s0" "ints_ok s0"
  shows "only_memory s0 s \<Longrightarrow> obj_type_value (t_obj_type (objs s0 d)) < n \<Longrightarrow>
    \<exists>t' s'. get_object_stat n d (t, s) = Some (t', s') \<and> only_memory s0 s'"
proof (induction n arbitrary: d t s)
  case (Suc n)
  have rd: "objs u = objs s0" if "only_memory s0 u" for u using that by (auto simp: only_memory_def)
  obtain dat s1 where 1: "(if length (t_interrupts (objs s d)) > 0 then foldM get_irq_data (t_interrupts (objs s d)) (None, s)
      else Some (None, s)) = Some (dat, s1)" and m1: "only_memory s0 s1"
    using irq_data_defined [OF Suc.prems(1) assms(2), of "t_interrupts (objs s d)" None] Suc.prems(1)
    by (cases "t_interrupts (objs s d) = []") auto
  obtain ok s2 where 2: "mem_next s1 = (ok, s2)" by fastforce
  have m2: "only_memory s0 s2" by (rule only_memory_trans [OF m1 only_memory_next [OF 2]])
  have ob: "objs s = objs s0" "objs s2 = objs s0" using rd Suc.prems(1) m2 by blast+
  show ?case
  proof (cases ok)
    case False
    then show ?thesis using 1 2 m2 by (simp split del: if_split)
  next
    case True
    have "length (obj_text (objs s2 d) (text_of dat)) < length (text_of dat) + 31 + 11 + 20 + 11 + 1"
      by (rule length_obj_text) (use assms(2) in \<open>simp add: ob ints_ok_def\<close>)
    then obtain t1 where t1: "append_text (length (text_of t) + length (text_of dat) + 31 + 11 + 20 + 11 + 1) (text_of t)
        (obj_text (objs s2 d) (text_of dat)) = Some t1" by (simp add: append_text_def)
    have "\<exists>t' s'. foldM (get_object_stat n) (t_children (objs s2 d)) (Some t1, s2) = Some (t', s') \<and> only_memory s0 s'"
    proof (rule foldM_defined)
      fix c u v assume "only_memory s0 v" "c \<in> set (t_children (objs s2 d))"
      then show "\<exists>t' s'. get_object_stat n c (u, v) = Some (t', s') \<and> only_memory s0 s'"
        using assms(1) Suc.prems(2) by (intro Suc.IH) (force simp: ob tree_descends_def less_obj_type_e_def)+
    qed (rule m2)
    then show ?thesis using 1 2 True t1 m2 by (simp split del: if_split) (simp split: if_split)
  qed
qed simp

section \<open>What the statistics say\<close>

text \<open>The objects in the order of the walk, and the text of one of them.\<close>

fun walk :: "nat \<Rightarrow> state \<Rightarrow> obj_ref \<Rightarrow> obj_ref list" where
  "walk 0 s d = []"
| "walk (Suc n) s d = d # (if t_obj_type (objs s d) \<noteq> OBJ_TYPE_CPU then concat (map (walk n s) (t_children (objs s d))) else [])"

definition walk_all :: "state \<Rightarrow> obj_ref list" where
  "walk_all s = concat (map (walk TOPO_DEPTH s) (numa_nodes s))"

definition irqs_text :: "state \<Rightarrow> irq_ref list \<Rightarrow> string" where
  "irqs_text s rs = concat (map (\<lambda>r. irq_text (irqs s r)) rs)"

definition entry_text :: "state \<Rightarrow> obj_ref \<Rightarrow> string" where
  "entry_text s d = obj_text (objs s d) (irqs_text s (t_interrupts (objs s d)))"

definition entries_text :: "state \<Rightarrow> obj_ref list \<Rightarrow> string" where
  "entries_text s ds = concat (map (entry_text s) ds)"

lemma mem_next_enough: "mem_fails s = [] \<Longrightarrow> mem_next s = (True, s)"
  by (simp add: mem_next_def)

lemma irq_data_text:
  assumes "mem_fails s = []" "ints_ok s"
  shows "foldM get_irq_data rs (t, s) = Some (if rs = [] then t else Some (text_of t @ irqs_text s rs), s)"
proof (induction rs arbitrary: t)
  case (Cons r rs)
  have "length (irq_text (irqs s r)) < 24 + 1 + 11 + 20 + 20 + 11"
    using assms(2) unfolding ints_ok_def by (intro length_irq_text) blast+
  then have "get_irq_data r (t, s) = Some (Some (text_of t @ irq_text (irqs s r)), s)"
    by (simp add: get_irq_data_def mem_next_enough [OF assms(1)] append_text_def)
  with Cons.IH show ?case by (simp add: irqs_text_def text_of_def)
qed simp

lemma get_object_stat_text:
  assumes mem: "mem_fails s = []" and ints: "ints_ok s" and td: "tree_descends s"
  shows "obj_type_value (t_obj_type (objs s d)) < n \<Longrightarrow>
    get_object_stat n d (t, s) = Some (Some (text_of t @ entries_text s (walk n s d)), s)"
proof (induction n arbitrary: d t)
  case (Suc n)
  let ?dat = "if t_interrupts (objs s d) = [] then None else Some (irqs_text s (t_interrupts (objs s d)))"
  have dat: "(if length (t_interrupts (objs s d)) > 0 then foldM get_irq_data (t_interrupts (objs s d)) (None, s)
      else Some (None, s)) = Some (?dat, s)" "text_of ?dat = irqs_text s (t_interrupts (objs s d))"
    by (simp_all add: irq_data_text [OF mem ints] text_of_def irqs_text_def)
  have fits: "length (obj_text (objs s d) (text_of ?dat)) < length (text_of ?dat) + 31 + 11 + 20 + 11 + 1"
    by (rule length_obj_text) (use ints in \<open>simp add: ints_ok_def\<close>)
  have kids: "foldM (get_object_stat n) cs (Some t1, s) = Some (Some (t1 @ entries_text s (concat (map (walk n s) cs))), s)"
    if "set cs \<subseteq> set (t_children (objs s d))" for cs t1
    using that
  proof (induction cs arbitrary: t1)
    case (Cons c cs)
    then have "obj_type_value (t_obj_type (objs s c)) < n"
      using td Suc.prems by (force simp: tree_descends_def less_obj_type_e_def)
    from Suc.IH [OF this, of "Some t1"] Cons show ?case by (simp add: entries_text_def text_of_def)
  qed (simp add: entries_text_def)
  show ?case using dat fits kids [OF subset_refl] mem_next_enough [OF mem]
    by (simp add: append_text_def entries_text_def entry_text_def split del: if_split) (simp split: if_split)
qed simp

lemma stats_reply_text:
  assumes "mem_fails (d_state d) = []" "ints_ok (d_state d)" "tree_descends (d_state d)" "numa_nodes (d_state d) \<noteq> []"
  shows "stats_reply d = Some (Some (entries_text (d_state d) (walk_all (d_state d))), d)"
proof -
  let ?s = "d_state d"
  have all: "foldM (get_object_stat TOPO_DEPTH) ns (t, ?s) = Some (if ns = [] then t
      else Some (text_of t @ entries_text ?s (concat (map (walk TOPO_DEPTH ?s) ns))), ?s)" for ns t
  proof (induction ns arbitrary: t)
    case (Cons c ns)
    from get_object_stat_text [OF assms(1-3) type_value_less_depth, of c t] Cons show ?case
      by (simp add: entries_text_def text_of_def)
  qed simp
  show ?thesis using assms(4) unfolding stats_reply_def walk_all_def all by (simp add: text_of_def)
qed

section \<open>Theorems\<close>

text \<open>
  (C18) Only a message with the credentials of root is a command: whatever bytes another user sends, and
  whatever else goes wrong with the connection, the daemon stays as it is and sends nothing.
\<close>

theorem commands_need_root:
  assumes "cmsg c \<noteq> Some (True, 0)"
  shows "sock_handle io c d = Some (None, d)"
proof (cases "cmsg c")
  case (Some p)
  then show ?thesis using assms by (cases p) (auto simp: sock_handle_def)
qed (simp add: sock_handle_def)

text \<open>
  (C27) No statistics overrun their buffers, however large the numbers are and however many allocations
  fail, and the walk over the tree ends: the result is defined and nothing changes but the memory.
\<close>

theorem stats_buffers_suffice:
  assumes "tree_descends s" "ints_ok s"
  shows "\<exists>stats s'. foldM (get_object_stat TOPO_DEPTH) (numa_nodes s) (None, s) = Some (stats, s') \<and> only_memory s s'"
  by (rule foldM_defined [where P = "only_memory s"])
    (simp_all add: get_object_stat_defined [OF assms] type_value_less_depth)

end
