(* ===== verification/Daemon_Safety.thy ===== *)
theory Daemon_Safety
  imports Balance_Inv Commands
begin

text \<open>
  The invariant in the daemon as a whole: the tree is freed and built again, the scan, the commands of
  the user interface, the messages about the temperature and the signals keep it, and the daemon
  starts with it.
\<close>

section \<open>Freeing and building the tree\<close>

lemma free_objs: "fold free_cpu_topo ds s = s\<lparr> objs := \<lambda>d. if d \<in> set ds then zero_obj else objs s d \<rparr>"
  by (induction ds arbitrary: s) (auto simp: free_cpu_topo_def upd_obj_def fun_eq_iff)

text \<open>No interrupt is left and nothing is allocated.\<close>

definition freed :: "state \<Rightarrow> bool" where
  "freed s \<longleftrightarrow> (\<forall>t. master t s = []) \<and> topo_inv {} s \<and> (\<forall>d. t_interrupts (objs s d) = []) \<and>
     interrupts_db s = [] \<and> banned_irqs s = [] \<and> rebalance_irq_list s = [] \<and>
     (\<forall>r \<in> set (cl_banned_irqs s). r < next_irq s) \<and> wf_cpumask (unbanned_cpus s)"

lemma live_lists: "live {} s = set (numa_nodes s) \<union> set (packages s) \<union> set (cache_domains s) \<union> set (cpus s)"
proof -
  have "(\<exists>t. d \<in> set (master t s)) \<longleftrightarrow> d \<in> set (numa_nodes s) \<or> d \<in> set (packages s) \<or> d \<in> set (cache_domains s) \<or> d \<in> set (cpus s)" for d
    by (metis master.simps obj_type_e.exhaust)
  then show ?thesis by (auto simp: live_def)
qed

lemma free_object_tree_eq:
  "free_object_tree s = s\<lparr> objs := \<lambda>d. if d \<in> live {} s then zero_obj else objs s d, numa_nodes := [], packages := [],
     cache_domains := [], cpus := [], cache_domain_count := 0, cpu_online_map := cpus_clear (cpu_online_map s),
     interrupts_db := [], banned_irqs := [], rebalance_irq_list := [] \<rparr>"
  by (auto simp: free_object_tree_def free_irq_db_def clear_cpu_tree_def free_numa_node_list_def free_objs Let_def fun_eq_iff live_lists)

lemma freed_object_tree:
  assumes inv: "balance_inv s"
  shows "freed (free_object_tree s)"
proof -
  let ?s = "free_object_tree s"
  have m: "master t ?s = []" for t by (cases t) (simp_all add: free_object_tree_eq)
  have lv: "live {} ?s = {}" by (simp add: live_def m)
  have bl: "blank (objs ?s d)" for d
    using topo_invD(3) [OF balance_invD(2) [OF inv], of d] by (auto simp: free_object_tree_eq)
  have par: "t_children (objs ?s d) = []" "t_numa_nodes (objs ?s d) = []" "t_parent (objs ?s d) = None" for d
    using bl by (simp_all add: blank_def)
  have "topo_inv {} ?s" unfolding topo_inv_def lv by (simp add: m bl par)
  moreover have "t_interrupts (objs ?s d) = []" for d
  proof (cases "d \<in> live {} s")
    case True
    then show ?thesis by (simp add: free_object_tree_eq zero_obj_def)
  next
    case False
    have "r \<notin> set (t_interrupts (objs s d))" for r
      using interrupts_assigned [OF balance_invD(5) [OF inv], of r d] balance_invD(4) [OF inv] False
      by (auto simp: assigned_to_def assigned_live_def)
    then show ?thesis using False by (cases "t_interrupts (objs s d)") (auto simp: free_object_tree_eq)
  qed
  moreover have "\<forall>r \<in> set (cl_banned_irqs s). r < next_irq s" using db_invD(4) [OF balance_invD(1) [OF inv]] by blast
  moreover have "wf_cpumask (unbanned_cpus s)" using inv by (simp add: balance_inv_def)
  moreover have "cl_banned_irqs ?s = cl_banned_irqs s" "next_irq ?s = next_irq s" "unbanned_cpus ?s = unbanned_cpus s"
    "interrupts_db ?s = []" "banned_irqs ?s = []" "rebalance_irq_list ?s = []"
    by (simp_all add: free_object_tree_eq)
  ultimately show ?thesis using m by (simp add: freed_def)
qed

lemma balance_inv_freed:
  assumes "freed s" "need_rebuild s"
  shows "balance_inv s"
proof -
  have "get_list l s = []" for l using assms(1) by (cases l) (simp_all add: freed_def)
  then have "irqs_ok s" using assms(1) by (simp add: irqs_ok_def freed_def)
  with assms show ?thesis
    by (simp add: balance_inv_def db_inv_def freed_def nodes_ok_def assigned_live_def cl_bans_kept_def avoids_banned_def)
qed

text \<open>What the construction of the tree leaves alone.\<close>

definition builds :: "state \<Rightarrow> state \<Rightarrow> bool" where
  "builds s s' \<longleftrightarrow> irqs s' = irqs s \<and> interrupts_db s' = interrupts_db s \<and> banned_irqs s' = banned_irqs s \<and>
     rebalance_irq_list s' = rebalance_irq_list s \<and> cl_banned_irqs s' = cl_banned_irqs s \<and> next_irq s' = next_irq s \<and>
     (need_rebuild s \<longrightarrow> need_rebuild s') \<and> (wf_cpumask (unbanned_cpus s) \<longrightarrow> wf_cpumask (unbanned_cpus s')) \<and>
     next_obj s \<le> next_obj s' \<and> set (numa_nodes s) \<subseteq> set (numa_nodes s') \<and>
     (\<forall>d < next_obj s. t_number (objs s' d) = t_number (objs s d)) \<and>
     (\<forall>d. t_interrupts (objs s' d) = [] \<or> t_interrupts (objs s' d) = t_interrupts (objs s d))"

lemma builds_refl [simp]: "builds s s"
  by (simp add: builds_def)

lemma builds_trans [trans]:
  assumes "builds s s1" "builds s1 s2"
  shows "builds s s2"
proof -
  have "t_number (objs s2 d) = t_number (objs s d)" if "d < next_obj s" for d
    using assms that unfolding builds_def by (metis order.strict_trans2)
  moreover have "t_interrupts (objs s2 d) = [] \<or> t_interrupts (objs s2 d) = t_interrupts (objs s d)" for d
    using assms unfolding builds_def by metis
  ultimately show ?thesis using assms by (auto simp: builds_def)
qed

lemma builds_fold: "(\<And>x t. x \<in> set xs \<Longrightarrow> builds t (f x t)) \<Longrightarrow> builds s (fold f xs s)"
  by (rule fold_invariant_on [where I = "builds s"]) (auto intro: builds_trans)

lemma builds_upd_obj:
  assumes "\<And>x. t_number (f x) = t_number x" "\<And>x. t_interrupts (f x) = t_interrupts x"
  shows "builds s (upd_obj d f s)"
  using assms by (simp add: builds_def)

lemma builds_calloc:
  assumes "calloc_obj s = (Some d, s1)" and "\<And>x. t_interrupts (f x) = t_interrupts x"
  shows "builds s (upd_obj d f s1)"
proof -
  obtain fs where "d = next_obj s" "s1 = s\<lparr> mem_fails := fs, objs := (objs s)(d := zero_obj), next_obj := d + 1 \<rparr>"
    using assms(1) by (rule calloc_obj_Some)
  with assms(2) show ?thesis by (auto simp: builds_def zero_obj_def)
qed

lemma builds_nomem: "calloc_obj s = (None, s1) \<Longrightarrow> builds s (s1\<lparr> need_rebuild := True \<rparr>)"
  by (erule calloc_obj_None) (simp add: builds_def)

lemma builds_lists:
  "builds s (t\<lparr> cpus := xs \<rparr>) = builds s t" "builds s (t\<lparr> packages := xs \<rparr>) = builds s t"
  "builds s (t\<lparr> cache_domains := xs, cache_domain_count := n \<rparr>) = builds s t"
  by (simp_all add: builds_def)


lemma builds_add_one_node: "builds s (add_one_node sys n s) \<and> (need_rebuild (add_one_node sys n s) \<or>
    (\<exists>d \<in> set (numa_nodes (add_one_node sys n s)). d < next_obj (add_one_node sys n s) \<and> t_number (objs (add_one_node sys n s) d) = n))"
proof (cases "calloc_obj s")
  case (Pair r s1)
  show ?thesis
  proof (cases r)
    case None
    with Pair builds_nomem [of s s1] show ?thesis by (simp add: add_one_node_def)
  next
    case (Some d)
    with Pair have al: "calloc_obj s = (Some d, s1)" by simp
    then obtain fs where s1: "d = next_obj s" "s1 = s\<lparr> mem_fails := fs, objs := (objs s)(d := zero_obj), next_obj := d + 1 \<rparr>"
      by (rule calloc_obj_Some)
    show ?thesis using s1 by (simp add: add_one_node_def al Let_def builds_def) (auto simp: zero_obj_def)
  qed
qed

lemma builds_numa:
  "builds s (build_numa_node_list sys s) \<and> (need_rebuild (build_numa_node_list sys s) \<or> no_node_known (build_numa_node_list sys s))"
proof -
  let ?s1 = "add_one_node sys NUMA_NO_NODE s"
  note 1 = builds_add_one_node [of s sys NUMA_NO_NODE]
  have later: "need_rebuild t \<or> no_node_known t" if b: "builds ?s1 t" for t
  proof (cases "need_rebuild ?s1")
    case True
    with b show ?thesis by (simp add: builds_def)
  next
    case False
    with 1 obtain d where "d \<in> set (numa_nodes ?s1)" "d < next_obj ?s1" "t_number (objs ?s1 d) = NUMA_NO_NODE" by blast
    with b have "d \<in> set (numa_nodes t)" "t_number (objs t d) = NUMA_NO_NODE" by (auto simp: builds_def)
    then show ?thesis unfolding no_node_known_def by blast
  qed
  have "builds ?s1 (fold (\<lambda>e s. if is_node_dir e then add_one_node sys (int_strtoul 10 (drop 4 (d_name e))) s else s) es ?s1)" for es
    by (rule builds_fold) (simp add: builds_add_one_node)
  then show ?thesis using 1 later builds_trans [of s ?s1]
    unfolding build_numa_node_list_def Let_def by (auto split: option.split)
qed

lemma builds_upd [simp]:
  assumes "\<And>x. t_number (f x) = t_number x" "\<And>x. t_interrupts (f x) = t_interrupts x"
  shows "builds s (upd_obj d f t) = builds s t"
proof -
  have "t_number (objs (upd_obj d f t) x) = t_number (objs t x)" "t_interrupts (objs (upd_obj d f t) x) = t_interrupts (objs t x)" for x
    using assms by simp_all
  then show ?thesis unfolding builds_def by simp
qed

lemma builds_add_numa_node: "builds s (add_numa_node_to_topo_obj d n s)"
  by (simp add: add_numa_node_to_topo_obj_def Let_def split: option.split)

lemma builds_adopt: "builds s (adopt p c n s)"
proof -
  have "builds s (link_child p c s)" by (simp add: link_child_def)
  then show ?thesis unfolding adopt_def Let_def by (auto intro: builds_trans [OF _ builds_add_numa_node])
qed

lemma builds_add_cache: "builds s (snd (add_cache_domain_to_package c i m n s))"
proof (cases "find (\<lambda>p. cpus_equal m (t_mask (objs s p))) (packages s)")
  case None
  obtain r s1 where al: "calloc_obj s = (r, s1)" by fastforce
  show ?thesis
  proof (cases r)
    case (Some p)
    let ?f = "\<lambda>x. x\<lparr> t_mask := m, t_obj_type := OBJ_TYPE_PACKAGE, t_obj_type_list := Some Packages, t_number := i \<rparr>"
    have "builds s (upd_obj p ?f s1)" by (rule builds_calloc) (use al Some in simp_all)
    then have "builds s ((upd_obj p ?f s1)\<lparr> packages := packages (upd_obj p ?f s1) @ [p] \<rparr>)" by (simp add: builds_lists)
    from builds_trans [OF this builds_adopt] None al Some show ?thesis by (simp add: add_cache_domain_to_package_def Let_def)
  qed (use None al builds_nomem in \<open>simp add: add_cache_domain_to_package_def\<close>)
qed (simp add: add_cache_domain_to_package_def builds_adopt)

lemma builds_add_cpu: "builds s (snd (add_cpu_to_cache_domain c m n s))"
proof (cases "find (\<lambda>c. cpus_equal m (t_mask (objs s c))) (cache_domains s)")
  case None
  obtain r s1 where al: "calloc_obj s = (r, s1)" by fastforce
  show ?thesis
  proof (cases r)
    case (Some p)
    let ?f = "\<lambda>x. x\<lparr> t_obj_type := OBJ_TYPE_CACHE, t_mask := m, t_number := cache_domain_count s1, t_obj_type_list := Some CacheDomains \<rparr>"
    have "builds s (upd_obj p ?f s1)" by (rule builds_calloc) (use al Some in simp_all)
    then have "builds s ((upd_obj p ?f s1)\<lparr> cache_domains := cache_domains s1 @ [p], cache_domain_count := cache_domain_count s1 + 1 \<rparr>)"
      by (simp add: builds_lists)
    from builds_trans [OF this builds_adopt] None al Some show ?thesis by (simp add: add_cpu_to_cache_domain_def Let_def)
  qed (use None al builds_nomem in \<open>simp add: add_cpu_to_cache_domain_def\<close>)
qed (simp add: add_cpu_to_cache_domain_def builds_adopt)

lemma builds_attach: "builds s (attach_cpu sys path cpu m s)"
proof -
  define am where "am = add_cpu_to_cache_domain cpu"
  have 1: "builds s (snd (add_cpu_to_cache_domain cpu m' n s))" for m' n by (rule builds_add_cpu)
  have 2: "builds s (case fst (add_cpu_to_cache_domain cpu m' n s) of None \<Rightarrow> snd (add_cpu_to_cache_domain cpu m' n s)
      | Some c \<Rightarrow> snd (add_cache_domain_to_package c i p n (snd (add_cpu_to_cache_domain cpu m' n s))))" for m' n i p
    using 1 builds_trans [OF 1 builds_add_cache] by (auto split: option.split)
  show ?thesis unfolding attach_cpu_def Let_def case_prod_beta builds_lists
    by (rule builds_trans [OF 2 builds_upd_obj]) simp_all
qed

lemma builds_do_one_cpu:
  assumes "do_one_cpu sys path s = Some s'"
  shows "builds s s'"
proof (cases rule: do_one_cpu_cases [OF assms])
  case (2 s1)
  then show ?thesis by (simp add: builds_nomem)
next
  case (3 cpu s1 om cm s2)
  obtain fs where s1: "cpu = next_obj s" "s1 = s\<lparr> mem_fails := fs, objs := (objs s)(cpu := zero_obj), next_obj := cpu + 1 \<rparr>"
    using 3(1) by (rule calloc_obj_Some)
  have "builds s s2" using s1 3(3) by (simp add: builds_def) (auto simp: zero_obj_def)
  moreover have "builds s (free_cpu_topo cpu s2)" using s1 3(3) by (simp add: builds_def free_cpu_topo_def) (auto simp: zero_obj_def)
  ultimately show ?thesis using 3(4) builds_trans [OF _ builds_attach] by simp
qed simp

lemma builds_connect: "builds s (connect_cpu_mem_topo n p s)"
proof (induction n arbitrary: p s)
  case (Suc n)
  have "builds s (fold (connect_cpu_mem_topo n) xs s)" for xs by (rule builds_fold) (rule Suc)
  moreover have "builds s (upd_obj q (t_children_update f) (if b then upd_obj p (t_parent_update g) s else s))"
    "builds s (if b then upd_obj p (t_parent_update g) s else s)" for b q f g
    by simp_all
  ultimately show ?case by (simp add: Let_def for_each_object_def)
qed simp

lemma builds_parse_cpu_tree:
  assumes "parse_cpu_tree sys s = Some s'"
  shows "builds s s'"
proof -
  let ?s0 = "setup_banned_cpus sys s"
  let ?s1 = "?s0\<lparr> unbanned_cpus := cpus_complement (unbanned_cpus ?s0) (banned_cpus ?s0) \<rparr>"
  let ?step = "\<lambda>e os. os \<bind> (\<lambda>s. if is_cpu_dir e then do_one_cpu sys (''/sys/devices/system/cpu/'' @ d_name e) s else Some s)"
  have 1: "builds s ?s1" by (simp add: builds_def setup_banned_cpus_def Let_def mask.compl_op(2))
  have all: "builds ?s1 t" if "fold ?step es (Some ?s1) = Some t" for es t
  proof -
    have "\<forall>t. fold ?step es (Some ?s1) = Some t \<longrightarrow> builds ?s1 t"
      by (rule fold_invariant_on [where I = "\<lambda>os. \<forall>t. os = Some t \<longrightarrow> builds ?s1 t"])
        (auto simp: bind_eq_Some_conv intro: builds_trans [OF _ builds_do_one_cpu] split: if_splits)
    with that show ?thesis by blast
  qed
  show ?thesis
  proof (cases "dir_entries sys ''/sys/devices/system/cpu''")
    case None
    with assms 1 show ?thesis by (simp add: parse_cpu_tree_def Let_def)
  next
    case (Some es)
    note run = assms [unfolded parse_cpu_tree_def Let_def Some option.case for_each_object_def]
    then obtain t where "fold ?step es (Some ?s1) = Some t" "s' = fold (connect_cpu_mem_topo TOPO_DEPTH) (packages t) t"
      by (cases "fold ?step es (Some ?s1)") simp_all
    with builds_trans [OF builds_trans [OF 1 all] builds_fold [OF builds_connect]] show ?thesis by simp
  qed
qed

lemma build_numa_lists:
  "packages (build_numa_node_list sys s) = packages s" "cache_domains (build_numa_node_list sys s) = cache_domains s"
  "cpus (build_numa_node_list sys s) = cpus s" "unbanned_cpus (build_numa_node_list sys s) = unbanned_cpus s"
proof -
  let ?I = "\<lambda>t. packages t = packages s \<and> cache_domains t = cache_domains s \<and> cpus t = cpus s \<and> unbanned_cpus t = unbanned_cpus s"
  have one: "?I (add_one_node sys n t)" if "?I t" for n t
  proof (cases "calloc_obj t")
    case (Pair r t1)
    then have "?I t1" using that by (auto simp: calloc_obj_def mem_next_def Let_def split: if_splits)
    with Pair show ?thesis by (cases r) (simp_all add: add_one_node_def Let_def)
  qed
  have 1: "?I (add_one_node sys NUMA_NO_NODE s)" by (rule one) simp
  have "?I (fold (\<lambda>e s. if is_node_dir e then add_one_node sys (int_strtoul 10 (drop 4 (d_name e))) s else s) es
      (add_one_node sys NUMA_NO_NODE s))" for es
    by (rule fold_invariant_on [where I = ?I]) (use 1 one in simp_all)
  with 1 have "?I (build_numa_node_list sys s)" by (simp add: build_numa_node_list_def Let_def split: option.split)
  then show "packages (build_numa_node_list sys s) = packages s" "cache_domains (build_numa_node_list sys s) = cache_domains s"
    "cpus (build_numa_node_list sys s) = cpus s" "unbanned_cpus (build_numa_node_list sys s) = unbanned_cpus s" by auto
qed

definition fresh_db :: "state \<Rightarrow> bool" where
  "fresh_db s \<longleftrightarrow> balance_inv s \<and> cl_bans_kept s \<and> rebalance_irq_list s = [] \<and>
     (\<forall>r \<in> set (interrupts_db s). i_assigned_obj (irqs s r) = None)"

lemma no_node_kept:
  assumes "topo_inv {} s" "need_rebuild s \<or> no_node_known s" "builds s s'"
  shows "need_rebuild s' \<or> no_node_known s'"
proof (cases "need_rebuild s")
  case False
  with assms(2) obtain d where d: "d \<in> set (numa_nodes s)" "t_number (objs s d) = NUMA_NO_NODE" by (auto simp: no_node_known_def)
  with topo_invD(4) [OF assms(1)] have "d < next_obj s" by (simp add: node_live)
  with d assms(3) have "d \<in> set (numa_nodes s')" "t_number (objs s' d) = NUMA_NO_NODE" by (auto simp: builds_def)
  then show ?thesis unfolding no_node_known_def by blast
qed (use assms(3) in \<open>simp add: builds_def\<close>)

lemma build_object_tree_fresh:
  assumes fr: "freed s" and run: "build_object_tree sys s = Some s'"
  shows "fresh_db s'"
proof -
  let ?s1 = "build_numa_node_list sys s"
  obtain s2 where s2: "parse_cpu_tree sys ?s1 = Some s2" and s': "s' = rebuild_irq_db sys s2"
    using run by (auto simp: build_object_tree_def bind_eq_Some_conv)
  have "master OBJ_TYPE_PACKAGE s = []" "master OBJ_TYPE_CACHE s = []" "master OBJ_TYPE_CPU s = []"
    using fr by (simp_all add: freed_def)
  then have tree: "tree_inv s2" and t1: "topo_inv {} ?s1"
    using parse_cpu_tree_inv [OF topo_inv_build_numa _ _ _ _ s2] topo_inv_build_numa fr by (simp_all add: build_numa_lists freed_def)
  have b1: "builds s ?s1" and nn1: "need_rebuild ?s1 \<or> no_node_known ?s1" using builds_numa by blast+
  have b2: "builds ?s1 s2" by (rule builds_parse_cpu_tree [OF s2])
  have nn2: "need_rebuild s2 \<or> no_node_known s2" by (rule no_node_kept [OF t1 nn1 b2])
  have b: "builds s s2" by (rule builds_trans [OF b1 b2])
  have ti: "\<forall>d. t_interrupts (objs s2 d) = []" using b fr unfolding builds_def freed_def by metis
  have cl: "\<forall>r \<in> set (cl_banned_irqs s2). r < next_irq s2" using b fr by (simp add: builds_def freed_def)
  have wf: "wf_cpumask (unbanned_cpus s2)" using b fr by (simp add: builds_def freed_def)
  note st = rebuild_step [OF ti cl, of sys, folded s'] and sound = rebuild_sound [OF ti cl, of sys, folded s']
  note sel = db_grows_sel [OF conjunct1 [OF st]]
  obtain i d b' n f where eq: "s' = (free_irq_db s2)\<lparr> irqs := i, interrupts_db := d, banned_irqs := b', next_irq := n, mem_fails := f \<rparr>"
    using st unfolding db_grows_def by blast
  have old: "irqs s' r = irqs s2 r" if "r < next_irq s2" for r
    using st that by (simp add: db_grows_def) (simp add: free_irq_db_def)
  have m: "master t s' = master t s2" for t by (cases t) (simp_all add: eq free_irq_db_def)
  have "avoids_banned s' = avoids_banned s2" by (rule avoids_same) (simp_all only: m, simp_all add: eq free_irq_db_def)
  moreover have "topo_inv {} s' = topo_inv {} s2" by (rule topo_inv_cong) (simp_all add: eq free_irq_db_def)
  moreover have nn: "no_node_known s' = no_node_known s2" by (simp add: no_node_known_def eq free_irq_db_def)
  moreover have "node_ok s' x = node_ok s2 x" for x by (simp add: node_ok_def nn split: option.split) (simp add: eq free_irq_db_def)
  then have "nodes_ok s'" using sound by (simp add: nodes_ok_def)
  moreover have "cl_bans_kept s'" using sound cl old by (simp add: cl_bans_kept_def sel) (simp add: free_irq_db_def)
  moreover have "need_rebuild s' = need_rebuild s2" "unbanned_cpus s' = unbanned_cpus s2" "rebalance_irq_list s' = []"
    by (simp_all add: eq free_irq_db_def)
  ultimately show ?thesis using sound tree nn2 wf by (simp add: fresh_db_def balance_inv_def tree_inv_def assigned_live_def)
qed

section \<open>The scan\<close>

lemma queue_all:
  assumes "fresh_db s"
  shows "balance_inv (for_each_irq (interrupts_db s) [] force_rebalance_irq s)"
proof -
  let ?I = "\<lambda>t. balance_inv t"
  let ?P = "\<lambda>r t. r \<in> set (interrupts_db t) \<and> i_assigned_obj (irqs t r) = None \<and> r \<notin> set (rebalance_irq_list t)"
  have "?I (fold force_rebalance_irq (interrupts_db s) s)"
  proof (rule fold_each [where I = ?I and P = ?P])
    show "distinct (interrupts_db s)" using assms by (auto simp: fresh_db_def irqs_ok_def dest: balance_invD(5))
    show "?I s" "\<forall>r \<in> set (interrupts_db s). ?P r s" using assms by (simp_all add: fresh_db_def)
    fix r t assume I: "balance_inv t" and P: "?P r t"
    have "balance_inv (force_rebalance_irq r t)"
      using db_inv_queue [OF balance_invD(1) [OF I], of r] P balance_inv_step [OF I] by blast
    with P show "balance_inv (force_rebalance_irq r t) \<and> (\<forall>q. q \<noteq> r \<longrightarrow> ?P q t \<longrightarrow> ?P q (force_rebalance_irq r t))"
      by (simp add: force_rebalance_irq_def)
  qed
  then show ?thesis by (simp add: for_each_irq_def)
qed

text \<open>A rebuild ends after three attempts at most, with a complete tree or with nothing.\<close>

lemma rebuild_loop_cases:
  assumes "freed (free_object_tree s)" "rebuild_loop sysv n s = Some (ok, s')"
  shows "if ok then fresh_db s' \<and> \<not> need_rebuild s' else freed s'"
  using assms
proof (induction n arbitrary: s)
  case 0
  then show ?case by (auto simp: free_object_tree_eq)
next
  case (Suc n)
  let ?s = "(free_object_tree s)\<lparr> need_rebuild := False \<rparr>"
  have m: "master t ?s = master t (free_object_tree s)" "live {} ?s = live {} (free_object_tree s)" for t
    by (cases t; simp) (rule master_cong(2); simp)
  have "topo_inv {} ?s = topo_inv {} (free_object_tree s)" by (rule topo_inv_cong) simp_all
  then have "freed ?s" using Suc.prems(1) by (simp add: freed_def m)
  from Suc.prems(2) obtain s1 where s1: "build_object_tree (sysv n) ?s = Some s1"
    and next': "(if need_rebuild s1 then rebuild_loop sysv n s1 else Some (True, s1)) = Some (ok, s')"
    by (auto simp: bind_eq_Some_conv)
  have fresh: "fresh_db s1" by (rule build_object_tree_fresh [OF \<open>freed ?s\<close> s1])
  show ?case
  proof (cases "need_rebuild s1")
    case True
    then have "rebuild_loop sysv n s1 = Some (ok, s')" using next' by simp
    moreover have "freed (free_object_tree s1)" by (rule freed_object_tree) (use fresh in \<open>simp add: fresh_db_def\<close>)
    ultimately show ?thesis using Suc.IH [of s1] True by simp
  next
    case False
    then show ?thesis using next' fresh by auto
  qed
qed

lemma rebuild_loop_failed: "rebuild_loop sysv (Suc n) s = Some (False, s') \<Longrightarrow> need_rebuild s'"
proof (induction n arbitrary: s)
  case 0
  then show ?case by (auto simp: bind_eq_Some_conv free_object_tree_eq split: if_splits)
next
  case (Suc n)
  from Suc.prems obtain s1 where "(if need_rebuild s1 then rebuild_loop sysv (Suc n) s1 else Some (True, s1)) = Some (False, s')"
    unfolding rebuild_loop.simps(2) [of sysv "Suc n"] bind_eq_Some_conv by blast
  then show ?case using Suc.IH by (simp split: if_splits del: rebuild_loop.simps)
qed

lemma finish_scan_inv: "balance_inv (d_state d) \<Longrightarrow> balance_inv (d_state (snd (finish_scan d)))"
proof -
  assume inv: "balance_inv (d_state d)"
  have "balance_inv (cycle_count_update f (d_state d))" for f by (rule balance_inv_same [OF inv]) simp_all
  then show ?thesis by (simp add: finish_scan_def Let_def upd_state_def)
qed

text \<open>The request to rescan is cleared before the rebuild, when the interrupts banned since are still in the database.\<close>

lemma moves_only_rescan: "moves_only s s' \<Longrightarrow> moves_only (s\<lparr> need_rescan := b \<rparr>) (s'\<lparr> need_rescan := b \<rparr>)"
proof -
  have "get_list l (t\<lparr> need_rescan := b \<rparr>) = get_list l t" for l t by (cases l) simp_all
  then have "irqs_ok (t\<lparr> need_rescan := b \<rparr>) = irqs_ok t" for t by (simp add: irqs_ok_def)
  moreover have "live {} (t\<lparr> need_rescan := b \<rparr>) = live {} t" for t by (rule master_cong(2)) simp_all
  moreover assume "moves_only s s'"
  ultimately show ?thesis by (simp add: moves_only_def same_frame_def)
qed

lemma irqs_ok_rescan: "irqs_ok (s\<lparr> need_rescan := b, cycle_count := c \<rparr>) = irqs_ok s"
proof -
  have "get_list l (s\<lparr> need_rescan := b, cycle_count := c \<rparr>) = get_list l s" for l by (cases l) simp_all
  then show ?thesis by (simp add: irqs_ok_def)
qed

lemma freed_rescan:
  assumes "balance_inv (s\<lparr> need_rescan := True \<rparr>)"
  shows "freed (free_object_tree s)"
proof -
  let ?s = "free_object_tree s" let ?t = "free_object_tree (s\<lparr> need_rescan := True \<rparr>)"
  have "live {} (s\<lparr> need_rescan := True \<rparr>) = live {} s" by (rule master_cong(2)) simp_all
  then have eq: "?t = ?s\<lparr> need_rescan := True \<rparr>" by (simp add: free_object_tree_eq cong: if_cong)
  have "master t ?s = master t ?t" for t unfolding eq by (cases t) simp_all
  moreover have "topo_inv {} ?s = topo_inv {} ?t" unfolding eq by (rule topo_inv_cong) simp_all
  ultimately show ?thesis using freed_object_tree [OF assms] unfolding freed_def by (simp add: eq)
qed

lemma rebuild_loop_inv:
  assumes inv: "balance_inv (s\<lparr> need_rescan := True \<rparr>)" and run: "rebuild_loop sysv (Suc n) s = Some (ok, s')"
  shows "if ok then balance_inv (for_each_irq (interrupts_db s') [] force_rebalance_irq s') else balance_inv s'"
proof (cases ok)
  case True
  with rebuild_loop_cases [OF freed_rescan [OF inv] run] queue_all show ?thesis by simp
next
  case False
  with run have "need_rebuild s'" using rebuild_loop_failed [of sysv n s s'] by simp
  with False rebuild_loop_cases [OF freed_rescan [OF inv] run] balance_inv_freed show ?thesis by simp
qed

lemma scan_inv:
  assumes inv: "balance_inv (d_state d)" and go: "keep_going d \<or> \<not> need_rebuild (d_state d)" and g: "sorts g" and run: "scan g ops sysv d k = Some (ret, d', k')"
  shows "balance_inv (d_state d')"
proof -
  let ?s0 = "parse_proc_interrupts (sysv 3) (clear_work_stats (d_state d))"
  note moved = moves_only_inv and ok = balance_invD(5)
  have m0: "moves_only (d_state d) (clear_work_stats (d_state d))" by (rule moves_only_clear_work_stats [OF ok [OF inv]])
  have inv0: "balance_inv ?s0" and rb0: "need_rebuild ?s0 = need_rebuild (d_state d)"
    using balance_inv_parse_proc_interrupts [OF moved [OF inv m0], of "sysv 3"] m0 by (simp_all add: moves_only_def same_frame_def)
  have stat: "balance_inv t'" if "parse_proc_stat sys t = Some t'" "balance_inv t" for sys t t'
    using moved [OF that(2) moves_only_parse_proc_stat [OF that(1) ok [OF that(2)]]] .
  show ?thesis
  proof (cases "keep_going d \<and> (need_rescan ?s0 \<or> need_rebuild ?s0)")
    case True
    let ?s1 = "clear_work_stats (?s0\<lparr> need_rescan := False, cycle_count := 0 \<rparr>)"
    let ?t = "?s0\<lparr> cycle_count := 0, need_rescan := True \<rparr>"
    have t: "balance_inv ?t" by (intro balance_inv_flags inv0)
    have "moves_only ?t (?s1\<lparr> need_rescan := True \<rparr>)"
      using moves_only_rescan [OF moves_only_clear_work_stats, of "?s0\<lparr> need_rescan := False, cycle_count := 0 \<rparr>" True]
        ok [OF inv0] by (simp add: irqs_ok_rescan)
    then have s1: "balance_inv (?s1\<lparr> need_rescan := True \<rparr>)" by (rule moved [OF t])
    obtain built s2 where loop: "rebuild_loop sysv 3 ?s1 = Some (built, s2)"
      and rest: "(if \<not> built then let (ret, d) = finish_scan (d\<lparr> d_state := s2 \<rparr>) in Some (ret, d, k)
        else do {
          s \<leftarrow> parse_proc_stat (sysv 6) (parse_proc_interrupts (sysv 5)
             (clear_slots (for_each_irq (interrupts_db s2) [] force_rebalance_irq s2)));
          Some (True, d\<lparr> d_state := s \<rparr>, k) }) = Some (ret, d', k')"
      using run True unfolding scan_def Let_def by (auto simp: bind_eq_Some_conv)
    note after = rebuild_loop_inv [OF s1, of sysv 2 built s2]
    show ?thesis
    proof (cases built)
      case True
      let ?s3 = "for_each_irq (interrupts_db s2) [] force_rebalance_irq s2"
      from after True loop have s3: "balance_inv ?s3" by (simp add: numeral_3_eq_3)
      have "balance_inv (parse_proc_interrupts (sysv 5) (clear_slots ?s3))"
        by (intro balance_inv_parse_proc_interrupts moved [OF s3] moves_only_clear_slots ok s3)
      then show ?thesis using rest True stat by (auto simp: bind_eq_Some_conv)
    next
      case False
      with after loop have "balance_inv s2" by (simp add: numeral_3_eq_3)
      moreover have "d' = snd (finish_scan (d\<lparr> d_state := s2 \<rparr>))" using rest False by (simp add: case_prod_beta Let_def)
      ultimately show ?thesis using finish_scan_inv [of "d\<lparr> d_state := s2 \<rparr>"] by simp
    qed
  next
    case False
    obtain s1 where st: "parse_proc_stat (sysv 4) ?s0 = Some s1" using run False by (auto simp: scan_def Let_def bind_eq_Some_conv)
    define s2 where "s2 = (if cycle_count s1 \<noteq> 0 then update_migration_status g s1 else s1)"
    define s3 where "s3 = calculate_placement g s2"
    have s1: "balance_inv s1" by (rule stat [OF st inv0])
    have m2: "moves_only s1 s2"
      using selects_update_migration_status [OF ok [OF s1] g] moves_only_selects moves_only_refl [OF ok [OF s1]] by (simp add: s2_def)
    then have s2: "balance_inv s2" by (rule moved [OF s1])
    have "moves_only ?s0 s2" using moves_only_trans [OF moves_only_parse_proc_stat [OF st ok [OF inv0]] m2] .
    moreover have "\<not> need_rebuild ?s0" using go False rb0 by blast
    ultimately have "\<not> need_rebuild s2" by (simp add: moves_only_def same_frame_def)
    then have s3: "balance_inv s3" using moved [OF s2 moves_only_placement [OF s2 _ g]] by (simp add: s3_def)
    obtain s4 k4 where act: "activate_mappings ops (s3, k) = (s4, k4)" by fastforce
    then have s4: "balance_inv s4" using moved [OF s3 moves_only_activate [OF s3, of ops k]] by simp
    have "d' = snd (finish_scan (d\<lparr> d_state := s4 \<rparr>))"
      using run False st act by (simp add: scan_def Let_def s2_def [symmetric] s3_def [symmetric] case_prod_beta)
    then show ?thesis using finish_scan_inv [of "d\<lparr> d_state := s4 \<rparr>"] s4 by simp
  qed
qed

section \<open>Commands and events\<close>

lemma balance_inv_add_cl:
  assumes inv: "balance_inv s" and rescan: "need_rescan s"
  shows "balance_inv (add_cl_banned_irq irq s) \<and> need_rescan (add_cl_banned_irq irq s)"
proof (cases "find (same_irq s irq) (cl_banned_irqs s) \<noteq> None")
  case False
  obtain ro s1 where al: "calloc_irq s = (ro, s1)" by fastforce
  show ?thesis
  proof (cases ro)
    case None
    then obtain fs where "s1 = s\<lparr> mem_fails := fs \<rparr>" using al calloc_irq_None by blast
    with False None al inv rescan show ?thesis
      by (simp add: add_cl_banned_irq_def add_banned_irq_def balance_inv_flags)
  next
    case (Some r)
    with al have al': "calloc_irq s = (Some r, s1)" by simp
    then obtain fs where s1: "r = next_irq s" "s1 = s\<lparr> mem_fails := fs, irqs := (irqs s)(r := zero_irq), next_irq := r + 1 \<rparr>"
      by (rule calloc_irq_Some)
    let ?x = "zero_irq\<lparr> i_irq := irq, i_flags := i_flags zero_irq OR IRQ_FLAG_BANNED \<rparr>"
    let ?s = "s\<lparr> mem_fails := fs, irqs := (irqs s)(r := ?x), next_irq := r + 1, cl_banned_irqs := cl_banned_irqs s @ [r] \<rparr>"
    have eq: "add_cl_banned_irq irq s = ?s"
      using False al Some s1 by (simp add: add_cl_banned_irq_def add_banned_irq_def Let_def upd_irq_def)
    note db = balance_invD(1) [OF inv]
    have old: "irqs ?s q = irqs s q" if "q \<in> set (interrupts_db s) \<union> set (banned_irqs s)" for q
      using that db s1(1) by (auto simp: db_inv_def)
    have "irqs_ok ?s"
      by (rule irqs_ok_fresh [OF db_invD(1) [OF db], of r _ ?x]) (use db s1(1) in \<open>auto simp: db_inv_def\<close>)
    moreover have "inj_on (\<lambda>q. i_irq (irqs ?s q)) (set (interrupts_db s) \<union> set (banned_irqs s))"
    proof (rule inj_on_cong [THEN iffD2])
      show "inj_on (\<lambda>q. i_irq (irqs s q)) (set (interrupts_db s) \<union> set (banned_irqs s))" using db by (simp add: db_inv_def)
    qed (use old in simp)
    moreover have "\<forall>q \<in> set (interrupts_db s) \<union> set (banned_irqs s) \<union> set (cl_banned_irqs s). q < next_irq s"
      using db unfolding db_inv_def by blast
    then have "\<forall>q \<in> set (interrupts_db ?s) \<union> set (banned_irqs ?s) \<union> set (cl_banned_irqs ?s). q < next_irq ?s" using s1(1) by (auto simp: less_Suc_eq)
    moreover have "\<forall>q \<in> set (banned_irqs s). i_level (irqs ?s q) = BALANCE_NONE" using db old unfolding db_inv_def by simp
    ultimately have "db_inv ?s" using db unfolding db_inv_def by simp
    moreover have "topo_inv {} ?s = topo_inv {} s" by (rule topo_inv_cong) simp_all
    moreover have m: "master t ?s = master t s" for t by (cases t) simp_all
    have "avoids_banned ?s = avoids_banned s" by (rule avoids_same) (simp_all only: m, simp_all)
    moreover have nn: "no_node_known ?s = no_node_known s" by (simp add: no_node_known_def)
    have no: "node_ok ?s n = node_ok s n" for n by (cases n) (simp_all add: node_ok_def no_node_known_def)
    have "nodes_ok ?s" using balance_invD(3) [OF inv] old unfolding nodes_ok_def no by simp
    moreover have "live {} ?s = live {} s" by (rule master_cong(2)) simp_all
    then have "assigned_live ?s" using balance_invD(4) [OF inv] old unfolding assigned_live_def by simp
    ultimately show ?thesis using inv rescan nn unfolding eq by (simp add: balance_inv_def)
  qed
qed (use assms in \<open>simp add: add_cl_banned_irq_def add_banned_irq_def\<close>)

lemma balance_inv_ban_irqs:
  "balance_inv s \<Longrightarrow> need_rescan s \<Longrightarrow> balance_inv (ban_irqs irq rest s) \<and> need_rescan (ban_irqs irq rest s)"
proof (induction irq rest s rule: ban_irqs.induct)
  case (1 irq rest s)
  note step = balance_inv_add_cl [OF 1(2,3), of irq]
  show ?case
  proof (cases "int_strtoul 10 rest = 0")
    case True
    then show ?thesis using step by (subst (1 2) ban_irqs.simps) (simp add: Let_def)
  next
    case False
    from 1(1) [OF refl refl False] step show ?thesis by (subst (1 2) ban_irqs.simps) (simp add: Let_def False)
  qed
qed

lemma balance_inv_settings:
  assumes "balance_inv s"
  shows "balance_inv (settings_ban_irqs arg s)" "balance_inv (settings_cpus arg s)"
    "balance_inv (s\<lparr> banned_cpumask_from_ui := None, cpu_ban_string := None \<rparr>)"
proof -
  let ?s = "s\<lparr> cl_banned_irqs := [], need_rescan := True \<rparr>"
  have l: "get_list l ?s = get_list l s" "master t ?s = master t s" for l t by (cases l; simp) (cases t; simp)
  have "db_inv s \<Longrightarrow> db_inv ?s" by (simp add: db_inv_def irqs_ok_def l)
  moreover have "topo_inv {} ?s = topo_inv {} s" by (rule topo_inv_cong) simp_all
  moreover have "avoids_banned ?s = avoids_banned s" by (rule avoids_same) (simp_all only: l, simp_all)
  moreover have nn: "no_node_known ?s = no_node_known s" by (simp add: no_node_known_def)
  moreover have "nodes_ok ?s = nodes_ok s" by (simp add: nodes_ok_def node_ok_def nn split: option.split)
  moreover have "live {} ?s = live {} s" by (rule master_cong(2)) simp_all
  then have "assigned_live ?s = assigned_live s" by (simp add: assigned_live_def)
  ultimately have "balance_inv ?s" using assms by (simp add: balance_inv_def)
  then show "balance_inv (settings_ban_irqs arg s)"
    using balance_inv_ban_irqs [of ?s] by (simp add: settings_ban_irqs_def Let_def)
  show "balance_inv (settings_cpus arg s)" unfolding settings_cpus_def Let_def by (rule balance_inv_same [OF assms]) simp_all
  show "balance_inv (s\<lparr> banned_cpumask_from_ui := None, cpu_ban_string := None \<rparr>)" by (rule balance_inv_same [OF assms]) simp_all
qed

lemma balance_inv_memory: "only_memory s s' \<Longrightarrow> balance_inv s \<Longrightarrow> balance_inv s'"
  by (auto simp: only_memory_def balance_inv_flags)

lemma sock_command_inv:
  assumes inv: "balance_inv (d_state d)" and run: "sock_command c d = Some (reply, d')"
  shows "balance_inv (d_state d') \<and> (1 \<le> sleep_interval d \<longrightarrow> 1 \<le> sleep_interval d')"
proof -
  let ?P = "\<lambda>d'. balance_inv (d_state d') \<and> (1 \<le> sleep_interval d \<longrightarrow> 1 \<le> sleep_interval d')"
  obtain ok s where mem: "mem_next (d_state d) = (ok, s)" by fastforce
  note m = only_memory_next [OF mem]
  have s: "balance_inv s" by (rule balance_inv_memory [OF m inv])
  have answer': "?P d'" if "stats_reply d = Some (reply, d')"
  proof -
    from that obtain t s' where "foldM (get_object_stat TOPO_DEPTH) (numa_nodes (d_state d)) (None, d_state d) = Some (t, s')"
      "d' = d\<lparr> d_state := s' \<rparr>" by (auto simp: stats_reply_def bind_eq_Some_conv split: if_splits)
    moreover from this(1) have "only_memory (d_state d) s'" by (rule foldM_memory [rotated]) (rule get_object_stat_memory)
    ultimately show ?thesis using balance_inv_memory inv by simp
  qed
  have answer: "?P d'" if "setup_reply d = Some (reply, d')"
  proof (cases ok)
    case False
    then show ?thesis using that mem s by (auto simp: setup_reply_def)
  next
    case True
    with that mem obtain t t' s1 where "foldM get_irq_data (cl_banned_irqs s) (Some t, s) = Some (t', s1)" "d' = d\<lparr> d_state := snd (mem_next s1) \<rparr>"
      by (auto simp: setup_reply_def bind_eq_Some_conv case_prod_beta)
    moreover from this(1) have "only_memory s s1" by (rule foldM_memory [rotated]) (rule get_irq_data_memory)
    ultimately show ?thesis using balance_inv_memory [OF _ s] balance_inv_memory [OF only_memory_next [OF surjective_pairing]] by simp
  qed
  define has where "has = g_str_has_prefix (buff c)"
  have sets: "balance_inv (settings_ban_irqs arg s)" "balance_inv (settings_cpus arg (s\<lparr> banned_cpumask_from_ui := None, cpu_ban_string := None \<rparr>))"
    "balance_inv (s\<lparr> banned_cpumask_from_ui := None, cpu_ban_string := None \<rparr>)" for arg
    by (intro balance_inv_settings s)+
  have sleep': "?P (settings_sleep arg (d\<lparr> d_state := s \<rparr>))" for arg using s by (simp add: settings_sleep_def Let_def)
  note run' = run [unfolded sock_command_def Let_def mem prod.case, folded has_def]
  consider (stats) "has ''stats''" | (sleep) "\<not> has ''stats''" "has ''settings sleep ''"
    | (ban) "\<not> has ''stats''" "\<not> has ''settings sleep ''" "has ''settings ban irqs ''"
    | (cpus) "\<not> has ''stats''" "\<not> has ''settings sleep ''" "\<not> has ''settings ban irqs ''" "has ''settings cpus ''"
    | (none) "\<not> has ''stats''" "\<not> has ''settings sleep ''" "\<not> has ''settings ban irqs ''" "\<not> has ''settings cpus ''"
    by blast
  then show ?thesis
  proof cases
    case stats
    with run' answer' show ?thesis by simp
  next
    case sleep
    with run' obtain arg where "d' = (if ok then settings_sleep arg (d\<lparr> d_state := s \<rparr>) else d\<lparr> d_state := s \<rparr>)"
      by (cases "command_arg ''settings sleep '' c") (simp, simp, blast)
    with s sleep' show ?thesis by simp
  next
    case ban
    with run' obtain arg where "d' = d\<lparr> d_state := if ok then settings_ban_irqs arg s else s \<rparr>"
      by (cases "command_arg ''settings ban irqs '' c") (simp, simp, blast)
    with s sets show ?thesis by simp
  next
    case cpus
    with run' obtain arg s1 where "s1 = s\<lparr> banned_cpumask_from_ui := None, cpu_ban_string := None \<rparr>"
      "d' = d\<lparr> d_state := if ok then settings_cpus arg s1 else s1 \<rparr>"
      by (cases "command_arg ''settings cpus '' c") (simp, simp, blast)
    with sets show ?thesis by simp
  next
    case none
    with run' answer inv show ?thesis by (auto split: if_splits)
  qed
qed

lemma sock_handle_inv:
  "balance_inv (d_state d) \<Longrightarrow> sock_handle io c d = Some (reply, d') \<Longrightarrow>
     balance_inv (d_state d') \<and> (1 \<le> sleep_interval d \<longrightarrow> 1 \<le> sleep_interval d')"
  by (auto simp: sock_handle_def split: if_splits option.splits prod.splits dest: sock_command_inv)

lemma balance_inv_thermal: "balance_inv s \<Longrightarrow> balance_inv (s\<lparr> thermal_banned_cpus := m, need_rescan := True \<rparr>)"
  by (rule balance_inv_same) simp_all

lemma update_banned_inv: "update_banned_cpus sys i b (t, s) = Some (t', s') \<Longrightarrow> balance_inv s \<Longrightarrow> balance_inv s'"
  using balance_inv_thermal [of s]
  by (cases "if b then cpu_set i (banmask t) else Some (banmask t)"; cases "cpu_set i (itrmask t)")
    (simp_all add: update_banned_cpus_def Let_def if_distribR split: if_split_asm del: if_split, blast+)

lemma thermal_values_inv:
  "thermal_values sys i vs xs (t, s) = Some (t', s') \<Longrightarrow> balance_inv s \<Longrightarrow> balance_inv s'"
proof (induction xs arbitrary: i vs t s)
  case (Cons x xs)
  let ?ev = "vs[i mod INDEX_MAX := sint x]"
  let ?r = "update_banned_cpus sys (?ev ! INDEX_CPUNUM) (?ev ! INDEX_PERF = 0 \<and> ?ev ! INDEX_EFFI = 0) (t, s)"
  consider "thermal_values sys (i + 1) ?ev xs (t, s) = Some (t', s')"
    | t1 s1 where "?r = Some (t1, s1)" "thermal_values sys (i + 1) ?ev xs (t1, s1) = Some (t', s')"
    using Cons.prems(1) by (cases ?r) (auto simp: Let_def split: if_splits)
  then show ?case using Cons.IH Cons.prems(2) update_banned_inv by cases blast+
qed simp

lemma receive_thermal_inv:
  assumes run: "receive_thermal_event sys io msgs err (t, s) = Some (stay, t', s')" and inv: "balance_inv s"
  shows "balance_inv s'"
proof -
  let ?step = "\<lambda>msg o'. o' \<bind> handle_thermal_event sys msg"
  have "\<forall>t' s'. fold ?step msgs (Some (t, s)) = Some (t', s') \<longrightarrow> balance_inv s'"
    by (rule fold_invariant_on [where I = "\<lambda>o'. \<forall>t' s'. o' = Some (t', s') \<longrightarrow> balance_inv s'"])
      (use inv thermal_values_inv in \<open>fastforce simp: handle_thermal_event_def bind_eq_Some_conv split: if_splits option.splits\<close>)+
  with run inv show ?thesis by (auto simp: receive_thermal_event_def bind_eq_Some_conv Let_def split: if_splits)
qed

section \<open>The daemon from its start\<close>

lemma freed_same:
  assumes "freed s" "objs s' = objs s" "\<And>t. master t s' = master t s" "next_obj s' = next_obj s" "interrupts_db s' = interrupts_db s"
    "banned_irqs s' = banned_irqs s" "rebalance_irq_list s' = rebalance_irq_list s" "unbanned_cpus s' = unbanned_cpus s"
    "\<forall>r \<in> set (cl_banned_irqs s'). r < next_irq s'"
  shows "freed s'"
proof -
  have "master OBJ_TYPE_NODE s' = master OBJ_TYPE_NODE s" "master OBJ_TYPE_PACKAGE s' = master OBJ_TYPE_PACKAGE s"
    "master OBJ_TYPE_CACHE s' = master OBJ_TYPE_CACHE s" "master OBJ_TYPE_CPU s' = master OBJ_TYPE_CPU s" by (rule assms(3))+
  then have "numa_nodes s' = numa_nodes s" "packages s' = packages s" "cache_domains s' = cache_domains s" "cpus s' = cpus s"
    by simp_all
  with assms(2,4) have "topo_inv {} s' = topo_inv {} s" by (intro topo_inv_cong)
  with assms show ?thesis by (simp add: freed_def)
qed

lemma freed_initial: "freed (initial_state fs)"
proof -
  have m: "master t (initial_state fs) = []" for t by (cases t) (simp_all add: initial_state_def)
  then have "live {} (initial_state fs) = {}" by (simp add: live_def)
  moreover have "wf_cpumask CPU_MASK_NONE" by (simp add: wf_cpumask_def CPU_MASK_NONE_def)
  ultimately show ?thesis using m by (simp add: freed_def topo_inv_def) (simp add: initial_state_def zero_obj_def blank_def)
qed

lemma freed_update:
  assumes "freed s"
  shows "freed (deepest_cache_update f1 s)" "freed (power_thresh_update f1 s)" "freed (migrate_ratio_update f1 s)"
    "freed (s\<lparr> polscript := p \<rparr>)" "freed (s\<lparr> cl_banned_modules := ms \<rparr>)" "freed (s\<lparr> mem_fails := fs \<rparr>)"
    "freed (numa_avail_update f2 s)" "freed (HZ_update f3 s)"
proof -
  have m: "master t (deepest_cache_update f1 s) = master t s" "master t (power_thresh_update f1 s) = master t s"
    "master t (migrate_ratio_update f1 s) = master t s" "master t (s\<lparr> polscript := p \<rparr>) = master t s"
    "master t (s\<lparr> cl_banned_modules := ms \<rparr>) = master t s" "master t (s\<lparr> mem_fails := fs \<rparr>) = master t s"
    "master t (numa_avail_update f2 s) = master t s" "master t (HZ_update f3 s) = master t s" for t
    by (cases t; simp)+
  have cl: "\<forall>r \<in> set (cl_banned_irqs s). r < next_irq s" using assms by (simp add: freed_def)
  show "freed (deepest_cache_update f1 s)" "freed (power_thresh_update f1 s)" "freed (migrate_ratio_update f1 s)"
    "freed (s\<lparr> polscript := p \<rparr>)" "freed (s\<lparr> cl_banned_modules := ms \<rparr>)" "freed (s\<lparr> mem_fails := fs \<rparr>)"
    "freed (numa_avail_update f2 s)" "freed (HZ_update f3 s)"
    by (rule freed_same [OF assms]; simp add: m cl)+
qed

lemma freed_memory: "freed s \<Longrightarrow> mem_next s = (ok, s') \<Longrightarrow> freed s'"
  using only_memory_next [of s ok s'] freed_update(6) [of s] by (auto simp: only_memory_def)

lemma freed_add_cl:
  assumes "freed s"
  shows "freed (add_cl_banned_irq irq s)"
proof (cases "find (same_irq s irq) (cl_banned_irqs s) \<noteq> None")
  case False
  obtain ro s1 where al: "calloc_irq s = (ro, s1)" by fastforce
  show ?thesis
  proof (cases ro)
    case None
    then obtain fs where "s1 = s\<lparr> mem_fails := fs \<rparr>" using al calloc_irq_None by blast
    with False None al assms show ?thesis by (simp add: add_cl_banned_irq_def add_banned_irq_def freed_update)
  next
    case (Some r)
    with al have al': "calloc_irq s = (Some r, s1)" by simp
    then obtain fs where s1: "r = next_irq s" "s1 = s\<lparr> mem_fails := fs, irqs := (irqs s)(r := zero_irq), next_irq := r + 1 \<rparr>"
      by (rule calloc_irq_Some)
    let ?f = "\<lambda>i. i\<lparr> i_irq := irq, i_flags := i_flags i OR IRQ_FLAG_BANNED \<rparr>"
    have eq: "add_cl_banned_irq irq s = (upd_irq r ?f s1)\<lparr> cl_banned_irqs := cl_banned_irqs s @ [r] \<rparr>"
      using False al Some s1 by (simp add: add_cl_banned_irq_def add_banned_irq_def Let_def)
    have m: "master t (add_cl_banned_irq irq s) = master t s" for t by (cases t) (simp_all add: eq s1)
    have "\<forall>r \<in> set (cl_banned_irqs s). r < next_irq s" using assms by (simp add: freed_def)
    then show ?thesis by (intro freed_same [OF assms] m) (auto simp: eq s1)
  qed
qed (use assms in \<open>simp add: add_cl_banned_irq_def add_banned_irq_def\<close>)

lemma freed_add_module: "freed s \<Longrightarrow> freed (add_cl_banned_module m s)"
  by (auto simp: add_cl_banned_module_def Let_def freed_update split: prod.split dest: freed_memory)

text \<open>What the options may set, and which values they accept.\<close>

definition config_ok :: "daemon \<Rightarrow> bool" where
  "config_ok d \<longleftrightarrow> freed (d_state d) \<and> 1 \<le> deepest_cache (d_state d) \<and> 1 \<le> sleep_interval d"

lemma deepest_cache_ban [simp]: "deepest_cache (add_cl_banned_irq irq s) = deepest_cache s"
  by (auto simp: add_cl_banned_irq_def add_banned_irq_def Let_def calloc_irq_def mem_next_def split: prod.splits option.splits)

lemma deepest_cache_module [simp]: "deepest_cache (add_cl_banned_module m s) = deepest_cache s"
  by (simp add: add_cl_banned_module_def Let_def mem_next_def)

lemma word_ge_one: "(1 :: u64) \<le> v \<longleftrightarrow> v \<noteq> 0"
  by (metis linorder_not_less word_less_1)

lemma parse_option_ok:
  assumes ok: "config_ok d" and run: "parse_option (opt, optarg) d = Inr d'"
  shows "config_ok d'"
proof -
  obtain n s where mem: "mem_next (d_state d) = (n, s)" by fastforce
  have s: "freed s" "deepest_cache s = deepest_cache (d_state d)"
    using ok mem freed_memory [OF _ mem] by (auto simp: config_ok_def mem_next_def)
  note upd = config_ok_def upd_state_def freed_update freed_add_cl freed_add_module s(1)
  consider (c) "opt = CHR ''c''" | (p) "opt = CHR ''p''" | (l) "opt = CHR ''l''" | (t) "opt = CHR ''t''"
    | (other) "opt \<notin> {CHR ''c'', CHR ''p'', CHR ''l'', CHR ''t''}" by blast
  then show ?thesis
  proof cases
    case c
    then show ?thesis using ok run by (auto simp: parse_option_def Let_def upd word_ge_one split: prod.splits if_splits)
  next
    case p
    then show ?thesis using ok run by (auto simp: parse_option_def Let_def upd split: prod.splits if_splits)
  next
    case l
    then show ?thesis using ok run s mem by (auto simp: parse_option_def Let_def upd)
  next
    case t
    then show ?thesis using ok run by (auto simp: parse_option_def Let_def upd split: prod.splits if_splits)
  next
    case other
    then show ?thesis using ok run by (auto simp: parse_option_def Let_def upd split: prod.splits if_splits)
  qed
qed

lemma parse_command_line_ok: "config_ok d \<Longrightarrow> parse_command_line opts d = Inr d' \<Longrightarrow> config_ok d'"
proof (induction opts arbitrary: d)
  case (Cons o' opts)
  then show ?case by (cases o') (auto split: sum.splits dest: parse_option_ok)
qed simp

lemma config_ok_initial: "config_ok (initial_daemon fs)"
  by (simp add: config_ok_def initial_daemon_def SLEEP_INTERVAL_def freed_initial) (simp add: initial_state_def)

lemma startup_inv:
  assumes ok: "config_ok d" and run: "startup sysv numa clk d = Some (balancing, d')"
  shows "balance_inv (d_state d') \<and> 1 \<le> sleep_interval d'"
proof -
  let ?d = "startup_config (sysv 0) numa clk d"
  have cfg: "freed (d_state ?d)" "sleep_interval ?d = sleep_interval d"
    using ok by (simp_all add: startup_config_def Let_def config_ok_def upd_state_def freed_update)
  obtain s1 where s1: "build_object_tree (sysv 0) (d_state ?d) = Some s1"
    using run by (auto simp: startup_def Let_def bind_eq_Some_conv split: if_splits)
  have fresh: "fresh_db s1" by (rule build_object_tree_fresh [OF cfg(1) s1])
  show ?thesis
  proof (cases balancing)
    case False
    then have "d' = ?d\<lparr> d_state := s1 \<rparr>" using run s1 by (auto simp: startup_def Let_def bind_eq_Some_conv split: if_splits)
    then show ?thesis using fresh ok cfg by (simp add: config_ok_def fresh_db_def)
  next
    case True
    then obtain s2 where s2: "parse_proc_stat (sysv 2) (parse_proc_interrupts (sysv 1) (for_each_irq (interrupts_db s1) [] force_rebalance_irq s1)) = Some s2"
      and d': "d' = ?d\<lparr> d_state := clear_slots s2, last_interval := sleep_interval ?d \<rparr>"
      using run s1 by (auto simp: startup_def Let_def bind_eq_Some_conv split: if_splits)
    have p: "balance_inv (parse_proc_interrupts (sysv 1) (for_each_irq (interrupts_db s1) [] force_rebalance_irq s1))"
      by (intro balance_inv_parse_proc_interrupts queue_all fresh)
    have s2': "balance_inv s2" by (rule moves_only_inv [OF p moves_only_parse_proc_stat [OF s2 balance_invD(5) [OF p]]])
    have "balance_inv (clear_slots s2)" by (rule moves_only_inv [OF s2' moves_only_clear_slots [OF balance_invD(5) [OF s2']]])
    then show ?thesis using ok cfg d' by (simp add: config_ok_def)
  qed
qed

text \<open>
  The events of the main loop: the timer, the signals, a connection to the socket and a message about
  the temperature. After the request to end, a timer that is already due may call \<open>scan\<close> once more; the
  model does not cover the case that the tree could not be built then.
\<close>

inductive main_loop_run :: "sorter \<Rightarrow> 'k kernel_ops \<Rightarrow> daemon \<Rightarrow> 'k \<Rightarrow> daemon \<Rightarrow> 'k \<Rightarrow> bool" for g_list_sort ops d0 k0 where
  begins: "main_loop_run g_list_sort ops d0 k0 d0 k0"
| timer: "main_loop_run g_list_sort ops d0 k0 d k \<Longrightarrow> keep_going d \<or> \<not> need_rebuild (d_state d) \<Longrightarrow>
    scan g_list_sort ops sysv d k = Some (again, d', k') \<Longrightarrow> main_loop_run g_list_sort ops d0 k0 d' k'"
| hangup: "main_loop_run g_list_sort ops d0 k0 d k \<Longrightarrow> main_loop_run g_list_sort ops d0 k0 (force_rescan d) k"
| signal: "main_loop_run g_list_sort ops d0 k0 d k \<Longrightarrow> main_loop_run g_list_sort ops d0 k0 (handler d) k"
| socket: "main_loop_run g_list_sort ops d0 k0 d k \<Longrightarrow> sock_handle io c d = Some (reply, d') \<Longrightarrow>
    main_loop_run g_list_sort ops d0 k0 d' k"
| thermal: "main_loop_run g_list_sort ops d0 k0 d k \<Longrightarrow>
    receive_thermal_event sys io msgs err (d_thermal d, d_state d) = Some (stay, t, s) \<Longrightarrow>
    main_loop_run g_list_sort ops d0 k0 (d\<lparr> d_thermal := t, d_state := s \<rparr>) k"

lemma finish_scan_sleep: "sleep_interval (snd (finish_scan d)) = sleep_interval d"
  by (simp add: finish_scan_def Let_def upd_state_def)

lemma scan_sleep: "scan g ops sysv d k = Some (again, d', k') \<Longrightarrow> sleep_interval d' = sleep_interval d"
  using finish_scan_sleep [of "d\<lparr> d_state := s \<rparr>" for s]
  by (auto simp: scan_def Let_def bind_eq_Some_conv case_prod_beta split: if_splits)

lemma main_loop_inv:
  assumes "main_loop_run g ops d0 k0 d k" "sorts g" "balance_inv (d_state d0)" "1 \<le> sleep_interval d0"
  shows "balance_inv (d_state d) \<and> 1 \<le> sleep_interval d"
  using assms
proof (induction rule: main_loop_run.induct)
  case (timer d k sysv again d' k')
  then show ?case using scan_inv scan_sleep by metis
next
  case (hangup d k)
  then show ?case by (simp add: force_rescan_def upd_state_def balance_inv_flags)
next
  case (signal d k)
  then show ?case by (simp add: handler_def)
next
  case (socket d k io c reply d')
  then show ?case using sock_handle_inv by blast
next
  case (thermal d k sys io msgs err stay t s)
  then show ?case using receive_thermal_inv by simp
qed simp


section \<open>Theorems\<close>

text \<open>
  (C2) The main loop starts in a state that satisfies the invariant of the daemon, whatever the command
  line, the files of the system and the allocator do: the lists agree, the topology is a well-formed
  tree without banned CPUs, no interrupt points to an object outside of it, no interrupt the user
  banned is in the database. The interval of the timer is positive.
\<close>

theorem startup_establishes_invariant:
  assumes "parse_command_line opts (initial_daemon fs) = Inr d" "startup sysv numa clk d = Some (balancing, d')"
  shows "balance_inv (d_state d') \<and> 1 \<le> sleep_interval d'"
  using startup_inv parse_command_line_ok config_ok_initial assms by blast

text \<open>
  (C1) No sequence of events of the main loop breaks the invariant: timer scans with any contents of
  \<open>/proc\<close> and \<open>/sys\<close>, with any behaviour of the kernel and with allocations that fail, signals, commands
  of the user interface and messages about the temperature, in any order.
\<close>

theorem main_loop_keeps_invariant:
  assumes "main_loop_run g_list_sort ops d0 k0 d k" "sorts g_list_sort" "balance_inv (d_state d0)" "1 \<le> sleep_interval d0"
  shows "balance_inv (d_state d) \<and> 1 \<le> sleep_interval d"
  by (rule main_loop_inv [OF assms])

text \<open>
  (C3) In every state of the main loop an interrupt is assigned only to an object of the current
  topology, never to one that a rescan freed; it is on the list of that object, and a package, cache
  domain or CPU it is assigned to contains no banned CPU.
\<close>

theorem assignments_are_live:
  assumes "main_loop_run g_list_sort ops d0 k0 d k" "sorts g_list_sort" "balance_inv (d_state d0)" "1 \<le> sleep_interval d0"
    and "r \<in> set (interrupts_db (d_state d))" "i_assigned_obj (irqs (d_state d) r) = Some obj"
  shows "obj \<in> live {} (d_state d) \<and> r \<in> set (t_interrupts (objs (d_state d) obj)) \<and>
    (t_obj_type (objs (d_state d) obj) \<noteq> OBJ_TYPE_NODE \<longrightarrow> cpus_of (t_mask (objs (d_state d) obj)) \<inter> cpus_of (banned_cpus (d_state d)) = {})"
proof -
  have inv: "balance_inv (d_state d)" using main_loop_inv [OF assms(1-4)] by blast
  have lv: "obj \<in> live {} (d_state d)" using balance_invD(4) [OF inv] assms(5,6) by (auto simp: assigned_live_def)
  then obtain t where t: "obj \<in> set (master t (d_state d))" by (auto simp: live_def)
  moreover have "t_obj_type (objs (d_state d) obj) = t" by (rule topo_invD(1) [OF balance_invD(2) [OF inv] t])
  moreover have "avoids_banned (d_state d)" using inv by (simp add: balance_inv_def)
  moreover have "r \<in> set (t_interrupts (objs (d_state d) obj))" using balance_invD(5) [OF inv] assms(5,6) by (simp add: irqs_ok_def)
  ultimately show ?thesis using lv unfolding avoids_banned_def by blast
qed

text \<open>
  (C4) In every state of the main loop without a pending rescan the database holds no interrupt that the
  user banned, and the interrupts banned for other reasons are apart from the database and have the level
  that no code balances.
\<close>

theorem bans_hold:
  assumes "main_loop_run g_list_sort ops d0 k0 d k" "sorts g_list_sort" "balance_inv (d_state d0)" "1 \<le> sleep_interval d0"
    and "\<not> need_rescan (d_state d)"
  shows "(\<lambda>r. i_irq (irqs (d_state d) r)) ` set (interrupts_db (d_state d)) \<inter> (\<lambda>r. i_irq (irqs (d_state d) r)) ` set (cl_banned_irqs (d_state d)) = {}
    \<and> set (interrupts_db (d_state d)) \<inter> set (banned_irqs (d_state d)) = {}
    \<and> list_all (\<lambda>r. i_level (irqs (d_state d) r) = BALANCE_NONE) (banned_irqs (d_state d))"
proof -
  have "balance_inv (d_state d)" using main_loop_inv [OF assms(1-4)] by blast
  with assms(5) show ?thesis by (auto simp: balance_inv_def cl_bans_kept_def db_inv_def list_all_iff)
qed

end
