(* ===== verification/Ui.thy ===== *)
theory Ui
  imports Commands
begin

text \<open>
  The user interface without its windows (\<open>ui/irqbalance-ui.c\<close>, \<open>ui/helpers.c\<close> and the parts of
  \<open>ui/ui.c\<close> that compute): how the replies of the daemon are read, how CPUs and interrupts are chosen for
  banning and which commands are sent back.
\<close>

section \<open>Data\<close>

record ui_irq =
  u_vector :: int
  u_load :: u64
  u_diff :: u64
  u_is_banned :: bool
  u_is_changed :: bool
  u_assigned_to :: "int list"
  u_class :: int

text \<open>Nodes are addressed by their position in the list of all nodes that were allocated.\<close>

record ui_node =
  n_type :: u32
  n_number :: int
  n_load :: u64
  n_is_powersave :: int
  n_parent :: "nat option"
  n_children :: "nat list"
  n_irqs :: "ui_irq list"
  n_cpu_list :: "int list"
  n_cpu_mask :: string

record cpu_ban =
  c_number :: int
  c_is_banned :: bool
  c_is_changed :: bool

record ui_setup =
  su_sleep :: u64
  su_banned_irqs :: "ui_irq list"
  su_banned_cpus :: "int list"

text \<open>
  \<open>Exit\<close> is the call of \<open>exit\<close> for data that is not understood, \<open>Crash\<close> the use of a null pointer.
\<close>

datatype ui_error = Exit | Crash

section \<open>Helpers\<close>

definition sort_ints :: "int \<Rightarrow> int \<Rightarrow> int" where
  "sort_ints first second = (if first < second then - 1 else if first = second then 0 else 1)"

definition sort_all_cpus :: "cpu_ban \<Rightarrow> cpu_ban \<Rightarrow> int" where
  "sort_all_cpus first second =
     (if c_number first < c_number second then - 1 else if c_number first = c_number second then 0 else 1)"

definition sort_all_irqs :: "ui_irq \<Rightarrow> ui_irq \<Rightarrow> int" where
  "sort_all_irqs first second =
     (if u_vector first < u_vector second then - 1 else if u_vector first = u_vector second then 0 else 1)"

text \<open>The four characters of the digit, the most significant bit first.\<close>

definition hex_to_bitmap :: "char \<Rightarrow> string" where
  "hex_to_bitmap c =
     (let bitchar = (\<lambda>v. if v mod 2 = 1 then CHR ''1'' else CHR ''0'');
          bits = (\<lambda>v :: nat. [bitchar (v div 8), bitchar (v div 4), bitchar (v div 2), bitchar v])
      in if 48 \<le> (of_char c :: nat) \<and> (of_char c :: nat) \<le> 57 then bits (of_char c - 48)
         else if 97 \<le> (of_char c :: nat) \<and> (of_char c :: nat) \<le> 102 then bits (of_char c - 97 + 10)
         else if 65 \<le> (of_char c :: nat) \<and> (of_char c :: nat) \<le> 70 then bits (of_char c - 65 + 10)
         else ''0000'')"

definition copy_cpu_ban :: "cpu_ban \<Rightarrow> cpu_ban" where
  "copy_cpu_ban old = \<lparr> c_number = c_number old, c_is_banned = c_is_banned old, c_is_changed = False \<rparr>"

definition copy_irq :: "ui_irq \<Rightarrow> ui_irq" where
  "copy_irq old = \<lparr> u_vector = u_vector old, u_load = u_load old, u_diff = u_diff old, u_is_banned = u_is_banned old,
     u_is_changed = False, u_assigned_to = u_assigned_to old, u_class = u_class old \<rparr>"

section \<open>Reading the replies\<close>

text \<open>All the tokens that \<open>strtok_r\<close> finds one after the other.\<close>

function tokens :: "string \<Rightarrow> string list" where
  "tokens s = (case strtok s of None \<Rightarrow> [] | Some (t, rest) \<Rightarrow> t # tokens rest)"
  by pat_completeness auto
termination
  by (relation "measure length") (auto dest: strtok_shorter)

declare tokens.simps [simp del]

text \<open>
  A keyword and its number. The next token is null at the end of the text: no prefix of it matches, and
  \<open>strtol\<close> must not be called with it.
\<close>

definition take_field :: "string \<Rightarrow> string list \<Rightarrow> ui_error + int \<times> string list" where
  "take_field key ts =
     (case ts of
        [] \<Rightarrow> Inl Exit
      | t # ts \<Rightarrow>
          if \<not> g_str_has_prefix t key then Inl Exit
          else case ts of [] \<Rightarrow> Inl Crash | v # ts \<Rightarrow> Inr (fst (strtol 10 v), ts))"

lemma take_field_shorter: "take_field key ts = Inr (v, ts') \<Longrightarrow> length ts' < length ts"
  by (auto simp: take_field_def split: list.splits if_splits)

text \<open>
  The loop over the interrupts, in both parsers. What \<open>g_malloc\<close> leaves in \<open>is_changed\<close> and \<open>assigned_to\<close> is
  not used before it is set.
\<close>

function parse_irqs :: "bool \<Rightarrow> string list \<Rightarrow> ui_error + ui_irq list \<times> string list" where
  "parse_irqs banned ts =
     (if \<not> (ts \<noteq> [] \<and> g_str_has_prefix (hd ts) ''IRQ'') then Inr ([], ts)
      else case take_field ''IRQ'' ts of Inl e \<Rightarrow> Inl e | Inr (vector, ts) \<Rightarrow>
        (case take_field ''LOAD'' ts of Inl e \<Rightarrow> Inl e | Inr (load, ts) \<Rightarrow>
          (case take_field ''DIFF'' ts of Inl e \<Rightarrow> Inl e | Inr (diff, ts) \<Rightarrow>
            (case take_field ''CLASS'' ts of Inl e \<Rightarrow> Inl e | Inr (class, ts) \<Rightarrow>
              (case parse_irqs banned ts of Inl e \<Rightarrow> Inl e | Inr (others, ts) \<Rightarrow>
                 Inr (\<lparr> u_vector = int_of_long vector, u_load = of_int load, u_diff = of_int diff, u_is_banned = banned,
                        u_is_changed = False, u_assigned_to = [], u_class = int_of_long class \<rparr> # others, ts))))))"
  by pat_completeness auto
termination
  by (relation "measure (\<lambda>(_, ts). length ts)") (auto dest!: take_field_shorter)

declare parse_irqs.simps [simp del]

lemma parse_irqs_shorter: "parse_irqs b ts = Inr (is, ts') \<Longrightarrow> length ts' \<le> length ts"
proof (induction "length ts" arbitrary: ts "is" rule: less_induct)
  case less
  have le: "length ts' \<le> length ts" if "parse_irqs b u = Inr (v, ts')" "length u < length ts" for u v
    using less.hyps [OF that(2) that(1)] that(2) by simp
  from less.prems show ?case
    by (subst (asm) parse_irqs.simps)
      (auto split: if_splits sum.splits prod.splits dest!: take_field_shorter intro: le)
qed

text \<open>The CPUs of a mask in the order of its bits, from the last digit to the first.\<close>

definition digit_cpus :: "char \<Rightarrow> nat \<Rightarrow> int list" where
  "digit_cpus c cpu = map (\<lambda>j. int (cpu + j)) (filter (\<lambda>j. hex_to_bitmap c ! (3 - j) = CHR ''1'') [0, 1, 2, 3])"

fun mask_cpus :: "string \<Rightarrow> nat \<Rightarrow> int list" where
  "mask_cpus [] cpu = []"
| "mask_cpus (c # cs) cpu = (if c = CHR '','' then mask_cpus cs cpu else digit_cpus c cpu @ mask_cpus cs (cpu + 4))"

definition parse_setup :: "string option \<Rightarrow> ui_setup \<Rightarrow> ui_error + ui_setup" where
  "parse_setup setup_data setup =
     (case setup_data of
        None \<Rightarrow> Inr setup
      | Some [] \<Rightarrow> Inr setup
      | Some text \<Rightarrow>
          (case take_field ''SLEEP'' (tokens text) of Inl e \<Rightarrow> Inl e | Inr (sleep, ts) \<Rightarrow>
               (case parse_irqs True ts of Inl e \<Rightarrow> Inl e | Inr (banned, ts) \<Rightarrow>
                 (case ts of
                    [] \<Rightarrow> Inl Exit
                  | t # ts \<Rightarrow>
                      if \<not> g_str_has_prefix t ''BANNED'' then Inl Exit
                      else case ts of
                        [] \<Rightarrow> Inl Crash
                      | m # _ \<Rightarrow> Inr \<lparr> su_sleep = of_int sleep, su_banned_irqs = banned,
                                       su_banned_cpus = mask_cpus (rev m) 0 \<rparr>))))"

section \<open>The tree\<close>

abbreviation UI_TYPE_NODE :: u32 where
  "UI_TYPE_NODE \<equiv> 3"

definition choose_parent :: "u32 \<Rightarrow> nat option \<Rightarrow> ui_node list \<Rightarrow> ui_error + nat option" where
  "choose_parent ty parent nodes =
     (if ty = UI_TYPE_NODE then Inr None
      else case parent of
        None \<Rightarrow> Inl Crash
      | Some p \<Rightarrow> Inr (if ty \<ge> n_type (nodes ! p) then n_parent (nodes ! p) else Some p))"

definition attach_node :: "ui_node \<Rightarrow> nat option \<Rightarrow> ui_node list \<times> nat list \<Rightarrow> ui_node list \<times> nat list" where
  "attach_node new parent = (\<lambda>(nodes, tree).
     case parent of
       None \<Rightarrow> (nodes @ [new\<lparr> n_parent := None \<rparr>], tree @ [length nodes])
     | Some p \<Rightarrow> (nodes[p := (nodes ! p)\<lparr> n_children := n_children (nodes ! p) @ [length nodes] \<rparr>] @ [new\<lparr> n_parent := Some p \<rparr>], tree))"

function parse_nodes :: "string list \<Rightarrow> nat option \<Rightarrow> ui_node list \<times> nat list \<Rightarrow> ui_error + ui_node list \<times> nat list" where
  "parse_nodes ts parent nt =
     (if ts = [] then Inr nt
      else case take_field ''TYPE'' ts of Inl e \<Rightarrow> Inl e | Inr (ty, ts) \<Rightarrow>
        (case choose_parent (of_int ty) parent (fst nt) of Inl e \<Rightarrow> Inl e | Inr parent \<Rightarrow>
          (case take_field ''NUMBER'' ts of Inl e \<Rightarrow> Inl e | Inr (number, ts) \<Rightarrow>
            (case take_field ''LOAD'' ts of Inl e \<Rightarrow> Inl e | Inr (load, ts) \<Rightarrow>
              (case take_field ''SAVE_MODE'' ts of Inl e \<Rightarrow> Inl e | Inr (save, ts) \<Rightarrow>
                (case parse_irqs False ts of Inl e \<Rightarrow> Inl e | Inr (assigned, ts) \<Rightarrow>
                  (let new = \<lparr> n_type = of_int ty, n_number = int_of_long number, n_load = of_int load,
                               n_is_powersave = int_of_long save, n_parent = None, n_children = [], n_irqs = assigned,
                               n_cpu_list = [], n_cpu_mask = [] \<rparr>;
                       parent' = (if (of_int ty :: u32) \<noteq> 0 then Some (length (fst nt)) else parent)
                   in parse_nodes ts parent' (attach_node new parent nt))))))))"
  by pat_completeness auto
termination
  by (relation "measure (\<lambda>(ts, _). length ts)") (auto dest!: take_field_shorter parse_irqs_shorter)

declare parse_nodes.simps [simp del]

text \<open>The lists of CPUs below a node; \<open>g_list_sort\<close> is a parameter as for the daemon. The fuel is the number of nodes.\<close>

definition concat_child_lists :: "ui_node list \<Rightarrow> nat \<Rightarrow> int list" where
  "concat_child_lists nodes i = concat (map (\<lambda>c. n_cpu_list (nodes ! c)) (n_children (nodes ! i)))"

type_synonym int_sorter = "(int \<Rightarrow> int \<Rightarrow> int) \<Rightarrow> int list \<Rightarrow> int list"

definition copy_cpu_list_to_irq :: "int_sorter \<Rightarrow> int list \<Rightarrow> ui_irq \<Rightarrow> ui_irq" where
  "copy_cpu_list_to_irq g_list_sort cpu_list irq = irq\<lparr> u_assigned_to := g_list_sort sort_ints cpu_list \<rparr>"

fun assign_cpu_lists :: "nat \<Rightarrow> int_sorter \<Rightarrow> nat \<Rightarrow> ui_node list \<Rightarrow> ui_node list" where
  "assign_cpu_lists 0 g_list_sort i nodes = nodes"
| "assign_cpu_lists (Suc fuel) g_list_sort i nodes =
     (let nodes = (if length (n_children (nodes ! i)) > 0
                   then let nodes = fold (assign_cpu_lists fuel g_list_sort) (n_children (nodes ! i)) nodes
                        in nodes[i := (nodes ! i)\<lparr> n_cpu_list := concat_child_lists nodes i \<rparr>]
                   else nodes[i := (nodes ! i)\<lparr> n_cpu_list := n_cpu_list (nodes ! i) @ [n_number (nodes ! i)] \<rparr>])
      in nodes[i := (nodes ! i)\<lparr> n_irqs := map (copy_cpu_list_to_irq g_list_sort (n_cpu_list (nodes ! i))) (n_irqs (nodes ! i)) \<rparr>])"

text \<open>\<open>1 << cpu\<close> is defined for the numbers 0 to 30 only; what it gives for others is a parameter.\<close>

definition shift_one :: "(int \<Rightarrow> u32) \<Rightarrow> int \<Rightarrow> u32" where
  "shift_one undef cpu = (if 0 \<le> cpu \<and> cpu < 31 then push_bit (nat cpu) 1 else undef cpu)"

definition cpu_mask_text :: "(int \<Rightarrow> u32) \<Rightarrow> int list \<Rightarrow> string" where
  "cpu_mask_text undef cpu_list = take 14 (''0x'' @ hex_of_nat (unat (fold (\<lambda>cpu sum. sum + shift_one undef cpu) cpu_list 0)))"

fun assign_cpu_mask :: "nat \<Rightarrow> (int \<Rightarrow> u32) \<Rightarrow> nat \<Rightarrow> ui_node list \<Rightarrow> ui_node list" where
  "assign_cpu_mask 0 undef i nodes = nodes"
| "assign_cpu_mask (Suc fuel) undef i nodes =
     fold (assign_cpu_mask fuel undef) (n_children (nodes ! i))
       (nodes[i := (nodes ! i)\<lparr> n_cpu_mask := cpu_mask_text undef (n_cpu_list (nodes ! i)) \<rparr>])"

definition parse_into_tree ::
  "int_sorter \<Rightarrow> (int \<Rightarrow> u32) \<Rightarrow> string option \<Rightarrow> ui_error + ui_node list \<times> nat list" where
  "parse_into_tree g_list_sort undef data =
     (case data of
        None \<Rightarrow> Inr ([], [])
      | Some [] \<Rightarrow> Inr ([], [])
      | Some text \<Rightarrow>
          (case parse_nodes (tokens text) None ([], []) of
             Inl e \<Rightarrow> Inl e
           | Inr (nodes, tree) \<Rightarrow>
               let nodes = fold (assign_cpu_lists (length nodes) g_list_sort) tree nodes;
                   nodes = fold (assign_cpu_mask (length nodes) undef) tree nodes
               in Inr (nodes, tree)))"

section \<open>Choosing CPUs and interrupts\<close>

fun get_cpu :: "nat \<Rightarrow> ui_node list \<Rightarrow> nat \<Rightarrow> cpu_ban list \<Rightarrow> cpu_ban list" where
  "get_cpu 0 nodes i all_cpus = all_cpus"
| "get_cpu (Suc fuel) nodes i all_cpus =
     fold (get_cpu fuel nodes) (n_children (nodes ! i))
       (if n_type (nodes ! i) = 0
        then all_cpus @ [\<lparr> c_number = n_number (nodes ! i), c_is_banned = False, c_is_changed = False \<rparr>] else all_cpus)"

definition get_banned_cpu :: "int \<Rightarrow> cpu_ban list \<Rightarrow> cpu_ban list" where
  "get_banned_cpu cpu all_cpus = all_cpus @ [\<lparr> c_number = cpu, c_is_banned = True, c_is_changed = False \<rparr>]"

text \<open>The list that \<open>print_all_cpus\<close> makes when there is none yet.\<close>

definition list_all_cpus ::
  "((cpu_ban \<Rightarrow> cpu_ban \<Rightarrow> int) \<Rightarrow> cpu_ban list \<Rightarrow> cpu_ban list) \<Rightarrow> ui_node list \<times> nat list \<Rightarrow> ui_setup \<Rightarrow> cpu_ban list \<Rightarrow> cpu_ban list" where
  "list_all_cpus g_list_sort = (\<lambda>(nodes, tree) setup all_cpus.
     if all_cpus = []
     then g_list_sort sort_all_cpus (fold get_banned_cpu (su_banned_cpus setup) (fold (get_cpu (length nodes) nodes) tree []))
     else all_cpus)"

text \<open>None: the number is not on the list, and the null pointer at its end is used.\<close>

fun toggle_cpu :: "cpu_ban list \<Rightarrow> int \<Rightarrow> (bool \<times> cpu_ban list) option" where
  "toggle_cpu [] cpu_number = None"
| "toggle_cpu (e # es) cpu_number =
     (if c_number e = cpu_number then Some (\<not> c_is_banned e, e\<lparr> c_is_banned := \<not> c_is_banned e, c_is_changed := True \<rparr> # es)
      else map_option (\<lambda>(b, es). (b, e # es)) (toggle_cpu es cpu_number))"

text \<open>The result is -1 when there is no such position.\<close>

definition toggle_irq :: "ui_irq list \<Rightarrow> int \<Rightarrow> int \<times> ui_irq list" where
  "toggle_irq irq_list position =
     (if 0 \<le> position \<and> position < int (length irq_list)
      then let e = irq_list ! nat position; e = e\<lparr> u_is_banned := \<not> u_is_banned e, u_is_changed := True \<rparr>
           in (if u_is_banned e then 1 else 0, irq_list[nat position := e])
      else (- 1, irq_list))"

fun copy_irqs_from_nodes :: "nat \<Rightarrow> ui_node list \<Rightarrow> nat \<Rightarrow> ui_irq list \<Rightarrow> ui_irq list" where
  "copy_irqs_from_nodes 0 nodes i all_irqs = all_irqs"
| "copy_irqs_from_nodes (Suc fuel) nodes i all_irqs =
     fold (copy_irqs_from_nodes fuel nodes) (n_children (nodes ! i)) (all_irqs @ map copy_irq (n_irqs (nodes ! i)))"

definition get_all_irqs :: "ui_node list \<times> nat list \<Rightarrow> ui_setup \<Rightarrow> ui_irq list" where
  "get_all_irqs = (\<lambda>(nodes, tree) setup.
     fold (copy_irqs_from_nodes (length nodes) nodes) tree (map copy_irq (su_banned_irqs setup)))"

section \<open>The commands that are sent\<close>

text \<open>\<open>snprintf\<close> to the end of a string in a buffer of 1024 bytes cuts the text off.\<close>

definition append_1024 :: "string \<Rightarrow> string \<Rightarrow> string" where
  "append_1024 old new = old @ take (1023 - length old) new"

definition get_new_cpu_ban_values :: "cpu_ban \<Rightarrow> string \<Rightarrow> string" where
  "get_new_cpu_ban_values cpu mask_data =
     (if c_is_banned cpu then append_1024 mask_data (dec_of_int (c_number cpu) @ '','') else mask_data)"

definition get_new_irq_ban_values :: "ui_irq \<Rightarrow> string \<Rightarrow> string" where
  "get_new_irq_ban_values irq ban_list =
     (if u_is_banned irq then append_1024 ban_list ('' '' @ dec_of_int (u_vector irq)) else ban_list)"

text \<open>
  The texts that \<open>handle_cpu_banning\<close>, \<open>handle_irq_banning\<close> and \<open>handle_sleep_setting\<close> send. \<open>strncpy\<close> of the last
  word leaves the buffer without its end when it does not fit; the model takes what is in the buffer.
\<close>

definition cpu_ban_command :: "cpu_ban list \<Rightarrow> string" where
  "cpu_ban_command all_cpus =
     (let settings_string = fold get_new_cpu_ban_values all_cpus ''settings cpus ''
      in if g_str_has_prefix settings_string ''settings cpus ''
         then settings_string @ take (1024 - length settings_string) ''NULL'' else settings_string)"

definition irq_ban_command :: "ui_irq list \<Rightarrow> string" where
  "irq_ban_command all_irqs =
     (let settings_string = fold get_new_irq_ban_values all_irqs ''settings ban irqs ''
      in if g_str_has_prefix settings_string ''settings ban irqs ''
         then settings_string @ take (1024 - length settings_string) '' NONE'' else settings_string)"

definition sleep_command :: "u64 \<Rightarrow> ui_setup \<Rightarrow> (string \<times> ui_setup) option" where
  "sleep_command new_sleep setup =
     (if new_sleep \<noteq> su_sleep setup
      then Some (''settings sleep  '' @ dec_of_nat (unat new_sleep), setup\<lparr> su_sleep := new_sleep \<rparr>) else None)"

text \<open>
  The keys that \<open>getch\<close> delivers one after the other (nothing is delivered as long as there is no input), and
  how the program may stop: it is closed, it waits for a key, it fails, or it has written behind a buffer.
\<close>

datatype ui_key = Key char | Enter | Backspace | Escape | KEY_UP | KEY_DOWN | KEY_NPAGE | KEY_PPAGE | KEY_F3 | KEY_F4 | KEY_F5

datatype ui_stop = Closed | Waiting | Stopped ui_error | Overrun

text \<open>
  Typing an interval. None is the escape. The codes of the other keys lose all but their last byte
  when they are put into the input; they are a parameter, as is what follows in memory when a full
  buffer of 20 characters is returned without an end.
\<close>

definition key_byte :: "(ui_key \<Rightarrow> char) \<Rightarrow> ui_key \<Rightarrow> char" where
  "key_byte code k = (case k of Key c \<Rightarrow> c | k \<Rightarrow> code k)"

fun check_control_in_sleep_input ::
  "(ui_key \<Rightarrow> char) \<Rightarrow> string \<Rightarrow> ui_key list \<Rightarrow> string \<Rightarrow> ui_stop + string option \<times> ui_key list" where
  "check_control_in_sleep_input code behind keys input_to =
     (if length input_to \<ge> 20 then Inr (Some (input_to @ behind), keys)
      else case keys of
        [] \<Rightarrow> Inl Waiting
      | k # keys \<Rightarrow>
          if k = Enter then Inr (Some input_to, keys)
          else if k = Key (CHR ''q'') then Inl Closed
          else if k = Backspace then check_control_in_sleep_input code behind keys (butlast input_to)
          else if k = Escape then Inr (None, keys)
          else check_control_in_sleep_input code behind keys (input_to @ [key_byte code k]))"

declare check_control_in_sleep_input.simps [simp del]

lemma sleep_input_rest:
  "check_control_in_sleep_input code behind keys input_to = Inr (r, keys') \<Longrightarrow> length keys' \<le> length keys"
proof (induction code behind keys input_to rule: check_control_in_sleep_input.induct)
  case (1 code behind keys input_to)
  show ?case
  proof (cases "length input_to \<ge> 20")
    case True
    then show ?thesis using 1(3) by (simp add: check_control_in_sleep_input.simps [of code behind keys])
  next
    case False
    then show ?thesis using 1
      by (simp add: check_control_in_sleep_input.simps [of code behind keys] split: list.splits if_splits)
  qed
qed

lemma sleep_input_shorter:
  assumes "check_control_in_sleep_input code behind keys [] = Inr (r, keys')"
  shows "length keys' < length keys"
proof (cases keys)
  case Nil
  then show ?thesis using assms by (simp add: check_control_in_sleep_input.simps)
next
  case (Cons k ks)
  with assms have "length keys' \<le> length ks"
    by (subst (asm) check_control_in_sleep_input.simps) (auto split: if_splits dest: sleep_input_rest)
  then show ?thesis using Cons by simp
qed

text \<open>The interval that the user types, and -- as the function returns \<open>int\<close> -- its value after that conversion.\<close>

function get_valid_sleep_input ::
  "(ui_key \<Rightarrow> char) \<Rightarrow> string \<Rightarrow> ui_key list \<Rightarrow> ui_setup \<Rightarrow> ui_stop + int \<times> ui_key list" where
  "get_valid_sleep_input code behind keys setup =
     (case check_control_in_sleep_input code behind keys [] of
        Inl e \<Rightarrow> Inl e
      | Inr (None, keys) \<Rightarrow> Inr (int_of_u64 (su_sleep setup), keys)
      | Inr (Some input, keys) \<Rightarrow>
          let (new_sleep, error) = strtol 10 input
          in if error = [] \<and> (of_int new_sleep :: u64) \<ge> 1 then Inr (int_of_u64 (of_int new_sleep), keys)
             else get_valid_sleep_input code behind keys setup)"
  by pat_completeness auto
termination
  by (relation "measure (\<lambda>(_, _, keys, _). length keys)") (auto dest: sleep_input_shorter)

declare get_valid_sleep_input.simps [simp del]

lemma valid_sleep_shorter:
  "get_valid_sleep_input code behind keys su = Inr (i, keys') \<Longrightarrow> length keys' < length keys"
proof (induction code behind keys su rule: get_valid_sleep_input.induct)
  case (1 code behind keys su)
  from 1(2) obtain inp ks where c: "check_control_in_sleep_input code behind keys [] = Inr (inp, ks)"
    by (subst (asm) get_valid_sleep_input.simps) (auto split: sum.splits)
  have sh: "length ks < length keys" by (rule sleep_input_shorter [OF c])
  show ?case
  proof (cases inp)
    case None
    then show ?thesis using 1(2) c sh by (subst (asm) get_valid_sleep_input.simps) simp
  next
    case (Some input)
    obtain v e where v: "strtol 10 input = (v, e)" by fastforce
    show ?thesis
    proof (cases "e = [] \<and> (of_int v :: u64) \<ge> 1")
      case True
      then show ?thesis using 1(2) c Some v sh by (subst (asm) get_valid_sleep_input.simps) simp
    next
      case False
      then have "get_valid_sleep_input code behind ks su = Inr (i, keys')"
        using 1(2) c Some v by (subst (asm) get_valid_sleep_input.simps) (simp split: if_splits)
      from 1(1) [OF c [unfolded Some] refl refl v [symmetric] refl False this] sh show ?thesis by simp
    qed
  qed
qed

text \<open>\<open>handle_sleep_setting\<close>: what is sent, if anything, the new setup and the keys that are left.\<close>

definition handle_sleep_setting ::
  "(ui_key \<Rightarrow> char) \<Rightarrow> string \<Rightarrow> ui_key list \<Rightarrow> ui_setup \<Rightarrow> ui_stop + string option \<times> ui_setup \<times> ui_key list" where
  "handle_sleep_setting code behind keys setup =
     (case get_valid_sleep_input code behind keys setup of
        Inl e \<Rightarrow> Inl e
      | Inr (i, keys) \<Rightarrow>
          (case sleep_command (of_int i) setup of
             None \<Rightarrow> Inr (None, setup, keys)
           | Some (cmd, setup) \<Rightarrow> Inr (Some cmd, setup, keys)))"

section \<open>The list of CPUs of an interrupt\<close>

text \<open>The range under construction (\<open>rbot\<close>, \<open>rtop\<close>) and the text so far, in a buffer of 128 bytes.\<close>

definition append_128 :: "string \<Rightarrow> string \<Rightarrow> string" where
  "append_128 old new = old @ take (127 - length old) new"

definition bsnl_emit :: "int \<Rightarrow> int \<Rightarrow> string \<Rightarrow> string" where
  "bsnl_emit rbot rtop buf =
     (let buf = (if length buf > 0 then append_128 buf '','' else buf)
      in append_128 buf (if rbot = rtop then dec_of_int rbot else dec_of_int rbot @ ''-'' @ dec_of_int rtop))"

definition copy_assigned_obj :: "int \<Rightarrow> int \<times> int \<times> string \<Rightarrow> int \<times> int \<times> string" where
  "copy_assigned_obj number = (\<lambda>(rbot, rtop, data).
     if rtop = - 1 then (number, number, data)
     else if number > rtop + 1 then (number, number, bsnl_emit rbot rtop data)
     else (rbot, number, data))"

definition print_assigned_objects_string :: "int \<Rightarrow> ui_irq \<Rightarrow> string option" where
  "print_assigned_objects_string rbot irq =
     (if u_is_banned irq then None
      else let (rbot, rtop, assigned_to) = fold copy_assigned_obj (u_assigned_to irq) (rbot, - 1, [])
           in Some (bsnl_emit rbot rtop assigned_to))"

end
