(* ===== verification/Ui_Windows.thy ===== *)
theory Ui_Windows
  imports Ui
begin

text \<open>
  The windows of the user interface (\<open>ui/ui.c\<close> and the key loop of \<open>ui/irqbalance-ui.c\<close>): the tree, the
  settings and the interrupts, how they scroll, and the two dialogs in which CPUs and interrupts are
  chosen. The screen is the list of the texts that were written to it with their places and
  colours; the frame, the footer and the lines that name the keys are left out.
\<close>

section \<open>State\<close>

datatype ui_state = STATE_TREE | STATE_SETTINGS | STATE_SETUP_IRQS

text \<open>\<open>mvprintw\<close> writes at a line and a column, \<open>printw\<close> at the cursor; the number is that of the colour pair.\<close>

datatype screen_write = At int int nat string | Here nat string

record ui =
  w_state :: ui_state
  w_offset :: int
  w_max_offset :: int
  w_tree :: "ui_node list \<times> nat list"
  w_setup :: ui_setup
  w_all_cpus :: "cpu_ban list"
  w_all_irqs :: "ui_irq list"
  w_irq_name :: "int \<Rightarrow> string"
  w_rbot :: int
  w_screen :: "screen_write list"
  w_sent :: "string list"
  w_conns :: nat
  w_pipes :: nat

text \<open>
  What surrounds the program: the height of the terminal, the answers of the daemon to a question
  on each connection, whether a command arrives, the lines that the shell command for the names of
  interrupts prints, \<open>g_list_sort\<close>, and what C leaves undefined.
\<close>

record ui_env =
  LINES :: int
  answer :: "string \<Rightarrow> nat \<Rightarrow> string option"
  connects :: "nat \<Rightarrow> bool"
  name_lines :: "nat \<Rightarrow> string list option"
  sort_int :: int_sorter
  sort_cpu :: "(cpu_ban \<Rightarrow> cpu_ban \<Rightarrow> int) \<Rightarrow> cpu_ban list \<Rightarrow> cpu_ban list"
  sort_irq :: "(ui_irq \<Rightarrow> ui_irq \<Rightarrow> int) \<Rightarrow> ui_irq list \<Rightarrow> ui_irq list"
  undef_shift :: "int \<Rightarrow> u32"
  key_code :: "ui_key \<Rightarrow> char"
  behind_input :: string

definition sbind :: "'e + 'a \<Rightarrow> ('a \<Rightarrow> 'e + 'b) \<Rightarrow> 'e + 'b" where
  "sbind x f = (case x of Inl e \<Rightarrow> Inl e | Inr y \<Rightarrow> f y)"

fun foldE :: "('a \<Rightarrow> 'b \<Rightarrow> 'e + 'b) \<Rightarrow> 'a list \<Rightarrow> 'b \<Rightarrow> 'e + 'b" where
  "foldE f [] y = Inr y"
| "foldE f (x # xs) y = sbind (f x y) (foldE f xs)"

definition put :: "screen_write list \<Rightarrow> ui \<Rightarrow> ui" where
  "put ws u = u\<lparr> w_screen := w_screen u @ ws \<rparr>"

section \<open>Talking to the daemon\<close>

text \<open>
  \<open>data[len] = '\0'\<close> comes before the test \<open>len >= default_bufsz\<close>: an answer that fills the buffer ends in a
  write behind it, and trying again with a larger buffer comes too late.
\<close>

definition default_bufsz :: nat where "default_bufsz = 8192"

definition SETUP :: string where "SETUP = ''setup''"
definition STATS :: string where "STATS = ''stats''"

definition get_data :: "ui_env \<Rightarrow> string \<Rightarrow> ui \<Rightarrow> ui_stop + string option \<times> ui" where
  "get_data env question u =
     (let n = w_conns u; u = u\<lparr> w_conns := n + 1 \<rparr>
      in case answer env question n of
           None \<Rightarrow> Inr (None, u)
         | Some data \<Rightarrow> if length data \<ge> default_bufsz then Inl Overrun else Inr (Some data, u))"

definition send_settings :: "ui_env \<Rightarrow> string \<Rightarrow> ui \<Rightarrow> ui" where
  "send_settings env data u =
     (let n = w_conns u; u = u\<lparr> w_conns := n + 1 \<rparr>
      in if connects env n then u\<lparr> w_sent := w_sent u @ [data] \<rparr> else u)"

definition load_setup :: "ui_env \<Rightarrow> ui \<Rightarrow> ui_stop + ui" where
  "load_setup env u = sbind (get_data env SETUP u) (\<lambda>(data, u).
     case parse_setup data (w_setup u) of Inl e \<Rightarrow> Inl (Stopped e) | Inr su \<Rightarrow> Inr (u\<lparr> w_setup := su \<rparr>))"

definition load_tree :: "ui_env \<Rightarrow> ui \<Rightarrow> ui_stop + ui" where
  "load_tree env u = sbind (get_data env STATS u) (\<lambda>(data, u).
     case parse_into_tree (sort_int env) (undef_shift env) data of Inl e \<Rightarrow> Inl (Stopped e) | Inr nt \<Rightarrow> Inr (u\<lparr> w_tree := nt \<rparr>))"

section \<open>The tree\<close>

text \<open>\<open>max_offset -= n; if (max_offset < 0) max_offset = 0;\<close>\<close>

definition clip_max :: "int \<Rightarrow> ui \<Rightarrow> ui" where
  "clip_max n u = u\<lparr> w_max_offset := (if w_max_offset u - n < 0 then 0 else w_max_offset u - n) \<rparr>"

definition append_32 :: "string \<Rightarrow> string \<Rightarrow> string" where
  "append_32 old new = old @ take (31 - length old) new"

definition display_tree_node_irqs :: "ui_env \<Rightarrow> string \<Rightarrow> ui_irq \<Rightarrow> ui \<Rightarrow> ui" where
  "display_tree_node_irqs env indent irq u =
     (let u = (if w_max_offset u \<ge> w_offset u \<and> w_max_offset u - w_offset u < LINES env - 5
               then put [Here 3 (append_32 (CHR 0x09 # ''   '') indent @ ''IRQ '' @ dec_of_nat (unat (of_int (u_vector irq) :: u32)) @
                           '', IRQs since last rebalance '' @ u64_text (u_diff irq) @ [CHR 0x0A])] u
               else u)
      in u\<lparr> w_max_offset := w_max_offset u + 1 \<rparr>)"

text \<open>The indentation of a node of a type (0 to 3).\<close>

definition node_indent :: "nat \<Rightarrow> string" where
  "node_indent ty =
     append_32 (fold (\<lambda>i indent. let indent = append_32 indent ''    '' in if i \<noteq> 3 then append_32 indent ''   '' else indent) [ty..<4] []) '' `--''"

definition node_type_to_str :: "string list" where
  "node_type_to_str = [''CPU'', ''CACHE DOMAIN'', ''CPU PACKAGE'', ''NUMA NODE'']"

definition node_text :: "ui_node \<Rightarrow> string" where
  "node_text node =
     (let ty = unat (n_type node);
          numa_available = (if ty = 3 \<and> n_number node = - 1 then '' (This machine is not NUMA-capable)'' else [])
      in take 1023 (node_indent ty @ node_type_to_str ! ty @ '', number '' @ dec_of_int (n_number node) @ numa_available @
           '', CPU mask '' @ n_cpu_mask node @ [CHR 0x0A]))"

definition node_colour :: "nat \<Rightarrow> nat" where
  "node_colour ty = [1, 2, 8, 9] ! ty"

text \<open>A type beyond the table of names is read behind the table. The fuel is the number of nodes.\<close>

fun display_tree_node :: "nat \<Rightarrow> ui_env \<Rightarrow> ui_node list \<Rightarrow> nat \<Rightarrow> ui \<Rightarrow> ui_stop + ui" where
  "display_tree_node 0 env nodes i u = Inr u"
| "display_tree_node (Suc fuel) env nodes i u =
     (let node = nodes ! i; ty = unat (n_type node)
      in if \<not> ty < 4 then Inl (Stopped Crash)
         else
           let u = (if w_max_offset u \<ge> w_offset u then put [Here (node_colour ty) (node_text node)] u else u);
               u = u\<lparr> w_max_offset := w_max_offset u + 1 \<rparr>;
               u = fold (display_tree_node_irqs env (node_indent ty)) (n_irqs node) u
           in foldE (display_tree_node fuel env nodes) (n_children node) u)"

definition banned_cpus_text :: "int list \<Rightarrow> string" where
  "banned_cpus_text banned =
     (let t = ''Banned CPU numbers: ''
      in if length banned > 0
         then let t = fold (\<lambda>cpu t. append_1024 t (dec_of_int cpu @ '', '')) banned t
              in take (length t - 2) t @ take (1023 - length t) [CHR 0x0A]
         else append_1024 t (''None'' @ [CHR 0x0A]))"

definition display_banned_cpus :: "ui \<Rightarrow> ui" where
  "display_banned_cpus u = put [At 2 5 0 (banned_cpus_text (su_banned_cpus (w_setup u)) @ [CHR 0x0A])] u"

definition display_tree :: "ui_env \<Rightarrow> ui \<Rightarrow> ui_stop + ui" where
  "display_tree env u =
     sbind (load_setup env (u\<lparr> w_screen := [] \<rparr>)) (\<lambda>u.
     sbind (load_tree env u) (\<lambda>u.
     let u = (display_banned_cpus u)\<lparr> w_max_offset := 0 \<rparr>; (nodes, tree) = w_tree u
     in sbind (foldE (display_tree_node (length nodes) env nodes) tree u) (\<lambda>u. Inr (clip_max (LINES env - 5) u))))"

section \<open>The CPUs\<close>

definition cpu_writes :: "int \<Rightarrow> nat \<Rightarrow> cpu_ban \<Rightarrow> screen_write list" where
  "cpu_writes line colour cpu =
     [At line 3 colour (''CPU '' @ dec_of_int (c_number cpu) @ ''     ''),
      At line 19 colour (if c_is_banned cpu then ''YES'' @ [CHR 0x09] else ''NO'' @ [CHR 0x09] @ '' '')]"

definition print_tmp_cpu_line :: "ui_env \<Rightarrow> cpu_ban \<Rightarrow> ui \<Rightarrow> ui" where
  "print_tmp_cpu_line env cpu u =
     (let line = w_max_offset u - w_offset u + 6;
          u = (if w_max_offset u \<ge> w_offset u \<and> line < LINES env - 3
               then put (cpu_writes line (if c_is_changed cpu then 3 else if c_is_banned cpu then 10 else 9) cpu) u else u)
      in u\<lparr> w_max_offset := w_max_offset u + 1 \<rparr>)"

definition print_cpu_line :: "ui_env \<Rightarrow> cpu_ban \<Rightarrow> ui \<Rightarrow> ui" where
  "print_cpu_line env cpu u =
     (let line = w_max_offset u - w_offset u + 6;
          u = (if w_max_offset u \<ge> w_offset u \<and> line < LINES env - 2
               then put (cpu_writes line (if c_is_banned cpu then 10 else 9) cpu) u else u)
      in u\<lparr> w_max_offset := w_max_offset u + 1 \<rparr>)"

definition print_all_cpus :: "ui_env \<Rightarrow> ui \<Rightarrow> ui" where
  "print_all_cpus env u =
     (let u = u\<lparr> w_max_offset := 0, w_all_cpus := list_all_cpus (sort_cpu env) (w_tree u) (w_setup u) (w_all_cpus u) \<rparr>;
          u = put [At 4 3 2 ''NUMBER          IS BANNED''] u
      in clip_max (LINES env - 8) (fold (print_cpu_line env) (w_all_cpus u) u))"

definition sleep_text :: "u64 \<Rightarrow> string" where
  "sleep_text sleep = ''Current sleep interval between rebalancing: '' @ u64_text sleep @ [CHR 0x0A]"

definition settings :: "ui_env \<Rightarrow> ui \<Rightarrow> ui_stop + ui" where
  "settings env u =
     sbind (load_setup env (u\<lparr> w_screen := [] \<rparr>)) (\<lambda>u.
       Inr (print_all_cpus env (put [At 2 3 1 (sleep_text (su_sleep (w_setup u)))] u)))"

text \<open>The redrawing of the dialog after it has scrolled.\<close>

definition redraw_cpus :: "ui_env \<Rightarrow> cpu_ban list \<Rightarrow> ui \<Rightarrow> ui" where
  "redraw_cpus env tmp u = clip_max (LINES env - 9) (fold (print_tmp_cpu_line env) tmp (u\<lparr> w_max_offset := 0 \<rparr>))"

text \<open>
  A dialog handles one key after the other until it is left; a step gives the next state of the
  dialog or the state of the program behind it.
\<close>

fun dialog_loop :: "(ui_key \<Rightarrow> 's \<Rightarrow> ui_stop + ('s + ui)) \<Rightarrow> ui_key list \<Rightarrow> 's \<Rightarrow> ui_stop + ui \<times> ui_key list" where
  "dialog_loop step [] s = Inl Waiting"
| "dialog_loop step (k # keys) s =
     (case step k s of
        Inl e \<Rightarrow> Inl e
      | Inr (Inl s) \<Rightarrow> dialog_loop step keys s
      | Inr (Inr u) \<Rightarrow> Inr (u, keys))"

text \<open>
  \<open>size_t\<close> compared with \<open>(size_t)(LINES - 4)\<close>, and the sum of the \<open>guint\<close> length with \<open>int\<close> numbers, which is
  unsigned.
\<close>

definition above_end :: "ui_env \<Rightarrow> nat \<Rightarrow> bool" where
  "above_end env position \<longleftrightarrow> (if LINES env < 4 then True else int position < LINES env - 4)"

definition cpu_below :: "ui \<Rightarrow> nat \<Rightarrow> bool" where
  "cpu_below u position \<longleftrightarrow> position \<le> unat (of_nat (length (w_all_cpus u)) + 4 - of_int (w_offset u) :: u32)"

text \<open>The dialog's state: the line of the cursor, the copy of the list and the program.\<close>

definition cpu_banning_key :: "ui_env \<Rightarrow> ui_key \<Rightarrow> nat \<times> cpu_ban list \<times> ui \<Rightarrow> ui_stop + (nat \<times> cpu_ban list \<times> ui + ui)" where
  "cpu_banning_key env k = (\<lambda>(position, tmp, u).
     case k of
       KEY_UP \<Rightarrow>
         if position > 6 then Inr (Inl (position - 1, tmp, u))
         else if w_offset u > 0 then Inr (Inl (position, tmp, redraw_cpus env tmp (u\<lparr> w_offset := w_offset u - 1 \<rparr>)))
         else Inr (Inl (position, tmp, u))
     | KEY_DOWN \<Rightarrow>
         if above_end env position
         then Inr (Inl (if cpu_below u position then position + 1 else position, tmp, u))
         else if w_offset u < w_max_offset u
         then Inr (Inl (position, tmp, redraw_cpus env tmp (u\<lparr> w_offset := w_offset u + 1 \<rparr>)))
         else Inr (Inl (position, tmp, u))
     | Enter \<Rightarrow>
         (let cpu = int position + w_offset u - 6
          in case toggle_cpu tmp cpu of
               None \<Rightarrow> Inl (Stopped Crash)
             | Some (banned, tmp) \<Rightarrow>
                 Inr (Inl (position, tmp, put [At (int position) 3 3 (''CPU '' @ dec_of_int cpu @ ''     ''),
                                               At (int position) 19 3 (if banned then ''YES'' else ''NO '')] u)))
     | Escape \<Rightarrow> Inr (Inr (print_all_cpus env u))
     | Key c \<Rightarrow>
         if c = CHR ''s''
         then
           let u = print_all_cpus env (u\<lparr> w_all_cpus := tmp \<rparr>)
           in Inr (Inr (send_settings env (cpu_ban_command (w_all_cpus u)) u))
         else if c = CHR ''q'' then Inl Closed
         else Inr (Inl (position, tmp, u))
     | _ \<Rightarrow> Inr (Inl (position, tmp, u)))"

definition handle_cpu_banning :: "ui_env \<Rightarrow> ui_key list \<Rightarrow> ui \<Rightarrow> ui_stop + ui \<times> ui_key list" where
  "handle_cpu_banning env keys u = dialog_loop (cpu_banning_key env) keys (6, map copy_cpu_ban (w_all_cpus u), u)"

section \<open>The interrupts\<close>

text \<open>
  The names come from a shell command; the first lines up to the offset are skipped, and a line that is
  missing leaves the old name.
\<close>

definition get_irq_name :: "ui_env \<Rightarrow> int \<Rightarrow> ui \<Rightarrow> ui" where
  "get_irq_name env end_line u =
     (let n = w_pipes u; u = u\<lparr> w_pipes := n + 1 \<rparr>
      in case name_lines env n of
           None \<Rightarrow> u
         | Some ls \<Rightarrow>
             let ls = drop (nat (w_offset u + 1)) ls
             in u\<lparr> w_irq_name := (\<lambda>i. if 4 \<le> i \<and> i < end_line \<and> nat (i - 4) < length ls then ls ! nat (i - 4) else w_irq_name u i) \<rparr>)"

definition class_colour :: "int \<Rightarrow> nat" where
  "class_colour c =
     (if c = IRQ_OTHER then 1 else if c = IRQ_LEGACY then 2 else if c = IRQ_SCSI then 3 else if c = IRQ_VIDEO then 8
      else if c = IRQ_ETH \<or> c = IRQ_GBETH \<or> c = IRQ_10GBETH then 9 else if c = IRQ_VIRT_EVENT then 10 else 0)"

definition IRQ_CLASS_TO_STR :: "string list" where
  "IRQ_CLASS_TO_STR = [''Other'', ''Legacy'', ''SCSI'', ''Video'', ''Ethernet'', ''Gigabit Ethernet'', ''10-Gigabit Ethernet'', ''Virt Event'']"

text \<open>The end of both functions that print a line: a class beyond the table of names is read behind the table.\<close>

definition irq_writes :: "string \<Rightarrow> int \<Rightarrow> ui_irq \<Rightarrow> ui \<Rightarrow> ui_stop + ui" where
  "irq_writes first line irq u =
     (let colour = class_colour (u_class irq)
      in if u_class irq \<ge> int (length IRQ_CLASS_TO_STR) then Inl (Stopped Crash)
         else
           let assigned = print_assigned_objects_string (w_rbot u) irq;
               u = (if u_is_banned irq then u else u\<lparr> w_rbot := fst (fold copy_assigned_obj (u_assigned_to irq) (w_rbot u, - 1, [])) \<rparr>)
           in Inr (put ([At line 3 colour first, At line 19 colour (if u_is_banned irq then ''YES'' else ''NO ''),
                         At line 36 colour ((if u_class irq < 0 then ''Unknown'' else IRQ_CLASS_TO_STR ! nat (u_class irq)) @ ''               '')] @
                        (case assigned of None \<Rightarrow> [] | Some t \<Rightarrow> [At line 68 colour (t @ ''             '')]) @
                        [At line 120 colour (w_irq_name u line)]) u))"

definition print_tmp_irq_line :: "ui_env \<Rightarrow> ui_irq \<Rightarrow> ui \<Rightarrow> ui_stop + ui" where
  "print_tmp_irq_line env irq u =
     (let line = w_max_offset u - w_offset u + 4; u = u\<lparr> w_max_offset := w_max_offset u + 1 \<rparr>
      in if line < 4 \<or> line \<ge> LINES env - 3 then Inr u
         else irq_writes (''IRQ '' @ dec_of_int (u_vector irq) @ ''      '') line irq u)"

definition print_irq_line :: "ui_env \<Rightarrow> ui_irq \<Rightarrow> ui \<Rightarrow> ui_stop + ui" where
  "print_irq_line env irq u =
     (let line = w_max_offset u - w_offset u + 4; u = u\<lparr> w_max_offset := w_max_offset u + 1 \<rparr>
      in if line < 4 \<or> line \<ge> LINES env - 2 then Inr u
         else irq_writes (''IRQ '' @ dec_of_int (u_vector irq)) line irq u)"

definition irq_header :: string where
  "irq_header = ''NUMBER          IS BANNED        CLASS      '' @ replicate 3 (CHR 0x09) @
     ''    ASSIGNED TO CPUS                                    IRQ NAME''"

definition print_all_irqs :: "ui_env \<Rightarrow> ui \<Rightarrow> ui_stop + ui" where
  "print_all_irqs env u =
     (let u = put [At 2 3 0 irq_header] (u\<lparr> w_max_offset := 0 \<rparr>);
          u = get_irq_name env (LINES env - 2) u
      in sbind (foldE (print_irq_line env) (w_all_irqs u) u) (\<lambda>u. Inr (clip_max (LINES env - 6) u)))"

definition setup_irqs :: "ui_env \<Rightarrow> ui \<Rightarrow> ui_stop + ui" where
  "setup_irqs env u =
     print_all_irqs env (u\<lparr> w_screen := [], w_all_irqs := sort_irq env sort_all_irqs (get_all_irqs (w_tree u) (w_setup u)) \<rparr>)"

definition redraw_irqs :: "ui_env \<Rightarrow> ui_irq list \<Rightarrow> ui \<Rightarrow> ui_stop + ui" where
  "redraw_irqs env tmp u =
     (let u = get_irq_name env (LINES env - 3) (u\<lparr> w_max_offset := 0 \<rparr>)
      in sbind (foldE (print_tmp_irq_line env) tmp u) (\<lambda>u. Inr (clip_max (LINES env - 7) u)))"

definition irq_banning_key :: "ui_env \<Rightarrow> ui_key \<Rightarrow> nat \<times> ui_irq list \<times> ui \<Rightarrow> ui_stop + (nat \<times> ui_irq list \<times> ui + ui)" where
  "irq_banning_key env k = (\<lambda>(position, tmp, u).
     case k of
       KEY_UP \<Rightarrow>
         if position > 4 then Inr (Inl (position - 1, tmp, u))
         else if w_offset u > 0
         then sbind (redraw_irqs env tmp (u\<lparr> w_offset := w_offset u - 1 \<rparr>)) (\<lambda>u. Inr (Inl (position, tmp, u)))
         else Inr (Inl (position, tmp, u))
     | KEY_DOWN \<Rightarrow>
         if above_end env position
         then Inr (Inl (if position < length (w_all_irqs u) + 3 then position + 1 else position, tmp, u))
         else if w_offset u < w_max_offset u
         then sbind (redraw_irqs env tmp (u\<lparr> w_offset := w_offset u + 1 \<rparr>)) (\<lambda>u. Inr (Inl (position, tmp, u)))
         else Inr (Inl (position, tmp, u))
     | Enter \<Rightarrow>
         (let (banned, tmp) = toggle_irq tmp (int position + w_offset u - 4)
          in Inr (Inl (position, tmp, put [At (int position) 19 3 (if banned \<noteq> 0 then ''YES'' else ''NO '')] u)))
     | Escape \<Rightarrow> sbind (print_all_irqs env u) (\<lambda>u. Inr (Inr u))
     | Key c \<Rightarrow>
         if c = CHR ''s''
         then sbind (print_all_irqs env (u\<lparr> w_all_irqs := tmp \<rparr>)) (\<lambda>u. Inr (Inr (send_settings env (irq_ban_command (w_all_irqs u)) u)))
         else if c = CHR ''q'' then Inl Closed
         else Inr (Inl (position, tmp, u))
     | _ \<Rightarrow> Inr (Inl (position, tmp, u)))"

definition handle_irq_banning :: "ui_env \<Rightarrow> ui_key list \<Rightarrow> ui \<Rightarrow> ui_stop + ui \<times> ui_key list" where
  "handle_irq_banning env keys u = dialog_loop (irq_banning_key env) keys (4, map copy_irq (w_all_irqs u), u)"

section \<open>The keys\<close>

definition scroll_window :: "ui_env \<Rightarrow> ui \<Rightarrow> ui_stop + ui" where
  "scroll_window env u =
     (case w_state u of STATE_TREE \<Rightarrow> display_tree env u | STATE_SETTINGS \<Rightarrow> settings env u | STATE_SETUP_IRQS \<Rightarrow> setup_irqs env u)"

definition rescan_tree :: "ui_env \<Rightarrow> ui \<Rightarrow> ui_stop + ui" where
  "rescan_tree env u =
     sbind (load_setup env u) (\<lambda>u. sbind (load_tree env u) (\<lambda>u. if w_state u = STATE_TREE then display_tree env u else Inr u))"

text \<open>The lines of a page of each window.\<close>

definition page :: "ui_env \<Rightarrow> ui_state \<Rightarrow> int" where
  "page env st = (case st of STATE_TREE \<Rightarrow> LINES env - 5 | STATE_SETTINGS \<Rightarrow> LINES env - 8 | STATE_SETUP_IRQS \<Rightarrow> LINES env - 6)"

definition sleep_dialog :: "ui_env \<Rightarrow> ui_key list \<Rightarrow> ui \<Rightarrow> ui_stop + ui \<times> ui_key list" where
  "sleep_dialog env keys u =
     sbind (handle_sleep_setting (key_code env) (behind_input env) keys (w_setup u)) (\<lambda>(cmd, su, keys).
       Inr (case cmd of None \<Rightarrow> u | Some cmd \<Rightarrow> send_settings env cmd (u\<lparr> w_setup := su \<rparr>), keys))"

text \<open>What one key does in the window, with the keys that a dialog takes from the rest.\<close>

definition handle_key :: "ui_env \<Rightarrow> ui_key \<Rightarrow> ui_key list \<Rightarrow> ui \<Rightarrow> ui_stop + ui \<times> ui_key list" where
  "handle_key env k keys u =
     (let stay = (\<lambda>x. sbind x (\<lambda>u. Inr (u, keys)))
      in case k of
           KEY_UP \<Rightarrow> if w_offset u > 0 then stay (scroll_window env (u\<lparr> w_offset := w_offset u - 1 \<rparr>)) else Inr (u, keys)
         | KEY_DOWN \<Rightarrow>
             if w_offset u < w_max_offset u then stay (scroll_window env (u\<lparr> w_offset := w_offset u + 1 \<rparr>)) else Inr (u, keys)
         | KEY_NPAGE \<Rightarrow>
             (let offset = w_offset u + page env (w_state u); offset = (if offset > w_max_offset u then w_max_offset u else offset)
              in stay (scroll_window env (u\<lparr> w_offset := offset \<rparr>)))
         | KEY_PPAGE \<Rightarrow>
             (let offset = w_offset u - page env (w_state u); offset = (if offset < 0 then 0 else offset)
              in stay (scroll_window env (u\<lparr> w_offset := offset \<rparr>)))
         | KEY_F3 \<Rightarrow> if w_state u \<noteq> STATE_TREE then stay (display_tree env (u\<lparr> w_state := STATE_TREE, w_offset := 0 \<rparr>)) else Inr (u, keys)
         | KEY_F4 \<Rightarrow>
             stay (sbind (if w_state u \<noteq> STATE_SETTINGS then settings env (u\<lparr> w_state := STATE_SETTINGS, w_offset := 0 \<rparr>) else Inr u)
               (settings env))
         | KEY_F5 \<Rightarrow>
             if w_state u \<noteq> STATE_SETUP_IRQS then stay (setup_irqs env (u\<lparr> w_state := STATE_SETUP_IRQS, w_offset := 0 \<rparr>)) else Inr (u, keys)
         | Key c \<Rightarrow>
             if c = CHR ''q'' then Inl Closed
             else if c = CHR ''c'' \<and> w_state u = STATE_SETTINGS then handle_cpu_banning env keys u
             else if c = CHR ''i'' \<and> w_state u = STATE_SETUP_IRQS then handle_irq_banning env keys u
             else if c = CHR ''s'' \<and> w_state u = STATE_SETTINGS then sleep_dialog env keys u
             else Inr (u, keys)
         | _ \<Rightarrow> Inr (u, keys))"

lemma dialog_shorter: "dialog_loop step keys s = Inr (u, rest) \<Longrightarrow> length rest < length keys"
  by (induction keys arbitrary: s) (auto split: sum.splits intro: less_SucI)

lemma handle_key_rest: "handle_key env k keys u = Inr (u', rest) \<Longrightarrow> length rest \<le> length keys"
  by (auto simp: handle_key_def handle_cpu_banning_def handle_irq_banning_def sleep_dialog_def handle_sleep_setting_def sbind_def Let_def
      split: ui_key.splits if_splits sum.splits option.splits prod.splits dest: dialog_shorter valid_sleep_shorter)

text \<open>\<open>while (1)\<close>: the loop goes on until it is stopped; without a key it waits in the window.\<close>

function key_loop :: "ui_env \<Rightarrow> ui_key list \<Rightarrow> ui \<Rightarrow> ui_stop + ui" where
  "key_loop env [] u = Inr u"
| "key_loop env (k # keys) u = (case handle_key env k keys u of Inl e \<Rightarrow> Inl e | Inr (u, keys) \<Rightarrow> key_loop env keys u)"
  by pat_completeness auto
termination
  by (relation "measure (\<lambda>(_, keys, _). length keys)") (auto dest: handle_key_rest)

section \<open>Starting\<close>

text \<open>
  \<open>main\<close>: which process is the daemon. \<open>cmdline\<close> gives for a directory of \<open>/proc\<close> what \<open>fgets\<close> reads: no file,
  or the new contents of the buffer, which stay the old ones at the end of the file. The search ends with the
  first directory that gives a number other than -1.
\<close>

fun find_daemon :: "(string \<Rightarrow> string option option) \<Rightarrow> string list \<Rightarrow> string \<Rightarrow> int \<Rightarrow> int" where
  "find_daemon cmdline [] cmdstring irqbalance_pid = irqbalance_pid"
| "find_daemon cmdline (d # ds) cmdstring irqbalance_pid =
     (if irqbalance_pid \<noteq> - 1 then irqbalance_pid
      else case cmdline d of
        None \<Rightarrow> find_daemon cmdline ds cmdstring irqbalance_pid
      | Some line \<Rightarrow>
          let cmdstring = (case line of None \<Rightarrow> cmdstring | Some t \<Rightarrow> t);
              irqbalance_pid = (if strstr cmdstring ''irqbalance'' \<and> \<not> strstr cmdstring ''irqbalance-ui''
                                then int_of_long (fst (strtol 10 d)) else irqbalance_pid)
          in find_daemon cmdline ds cmdstring irqbalance_pid)"

text \<open>The process, or None where \<open>main\<close> returns an error.\<close>

definition daemon_pid :: "nat \<Rightarrow> string option \<Rightarrow> (string \<Rightarrow> string option option) \<Rightarrow> string list option \<Rightarrow> string \<Rightarrow> int option" where
  "daemon_pid uid arg cmdline proc cmdstring =
     (if uid \<noteq> 0 then None
      else case arg of
        Some a \<Rightarrow> (let pid = int_of_long (fst (strtol 10 a)) in if pid = 0 then None else Some pid)
      | None \<Rightarrow>
          (let pid = (case proc of None \<Rightarrow> - 1 | Some ds \<Rightarrow> find_daemon cmdline ds cmdstring (- 1))
           in if pid = - 1 then None else Some pid))"

text \<open>\<open>init\<close>: the first window.\<close>

definition initial_ui :: ui where
  "initial_ui = \<lparr> w_state = STATE_TREE, w_offset = 0, w_max_offset = 0, w_tree = ([], []),
     w_setup = \<lparr> su_sleep = 0, su_banned_irqs = [], su_banned_cpus = [] \<rparr>, w_all_cpus = [], w_all_irqs = [], w_irq_name = (\<lambda>_. []),
     w_rbot = 0, w_screen = [], w_sent = [], w_conns = 0, w_pipes = 0 \<rparr>"

definition ui_init :: "ui_env \<Rightarrow> ui_stop + ui" where
  "ui_init env = display_tree env (initial_ui\<lparr> w_offset := 0 \<rparr>)"

end
