(* ===== verification/Ui_Replies.thy ===== *)
theory Ui_Replies
  imports Ui
begin

text \<open>
  The replies of the daemon as the user interface reads them: the statistics are read back field by
  field, and for which topologies the tree is rebuilt as it was.
\<close>

section \<open>Words and blanks\<close>

definition word_ok :: "string \<Rightarrow> bool" where
  "word_ok w \<longleftrightarrow> w \<noteq> [] \<and> CHR '' '' \<notin> set w"

definition spaced :: "string list \<Rightarrow> string" where
  "spaced ws = concat (map (\<lambda>w. w @ '' '') ws)"

lemma spaced_append: "spaced (ws @ vs) = spaced ws @ spaced vs"
  by (simp add: spaced_def)

lemma tokens_Nil [simp]: "tokens [] = []"
  by (subst tokens.simps) (simp add: strtok_def)

lemma tokens_word:
  assumes "word_ok w"
  shows "tokens (w @ CHR '' '' # rest) = w # tokens rest"
proof -
  have "dropWhile (\<lambda>c. c = CHR '' '') (w @ CHR '' '' # rest) = w @ CHR '' '' # rest"
    using assms by (cases w) (auto simp: word_ok_def)
  moreover have nb: "c \<noteq> CHR '' ''" if "c \<in> set w" for c using assms that by (auto simp: word_ok_def)
  have "takeWhile (\<lambda>c. c \<noteq> CHR '' '') (w @ CHR '' '' # rest) = w"
    "dropWhile (\<lambda>c. c \<noteq> CHR '' '') (w @ CHR '' '' # rest) = CHR '' '' # rest"
    using takeWhile_append2 [of w "\<lambda>c. c \<noteq> CHR '' ''"] dropWhile_append2 [of w "\<lambda>c. c \<noteq> CHR '' ''"] nb by simp_all
  ultimately have "strtok (w @ CHR '' '' # rest) = Some (w, rest)" by (simp add: strtok_def)
  then show ?thesis by (subst tokens.simps) simp
qed

lemma strtok_word:
  assumes "word_ok w"
  shows "strtok w = Some (w, [])"
proof -
  have 1: "dropWhile (\<lambda>c. c = CHR '' '') w = w" using assms by (cases w) (auto simp: word_ok_def)
  have 2: "takeWhile (\<lambda>c. c \<noteq> CHR '' '') w = w" and 3: "dropWhile (\<lambda>c. c \<noteq> CHR '' '') w = []"
    unfolding takeWhile_eq_all_conv dropWhile_eq_Nil_conv using assms by (auto simp: word_ok_def)
  show ?thesis using assms unfolding strtok_def Let_def 1 2 3 by (simp add: word_ok_def)
qed

lemma tokens_last: "word_ok w \<Longrightarrow> tokens w = [w]"
  by (subst tokens.simps) (simp add: strtok_word)

lemma tokens_spaced: "\<forall>w \<in> set ws. word_ok w \<Longrightarrow> tokens (spaced ws @ rest) = ws @ tokens rest"
  by (induction ws) (simp_all add: spaced_def tokens_word)

section \<open>Numbers\<close>

lemma dec_digit_not_blank: "d < 10 \<Longrightarrow> dec_digit d \<noteq> CHR '' ''"
  using dec_digit_class(2) [of d] by (auto simp: isspace_def)

lemma word_ok_dec_of_nat: "word_ok (dec_of_nat v)"
  using dec_digits_props(1) [of _ v] dec_digits_props(2) [of v] dec_digit_not_blank
  by (fastforce simp: word_ok_def dec_of_nat_def)

lemma word_ok_dec_of_int: "word_ok (dec_of_int i)"
  using word_ok_dec_of_nat by (auto simp: dec_of_int_def word_ok_def)

lemma starts_dec: "starts_with_digit 10 (dec_of_nat v @ rest)"
proof -
  obtain d ds where ds: "dec_digits v = d # ds" using dec_digits_props(2) [of v] by (cases "dec_digits v") auto
  then have "d < 10" using dec_digits_props(1) [of d v] by simp
  from dec_digit_class(1) [OF this] ds show ?thesis by (simp add: starts_with_digit_def dec_of_nat_def digit_val_def)
qed

lemma read_digits_dec: "\<not> starts_with_digit 10 rest \<Longrightarrow> read_digits 10 (dec_of_nat v @ rest) 0 = (v, rest)"
  using read_digits_append [of "dec_digits v" rest 0] dec_digits_props by (simp add: dec_of_nat_def)

lemma read_number_rest:
  assumes "\<not> starts_with_digit 10 rest"
  shows "read_number 10 (dec_of_nat v @ rest) = Some (False, v, rest)"
proof -
  obtain d ds where ds: "dec_digits v = d # ds" using dec_digits_props(2) [of v] by (cases "dec_digits v") auto
  have d: "d < 10" using dec_digits_props(1) [of d v] ds by simp
  note cl = dec_digit_class [OF d]
  have "dec_digit d \<noteq> CHR ''+''" using cl(1) by (auto simp: isdigit_def)
  then show ?thesis using cl(2,5) ds starts_dec [of v rest] read_digits_dec [OF assms, of v]
    by (simp add: read_number_def dec_of_nat_def)
qed

lemma read_number_dec: "read_number 10 (dec_of_nat v) = Some (False, v, [])"
  using read_number_rest [of "[]" v] by (simp add: starts_with_digit_def)

lemma strtol_dec_of_nat: "v < 2 ^ 63 \<Longrightarrow> strtol 10 (dec_of_nat v) = (int v, [])"
  by (simp add: strtol_def read_number_dec)

lemma read_number_minus: "read_number 10 (CHR ''-'' # dec_of_nat v) = Some (True, v, [])"
  using starts_dec [of v "[]"] read_digits_dec [of "[]" v] by (simp add: read_number_def isspace_def starts_with_digit_def)

lemma strtol_dec_of_int:
  assumes "in_int i"
  shows "strtol 10 (dec_of_int i) = (i, [])"
proof (cases "i < 0")
  case True
  with assms show ?thesis by (simp add: strtol_def dec_of_int_def read_number_minus in_int_def)
next
  case False
  with assms show ?thesis by (simp add: strtol_def dec_of_int_def read_number_dec in_int_def)
qed

section \<open>The words of an entry\<close>

definition irq_words :: "irq_info \<Rightarrow> string list" where
  "irq_words i = [''IRQ'', dec_of_int (i_irq i), ''LOAD'', u64_text (i_load i), ''DIFF'',
     u64_text (i_irq_count i - i_last_irq_count i), ''CLASS'', dec_of_int (i_class i)]"

definition entry_words :: "state \<Rightarrow> obj_ref \<Rightarrow> string list" where
  "entry_words s d = [''TYPE'', dec_of_nat (obj_type_value (t_obj_type (objs s d))), ''NUMBER'', dec_of_int (t_number (objs s d)),
     ''LOAD'', u64_text (t_load (objs s d)), ''SAVE_MODE'', if t_powersave_mode (objs s d) then ''1'' else ''0''] @
     concat (map (\<lambda>r. irq_words (irqs s r)) (t_interrupts (objs s d)))"

lemma irq_text_spaced: "irq_text i = spaced (irq_words i)"
  by (simp add: irq_text_def irq_words_def spaced_def)

lemma entry_text_spaced: "entry_text s d = spaced (entry_words s d)"
proof -
  have "irqs_text s rs = spaced (concat (map (\<lambda>r. irq_words (irqs s r)) rs))" for rs
    by (induction rs) (simp_all add: irqs_text_def irq_text_spaced spaced_append, simp_all add: spaced_def)
  then show ?thesis by (simp add: entry_text_def obj_text_def entry_words_def spaced_def)
qed

lemma words_ok: "w \<in> set (irq_words i) \<Longrightarrow> word_ok w" "w \<in> set (entry_words s d) \<Longrightarrow> word_ok w"
proof -
  have irq: "word_ok w" if "w \<in> set (irq_words i)" for w i
    using that word_ok_dec_of_nat word_ok_dec_of_int by (auto simp: irq_words_def u64_text_def word_ok_def)
  then show "w \<in> set (irq_words i) \<Longrightarrow> word_ok w" .
  show "word_ok w" if "w \<in> set (entry_words s d)"
  proof (cases "\<exists>r. w \<in> set (irq_words (irqs s r))")
    case False
    then show ?thesis using that word_ok_dec_of_nat word_ok_dec_of_int
      by (auto simp: entry_words_def u64_text_def word_ok_def split: if_splits)
  qed (use irq in blast)
qed

lemma tokens_entries: "tokens (entries_text s ds) = concat (map (entry_words s) ds)"
proof -
  have "entries_text s ds = spaced (concat (map (entry_words s) ds))"
    by (induction ds) (simp_all add: entries_text_def entry_text_spaced spaced_append, simp_all add: spaced_def)
  then show ?thesis using tokens_spaced [of "concat (map (entry_words s) ds)" "[]"] words_ok(2) by fastforce
qed

section \<open>Parsing the words\<close>

definition loads_ok :: "state \<Rightarrow> bool" where
  "loads_ok s \<longleftrightarrow> (\<forall>r. unat (i_load (irqs s r)) < 2 ^ 63 \<and> unat (i_irq_count (irqs s r) - i_last_irq_count (irqs s r)) < 2 ^ 63) \<and>
     (\<forall>d. unat (t_load (objs s d)) < 2 ^ 63)"

definition ui_irq_of :: "bool \<Rightarrow> irq_info \<Rightarrow> ui_irq" where
  "ui_irq_of banned i = \<lparr> u_vector = i_irq i, u_load = i_load i, u_diff = i_irq_count i - i_last_irq_count i, u_is_banned = banned,
     u_is_changed = False, u_assigned_to = [], u_class = i_class i \<rparr>"

definition ui_node_of :: "state \<Rightarrow> obj_ref \<Rightarrow> ui_node" where
  "ui_node_of s d = \<lparr> n_type = of_nat (obj_type_value (t_obj_type (objs s d))), n_number = t_number (objs s d),
     n_load = t_load (objs s d), n_is_powersave = (if t_powersave_mode (objs s d) then 1 else 0), n_parent = None,
     n_children = [], n_irqs = map (\<lambda>r. ui_irq_of False (irqs s r)) (t_interrupts (objs s d)), n_cpu_list = [], n_cpu_mask = [] \<rparr>"

lemma int_of_long_id:
  assumes "in_int i"
  shows "int_of_long i = i"
proof -
  have "(ucast (of_int i :: u64) :: u32) = of_int i" unfolding unsigned_of_int by transfer simp
  then have "int_of_long i = signed_take_bit 31 i" by (simp add: int_of_long_def int_of_u64_def sint_sbintrunc')
  also have "\<dots> = i" using assms by (simp add: signed_take_bit_int_eq_self in_int_def)
  finally show ?thesis .
qed

lemma take_field_word: "take_field key (key # v # rest) = Inr (fst (strtol 10 v), rest)"
  by (simp add: take_field_def g_str_has_prefix_def)

lemma strtol_u64_text: "unat w < 2 ^ 63 \<Longrightarrow> strtol 10 (u64_text w) = (int (unat w), [])"
  by (simp add: u64_text_def strtol_dec_of_nat)

lemma parse_irqs_words:
  assumes "\<forall>i \<in> set is. in_int (i_irq i) \<and> in_int (i_class i) \<and> unat (i_load i) < 2 ^ 63 \<and> unat (i_irq_count i - i_last_irq_count i) < 2 ^ 63"
    and "rest = [] \<or> \<not> g_str_has_prefix (hd rest) ''IRQ''"
  shows "parse_irqs b (concat (map irq_words is) @ rest) = Inr (map (ui_irq_of b) is, rest)"
  using assms(1)
proof (induction "is")
  case Nil
  then show ?case using assms(2) by (subst parse_irqs.simps) auto
next
  case (Cons i "is")
  then have "in_int (i_irq i)" "in_int (i_class i)" "unat (i_load i) < 2 ^ 63" "unat (i_irq_count i - i_last_irq_count i) < 2 ^ 63" by simp_all
  then show ?case using Cons
    by (subst parse_irqs.simps)
      (simp add: irq_words_def [of i] take_field_word strtol_dec_of_int strtol_u64_text int_of_long_id ui_irq_of_def [of b i] g_str_has_prefix_def)
qed

fun build :: "ui_node list \<Rightarrow> nat option \<Rightarrow> ui_node list \<times> nat list \<Rightarrow> ui_error + ui_node list \<times> nat list" where
  "build [] parent nt = Inr nt"
| "build (new # news) parent nt =
     (case choose_parent (n_type new) parent (fst nt) of Inl e \<Rightarrow> Inl e | Inr parent \<Rightarrow>
        build news (if n_type new \<noteq> 0 then Some (length (fst nt)) else parent) (attach_node new parent nt))"

lemma parse_nodes_words:
  assumes "ints_ok s" "loads_ok s"
  shows "parse_nodes (concat (map (entry_words s) ds)) parent nt = build (map (ui_node_of s) ds) parent nt"
proof (induction ds arbitrary: parent nt)
  case Nil
  then show ?case by (subst parse_nodes.simps) simp
next
  case (Cons d ds)
  let ?o = "objs s d" let ?rest = "concat (map (entry_words s) ds)"
  have ok: "in_int (t_number ?o)" "unat (t_load ?o) < 2 ^ 63" using assms by (simp_all add: ints_ok_def loads_ok_def)
  have ty: "strtol 10 (dec_of_nat (obj_type_value (t_obj_type ?o))) = (int (obj_type_value (t_obj_type ?o)), [])"
    by (rule strtol_dec_of_nat) (cases "t_obj_type ?o", simp_all)
  have sv: "fst (strtol 10 ''1'') = 1" "fst (strtol 10 ''0'') = 0" "int_of_long 1 = 1" "int_of_long 0 = 0"
    using strtol_dec_of_nat [of 1] strtol_dec_of_nat [of 0] int_of_long_id [of 1] int_of_long_id [of 0]
    by (simp_all add: dec_of_nat_def dec_digits.simps dec_digit_def in_int_def)
  have "?rest = [] \<or> \<not> g_str_has_prefix (hd ?rest) ''IRQ''" by (cases ds) (simp_all add: entry_words_def g_str_has_prefix_def)
  from parse_irqs_words [OF _ this, of "map (irqs s) (t_interrupts ?o)" False] assms
  have pi: "parse_irqs False (concat (map (\<lambda>r. irq_words (irqs s r)) (t_interrupts ?o)) @ ?rest)
      = Inr (map (\<lambda>r. ui_irq_of False (irqs s r)) (t_interrupts ?o), ?rest)"
    by (auto simp: ints_ok_def loads_ok_def comp_def)
  show ?case
    by (subst parse_nodes.simps)
      (simp add: entry_words_def take_field_word ty sv pi strtol_dec_of_int [OF ok(1)] strtol_u64_text [OF ok(2)] Cons.IH
        int_of_long_id [OF ok(1)] ui_node_of_def [of s d] Let_def split: sum.split)
qed

section \<open>The fields\<close>

definition node_fields :: "ui_node \<Rightarrow> ui_node" where
  "node_fields n = n\<lparr> n_parent := None, n_children := [], n_cpu_list := [], n_cpu_mask := [],
     n_irqs := map (u_assigned_to_update (\<lambda>_. [])) (n_irqs n) \<rparr>"

lemma attach_fields: "map node_fields (fst (attach_node new p nt)) = map node_fields (fst nt) @ [node_fields new]"
proof -
  have "map node_fields (ns[i := (ns ! i)\<lparr> n_children := cs \<rparr>]) = map node_fields (ns[i := ns ! i])" for ns i cs
    unfolding map_update by (simp add: node_fields_def)
  moreover have "node_fields (new\<lparr> n_parent := q \<rparr>) = node_fields new" for q by (simp add: node_fields_def)
  ultimately show ?thesis by (simp add: attach_node_def case_prod_beta split: option.split)
qed

lemma build_fields: "build news parent nt = Inr nt' \<Longrightarrow> map node_fields (fst nt') = map node_fields (fst nt) @ map node_fields news"
proof (induction news arbitrary: parent nt)
  case (Cons new news)
  then show ?case by (auto split: sum.splits simp: attach_fields)
qed simp

text \<open>Every node but the topmost ones has a parent, so the parser always finds one to go up to.\<close>

definition has_parents :: "ui_node list \<Rightarrow> bool" where
  "has_parents nodes \<longleftrightarrow> (\<forall>i < length nodes. n_type (nodes ! i) = UI_TYPE_NODE \<or> (\<exists>p < length nodes. n_parent (nodes ! i) = Some p))"

lemma attach_has_parents:
  assumes "has_parents nodes" "p = None \<longrightarrow> n_type new = UI_TYPE_NODE" "\<forall>q. p = Some q \<longrightarrow> q < length nodes"
  shows "has_parents (fst (attach_node new p (nodes, tree)))" "length (fst (attach_node new p (nodes, tree))) = Suc (length nodes)"
  using assms by (auto simp: has_parents_def attach_node_def nth_append nth_list_update less_Suc_eq split: option.split)

lemma build_defined:
  assumes "\<forall>n \<in> set news. n_type n \<le> UI_TYPE_NODE" "has_parents (fst nt)"
    and "(case parent of Some p \<Rightarrow> p < length (fst nt) | None \<Rightarrow> news = [] \<or> n_type (hd news) = UI_TYPE_NODE)"
  shows "\<exists>nt'. build news parent nt = Inr nt'"
  using assms
proof (induction news arbitrary: parent nt)
  case (Cons new news)
  obtain nodes tree where nt: "nt = (nodes, tree)" by fastforce
  have "\<exists>q. choose_parent (n_type new) parent nodes = Inr q \<and> (q = None \<longrightarrow> n_type new = UI_TYPE_NODE) \<and> (\<forall>p. q = Some p \<longrightarrow> p < length nodes)"
  proof (cases "n_type new = UI_TYPE_NODE")
    case False
    with Cons.prems(3) obtain p where p: "parent = Some p" "p < length nodes" by (cases parent) (simp_all add: nt)
    show ?thesis
    proof (cases "n_type (nodes ! p) \<le> n_type new")
      case True
      have "n_type (nodes ! p) \<noteq> UI_TYPE_NODE" using True False Cons.prems(1) by (auto dest: order.antisym)
      with Cons.prems(2) p obtain q where "n_parent (nodes ! p) = Some q" "q < length nodes" by (auto simp: has_parents_def nt)
      then show ?thesis using True False p by (simp add: choose_parent_def)
    next
      case less: False
      then show ?thesis using False p by (simp add: choose_parent_def)
    qed
  qed (simp add: choose_parent_def)
  then obtain q where q: "choose_parent (n_type new) parent nodes = Inr q" "q = None \<longrightarrow> n_type new = UI_TYPE_NODE"
    "\<forall>p. q = Some p \<longrightarrow> p < length nodes" by blast
  note at = attach_has_parents [of nodes q new tree]
  let ?parent = "if n_type new \<noteq> 0 then Some (length nodes) else q"
  have "q \<noteq> None \<or> n_type new \<noteq> 0" using q(2) by auto
  then have "case ?parent of Some p \<Rightarrow> p < length (fst (attach_node new q nt)) | None \<Rightarrow> news = [] \<or> n_type (hd news) = UI_TYPE_NODE"
    using q(3) at Cons.prems(2) q(2) by (auto simp: nt split: option.split)
  then have "\<exists>nt'. build news ?parent (attach_node new q nt) = Inr nt'"
    by (rule Cons.IH [rotated 2]) (use at Cons.prems q in \<open>simp_all add: nt\<close>)
  then show ?case using q(1) by (cases "n_type new = 0") (simp_all add: nt)
qed simp

lemma type_words: "(of_nat (obj_type_value t) :: u32) \<le> UI_TYPE_NODE" "(of_nat (obj_type_value t) :: u32) = UI_TYPE_NODE \<longleftrightarrow> t = OBJ_TYPE_NODE"
  by (cases t; simp)+

lemma walk_all_first:
  assumes "topo_inv {} s" "walk_all s \<noteq> []"
  shows "t_obj_type (objs s (hd (walk_all s))) = OBJ_TYPE_NODE"
proof -
  obtain n ns where ns: "numa_nodes s = n # ns" using assms(2) by (cases "numa_nodes s") (auto simp: walk_all_def)
  obtain m where m: "TOPO_DEPTH = Suc m" by (cases TOPO_DEPTH) (simp_all add: TOPO_DEPTH_def)
  have "hd (walk_all s) = n" by (simp add: walk_all_def ns m)
  then show ?thesis using topo_invD(1) [OF assms(1), of n OBJ_TYPE_NODE] ns by simp
qed

lemma stats_parsed:
  assumes "topo_inv {} s" "ints_ok s" "loads_ok s"
  shows "\<exists>nodes tree. parse_nodes (tokens (entries_text s (walk_all s))) None ([], []) = Inr (nodes, tree)
    \<and> build (map (ui_node_of s) (walk_all s)) None ([], []) = Inr (nodes, tree)
    \<and> map node_fields nodes = map (ui_node_of s) (walk_all s)"
proof -
  let ?news = "map (ui_node_of s) (walk_all s)"
  have "\<exists>nt. build ?news None ([], []) = Inr nt"
  proof (rule build_defined)
    show "\<forall>n \<in> set ?news. n_type n \<le> UI_TYPE_NODE" using type_words(1) by (auto simp: ui_node_of_def)
    show "case None of Some p \<Rightarrow> p < length (fst ([] :: ui_node list, [] :: nat list)) | None \<Rightarrow> ?news = [] \<or> n_type (hd ?news) = UI_TYPE_NODE"
    proof (cases "walk_all s = []")
      case False
      with walk_all_first [OF assms(1)] show ?thesis by (simp add: hd_map ui_node_of_def)
    qed simp
  qed (simp add: has_parents_def)
  then obtain nodes tree where b: "build ?news None ([], []) = Inr (nodes, tree)" by fastforce
  have "map node_fields ?news = ?news" by (simp add: node_fields_def ui_node_of_def ui_irq_of_def)
  with build_fields [OF b] b show ?thesis by (simp add: tokens_entries parse_nodes_words [OF assms(2,3)])
qed

text \<open>The lists and masks of CPUs are added without changing the rest.\<close>

lemma map_nth_update:
  assumes "\<And>n. h (f n) = h n"
  shows "map h (nodes[i := f (nodes ! i)]) = map h nodes"
proof -
  have "map h (nodes[i := f (nodes ! i)]) = map h (nodes[i := nodes ! i])" unfolding map_update by (simp add: assms)
  then show ?thesis by simp
qed

lemma assign_keeps:
  assumes h: "\<And>x l. h (x\<lparr> n_cpu_list := l \<rparr>) = h x" "\<And>x m. h (x\<lparr> n_cpu_mask := m \<rparr>) = h x"
    "\<And>x l. h (x\<lparr> n_irqs := map (copy_cpu_list_to_irq g l) (n_irqs x) \<rparr>) = h x"
  shows "map h (assign_cpu_lists n g i nodes) = map h nodes" "map h (assign_cpu_mask n u i nodes) = map h nodes"
proof -
  have assigned: "map h (ns[i := (ns ! i)\<lparr> n_irqs := map (copy_cpu_list_to_irq g (n_cpu_list (ns ! i))) (n_irqs (ns ! i)) \<rparr>]) = map h ns" for ns i
    by (rule map_nth_update [where f = "\<lambda>x. x\<lparr> n_irqs := map (copy_cpu_list_to_irq g (n_cpu_list x)) (n_irqs x) \<rparr>"]) (rule h)
  have lists: "map h (ns[i := (ns ! i)\<lparr> n_cpu_list := l \<rparr>]) = map h ns" for ns i l
    by (rule map_nth_update [where f = "\<lambda>x. x\<lparr> n_cpu_list := l \<rparr>"]) (rule h)
  have masks: "map h (ns[i := (ns ! i)\<lparr> n_cpu_mask := m \<rparr>]) = map h ns" for ns i m
    by (rule map_nth_update [where f = "\<lambda>x. x\<lparr> n_cpu_mask := m \<rparr>"]) (rule h)
  show "map h (assign_cpu_lists n g i nodes) = map h nodes"
  proof (induction n arbitrary: i nodes)
    case (Suc n)
    have "map h (fold (assign_cpu_lists n g) cs nodes) = map h nodes" for cs by (rule fold_unchanged) (rule Suc)
    then show ?case unfolding assign_cpu_lists.simps Let_def assigned by (simp add: lists)
  qed simp
  show "map h (assign_cpu_mask n u i nodes) = map h nodes"
  proof (induction n arbitrary: i nodes)
    case (Suc n)
    have "map h (fold (assign_cpu_mask n u) cs ns) = map h ns" for cs ns by (rule fold_unchanged) (rule Suc)
    then show ?case by (simp add: masks)
  qed simp
qed

definition links :: "ui_node \<Rightarrow> u32 \<times> nat option" where
  "links n = (n_type n, n_parent n)"

lemma parse_into_tree_keeps:
  assumes p: "parse_nodes (tokens txt) None ([], []) = Inr (nodes, tree)" and "txt \<noteq> []"
  shows "\<exists>nodes'. parse_into_tree g_list_sort undef (Some txt) = Inr (nodes', tree) \<and> map node_fields nodes' = map node_fields nodes \<and>
    map links nodes' = map links nodes"
proof -
  let ?nodes = "fold (assign_cpu_mask (length (fold (assign_cpu_lists (length nodes) g_list_sort) tree nodes)) undef) tree
    (fold (assign_cpu_lists (length nodes) g_list_sort) tree nodes)"
  have "map node_fields ?nodes = map node_fields nodes"
    by (rule trans; rule fold_unchanged; rule assign_keeps) (simp_all add: node_fields_def copy_cpu_list_to_irq_def comp_def)
  moreover have "map links ?nodes = map links nodes" by (rule trans; rule fold_unchanged; rule assign_keeps) (simp_all add: links_def)
  moreover obtain c cs where "txt = c # cs" using assms(2) by (cases "txt") auto
  then have "parse_into_tree g_list_sort undef (Some txt) = Inr (?nodes, tree)" using p by (simp add: parse_into_tree_def Let_def)
  ultimately show ?thesis by blast
qed

lemma entries_text_nonempty:
  assumes "numa_nodes s \<noteq> []"
  shows "entries_text s (walk_all s) \<noteq> []"
proof -
  obtain m where m: "TOPO_DEPTH = Suc m" by (cases TOPO_DEPTH) (simp_all add: TOPO_DEPTH_def)
  show ?thesis using assms
    by (cases "numa_nodes s") (simp_all add: walk_all_def m entries_text_def entry_text_spaced entry_words_def spaced_def)
qed

section \<open>The shape of the tree\<close>

text \<open>
  The topologies for which going up one level is enough: the children of an object are of one type,
  and all but the last of them have nothing but CPUs below them.
\<close>

definition flat :: "state \<Rightarrow> obj_ref \<Rightarrow> bool" where
  "flat s d \<longleftrightarrow> list_all (\<lambda>c. t_obj_type (objs s c) = OBJ_TYPE_CPU) (t_children (objs s d))"

definition ui_shape :: "state \<Rightarrow> bool" where
  "ui_shape s \<longleftrightarrow> (\<forall>d. (\<forall>c \<in> set (t_children (objs s d)). \<forall>c' \<in> set (t_children (objs s d)). t_obj_type (objs s c) = t_obj_type (objs s c')) \<and>
     (\<forall>c \<in> set (butlast (t_children (objs s d))). flat s c))"

text \<open>The nodes stand for the objects \<open>ds\<close>, and the parent of a node stands for a parent of its object.\<close>

definition placed :: "state \<Rightarrow> obj_ref list \<Rightarrow> ui_node list \<Rightarrow> bool" where
  "placed s ds nodes \<longleftrightarrow> length nodes = length ds \<and> (\<forall>j < length ds. n_type (nodes ! j) = of_nat (obj_type_value (t_obj_type (objs s (ds ! j)))) \<and>
     (case n_parent (nodes ! j) of None \<Rightarrow> t_obj_type (objs s (ds ! j)) = OBJ_TYPE_NODE
      | Some i \<Rightarrow> i < j \<and> ds ! j \<in> set (t_children (objs s (ds ! i)))))"

definition right_parent :: "state \<Rightarrow> obj_ref list \<Rightarrow> obj_ref \<Rightarrow> nat option \<Rightarrow> bool" where
  "right_parent s ds d q \<longleftrightarrow> (case q of None \<Rightarrow> t_obj_type (objs s d) = OBJ_TYPE_NODE
     | Some i \<Rightarrow> i < length ds \<and> d \<in> set (t_children (objs s (ds ! i))))"

abbreviation ui_type :: "state \<Rightarrow> obj_ref \<Rightarrow> u32" where
  "ui_type s d \<equiv> of_nat (obj_type_value (t_obj_type (objs s d)))"

lemma attach_placed:
  fixes tree :: "nat list"
  assumes pl: "placed s ds nodes" and q: "right_parent s ds d q"
  defines "nodes' \<equiv> fst (attach_node (ui_node_of s d) q (nodes, tree))"
  shows "placed s (ds @ [d]) nodes'" "j < length ds \<Longrightarrow> n_parent (nodes' ! j) = n_parent (nodes ! j)"
    "n_parent (nodes' ! length ds) = q"
proof -
  have len: "length nodes = length ds" using pl by (simp add: placed_def)
  have old: "n_parent (nodes' ! j) = n_parent (nodes ! j) \<and> n_type (nodes' ! j) = n_type (nodes ! j)" if "j < length ds" for j
    using that len q by (auto simp: nodes'_def attach_node_def nth_append nth_list_update right_parent_def split: option.splits)
  have new: "n_parent (nodes' ! length ds) = q" "n_type (nodes' ! length ds) = ui_type s d"
    using len by (auto simp: nodes'_def attach_node_def nth_append ui_node_of_def split: option.split)
  have "length nodes' = Suc (length ds)" using len by (simp add: nodes'_def attach_node_def split: option.split)
  then show "placed s (ds @ [d]) nodes'" unfolding placed_def
  proof (intro conjI allI impI)
    fix j assume j: "j < length (ds @ [d])"
    show "n_type (nodes' ! j) = ui_type s ((ds @ [d]) ! j)"
      using j old [of j] new(2) pl by (cases "j < length ds") (auto simp: placed_def nth_append less_Suc_eq)
    show "case n_parent (nodes' ! j) of None \<Rightarrow> t_obj_type (objs s ((ds @ [d]) ! j)) = OBJ_TYPE_NODE
        | Some i \<Rightarrow> i < j \<and> (ds @ [d]) ! j \<in> set (t_children (objs s ((ds @ [d]) ! i)))"
    proof (cases "j < length ds")
      case True
      with pl old [OF True] show ?thesis by (fastforce simp: placed_def nth_append split: option.split)
    next
      case False
      with j have "j = length ds" by simp
      with new(1) q show ?thesis by (auto simp: right_parent_def nth_append split: option.splits)
    qed
  qed simp
  show "j < length ds \<Longrightarrow> n_parent (nodes' ! j) = n_parent (nodes ! j)" using old by blast
  show "n_parent (nodes' ! length ds) = q" by (rule new(1))
qed

text \<open>What the loop over a part of the walk does.\<close>

definition places :: "state \<Rightarrow> obj_ref list \<Rightarrow> obj_ref list \<Rightarrow> nat option \<Rightarrow> ui_node list \<times> nat list \<Rightarrow> nat option \<Rightarrow> ui_node list \<times> nat list \<Rightarrow> bool" where
  "places s ds new P nt P' nt' \<longleftrightarrow> (\<forall>news. build (map (ui_node_of s) new @ news) P nt = build news P' nt') \<and>
     placed s (ds @ new) (fst nt') \<and> (\<forall>j < length ds. n_parent (fst nt' ! j) = n_parent (fst nt ! j))"

lemma places_trans:
  assumes "places s ds new P nt P1 nt1" "places s (ds @ new) new' P1 nt1 P2 nt2"
  shows "places s ds (new @ new') P nt P2 nt2"
  using assms by (simp add: places_def)

lemma places_one:
  assumes "placed s ds (fst nt)" "choose_parent (ui_type s d) P (fst nt) = Inr q" "right_parent s ds d q"
  shows "places s ds [d] P nt (if t_obj_type (objs s d) \<noteq> OBJ_TYPE_CPU then Some (length ds) else q) (attach_node (ui_node_of s d) q nt)"
proof -
  obtain nodes tree where nt: "nt = (nodes, tree)" by fastforce
  have "n_type (ui_node_of s d) = ui_type s d" by (simp add: ui_node_of_def)
  moreover have "ui_type s d \<noteq> 0 \<longleftrightarrow> t_obj_type (objs s d) \<noteq> OBJ_TYPE_CPU" by (cases "t_obj_type (objs s d)") simp_all
  moreover have "length nodes = length ds" using assms(1) by (simp add: placed_def nt)
  ultimately show ?thesis using assms attach_placed [of s ds nodes d q, where tree = tree] by (simp add: places_def nt)
qed

lemma choose_above:
  assumes "placed s ds nodes" "i < length ds" "c \<in> set (t_children (objs s (ds ! i)))" "tree_descends s"
  shows "choose_parent (ui_type s c) (Some i) nodes = Inr (Some i)"
proof -
  have "t_obj_type (objs s c) < t_obj_type (objs s (ds ! i))" using assms(3,4) by (simp add: tree_descends_def)
  then have "ui_type s c < ui_type s (ds ! i)" "ui_type s c \<noteq> UI_TYPE_NODE"
    by (cases "t_obj_type (objs s c)"; cases "t_obj_type (objs s (ds ! i))"; simp add: less_obj_type_e_def)+
  moreover have "n_type (nodes ! i) = ui_type s (ds ! i)" using assms(1,2) by (simp add: placed_def)
  ultimately show ?thesis by (auto simp: choose_parent_def)
qed

lemma walk_first: "0 < n \<Longrightarrow> \<exists>rest. walk n s d = d # rest"
  by (cases n) simp_all

text \<open>A list of siblings, given that each of them is placed, with its subtree, under the right parent.\<close>

lemma siblings_placed:
  assumes td: "tree_descends s" and i: "i < length ds0" "ds0 ! i = d"
    and one: "\<And>c P q nt ds. c \<in> set (t_children (objs s d)) \<Longrightarrow> placed s ds (fst nt) \<Longrightarrow> choose_parent (ui_type s c) P (fst nt) = Inr q \<Longrightarrow>
      right_parent s ds c q \<Longrightarrow> \<exists>P' nt'. places s ds (walk n s c) P nt P' nt' \<and> (t_obj_type (objs s c) = OBJ_TYPE_CPU \<longrightarrow> P' = q) \<and>
        (t_obj_type (objs s c) \<noteq> OBJ_TYPE_CPU \<and> flat s c \<longrightarrow> P' = Some (length ds) \<and> n_parent (fst nt' ! length ds) = q)"
    and n: "0 < n"
  shows "set cs \<subseteq> set (t_children (objs s d)) \<Longrightarrow> \<forall>c \<in> set (butlast cs). flat s c \<Longrightarrow>
    \<forall>c \<in> set cs. \<forall>c' \<in> set cs. t_obj_type (objs s c) = t_obj_type (objs s c') \<Longrightarrow> placed s (ds0 @ ds) (fst nt) \<Longrightarrow>
    cs = [] \<or> choose_parent (ui_type s (hd cs)) P (fst nt) = Inr (Some i) \<Longrightarrow>
    \<exists>P' nt'. places s (ds0 @ ds) (concat (map (walk n s) cs)) P nt P' nt' \<and> (cs = [] \<longrightarrow> P' = P) \<and>
      ((\<forall>c \<in> set cs. t_obj_type (objs s c) = OBJ_TYPE_CPU) \<and> cs \<noteq> [] \<longrightarrow> P' = Some i)"
proof (induction cs arbitrary: P nt ds)
  case Nil
  then show ?case by (intro exI [of _ P] exI [of _ nt]) (simp add: places_def)
next
  case (Cons c cs)
  let ?cpu = "t_obj_type (objs s c) = OBJ_TYPE_CPU"
  have di: "(ds0 @ ds) ! i = d" "i < length (ds0 @ ds)" using i by (simp_all add: nth_append)
  have c: "c \<in> set (t_children (objs s d))" using Cons.prems(1) by simp
  obtain P1 nt1 where 1: "places s (ds0 @ ds) (walk n s c) P nt P1 nt1" "?cpu \<longrightarrow> P1 = Some i"
    "\<not> ?cpu \<and> flat s c \<longrightarrow> P1 = Some (length (ds0 @ ds)) \<and> n_parent (fst nt1 ! length (ds0 @ ds)) = Some i"
  proof -
    have "right_parent s (ds0 @ ds) c (Some i)" using c di by (simp add: right_parent_def)
    moreover have "choose_parent (ui_type s c) P (fst nt) = Inr (Some i)" using Cons.prems(5) by simp
    ultimately show thesis using one [OF c Cons.prems(4)] that by blast
  qed
  have pl1: "placed s ((ds0 @ ds) @ walk n s c) (fst nt1)" using 1(1) by (simp add: places_def)
  have next': "cs = [] \<or> choose_parent (ui_type s (hd cs)) P1 (fst nt1) = Inr (Some i)"
  proof (cases cs)
    case (Cons e es)
    have "e \<in> set (c # cs)" "c \<in> set (c # cs)" using Cons by simp_all
    then have e: "e \<in> set (t_children (objs s d))" "t_obj_type (objs s e) = t_obj_type (objs s c)" using Cons.prems(1,3) by blast+
    show ?thesis
    proof (cases ?cpu)
      case True
      have "((ds0 @ ds) @ walk n s c) ! i = d" "i < length ((ds0 @ ds) @ walk n s c)" using i by (simp_all add: nth_append)
      then show ?thesis using 1(2) True choose_above [OF pl1, of i e] e(1) td Cons by simp
    next
      case False
      have "flat s c" using Cons.prems(2) Cons by simp
      then have P1: "P1 = Some (length (ds0 @ ds))" "n_parent (fst nt1 ! length (ds0 @ ds)) = Some i" using 1(3) False by blast+
      obtain rest where w: "walk n s c = c # rest" using walk_first [OF n] by blast
      have "n_type (fst nt1 ! length (ds0 @ ds)) = ui_type s c" using pl1 by (simp add: placed_def w nth_append)
      moreover have "ui_type s e \<noteq> UI_TYPE_NODE"
        using e(1) td type_words(2) [of "t_obj_type (objs s e)"] by (cases "t_obj_type (objs s e)"; cases "t_obj_type (objs s d)"; force simp: tree_descends_def less_obj_type_e_def)
      ultimately show ?thesis using P1 e(2) Cons by (simp add: choose_parent_def)
    qed
  qed simp
  have "\<exists>P' nt'. places s (ds0 @ ds @ walk n s c) (concat (map (walk n s) cs)) P1 nt1 P' nt' \<and> (cs = [] \<longrightarrow> P' = P1) \<and>
      ((\<forall>c \<in> set cs. t_obj_type (objs s c) = OBJ_TYPE_CPU) \<and> cs \<noteq> [] \<longrightarrow> P' = Some i)"
  proof (rule Cons.IH)
    show "set cs \<subseteq> set (t_children (objs s d))" using Cons.prems(1) by simp
    show "\<forall>c \<in> set (butlast cs). flat s c" using Cons.prems(2) by (cases "cs = []") simp_all
    show "\<forall>c \<in> set cs. \<forall>c' \<in> set cs. t_obj_type (objs s c) = t_obj_type (objs s c')" using Cons.prems(3) by (meson list.set_intros(2))
    show "placed s (ds0 @ ds @ walk n s c) (fst nt1)" using pl1 by simp
  qed (rule next')
  then obtain P2 nt2 where 2: "places s ((ds0 @ ds) @ walk n s c) (concat (map (walk n s) cs)) P1 nt1 P2 nt2" "cs = [] \<longrightarrow> P2 = P1"
    "(\<forall>c \<in> set cs. t_obj_type (objs s c) = OBJ_TYPE_CPU) \<and> cs \<noteq> [] \<longrightarrow> P2 = Some i" by auto
  have "places s (ds0 @ ds) (concat (map (walk n s) (c # cs))) P nt P2 nt2" using places_trans [OF 1(1) 2(1)] by simp
  moreover have "(\<forall>e \<in> set (c # cs). t_obj_type (objs s e) = OBJ_TYPE_CPU) \<longrightarrow> P2 = Some i"
    using 1(2) 2(2,3) by (cases "cs = []") simp_all
  ultimately show ?case by blast
qed

lemma subtree_placed:
  assumes td: "tree_descends s" and shape: "ui_shape s"
  shows "obj_type_value (t_obj_type (objs s d)) < n \<Longrightarrow> placed s ds (fst nt) \<Longrightarrow> choose_parent (ui_type s d) P (fst nt) = Inr q \<Longrightarrow>
    right_parent s ds d q \<Longrightarrow> \<exists>P' nt'. places s ds (walk n s d) P nt P' nt' \<and> (t_obj_type (objs s d) = OBJ_TYPE_CPU \<longrightarrow> P' = q) \<and>
      (t_obj_type (objs s d) \<noteq> OBJ_TYPE_CPU \<and> flat s d \<longrightarrow> P' = Some (length ds) \<and> n_parent (fst nt' ! length ds) = q)"
proof (induction n arbitrary: d P q nt ds)
  case (Suc n)
  let ?cs = "t_children (objs s d)" and ?nt1 = "attach_node (ui_node_of s d) q nt"
  note first = places_one [OF Suc.prems(2-4)]
  have q: "n_parent (fst ?nt1 ! length ds) = q"
    using attach_placed(3) [OF Suc.prems(2,4), of "snd nt"] by simp
  show ?case
  proof (cases "t_obj_type (objs s d) = OBJ_TYPE_CPU")
    case True
    then show ?thesis using first by (intro exI [of _ q] exI [of _ ?nt1]) simp
  next
    case False
    let ?P = "Some (length ds)"
    have pl: "placed s (ds @ [d]) (fst ?nt1)" using first by (simp add: places_def)
    have "\<exists>P' nt'. places s ((ds @ [d]) @ []) (concat (map (walk n s) ?cs)) ?P ?nt1 P' nt' \<and> (?cs = [] \<longrightarrow> P' = ?P) \<and>
      ((\<forall>c \<in> set ?cs. t_obj_type (objs s c) = OBJ_TYPE_CPU) \<and> ?cs \<noteq> [] \<longrightarrow> P' = ?P)"
    proof (rule siblings_placed [OF td])
      show "length ds < length (ds @ [d])" "(ds @ [d]) ! length ds = d" by simp_all
      show "?cs = [] \<or> choose_parent (ui_type s (hd ?cs)) ?P (fst ?nt1) = Inr ?P"
        using choose_above [OF pl, of "length ds" "hd ?cs"] td by (cases ?cs) simp_all
      show "\<forall>c \<in> set (butlast ?cs). flat s c" "\<forall>c \<in> set ?cs. \<forall>c' \<in> set ?cs. t_obj_type (objs s c) = t_obj_type (objs s c')"
        using shape unfolding ui_shape_def by blast+
      show "placed s ((ds @ [d]) @ []) (fst ?nt1)" using pl by simp
      show "0 < n" using Suc.prems(1) False by (cases "t_obj_type (objs s d)") simp_all
      fix c P' q' ds' and nt' :: "ui_node list \<times> nat list"
      assume c: "c \<in> set ?cs" and rest: "placed s ds' (fst nt')" "choose_parent (ui_type s c) P' (fst nt') = Inr q'" "right_parent s ds' c q'"
      have "obj_type_value (t_obj_type (objs s c)) < n" using c td Suc.prems(1) by (force simp: tree_descends_def less_obj_type_e_def)
      from Suc.IH [OF this rest] show "\<exists>P'' nt''. places s ds' (walk n s c) P' nt' P'' nt'' \<and> (t_obj_type (objs s c) = OBJ_TYPE_CPU \<longrightarrow> P'' = q') \<and>
        (t_obj_type (objs s c) \<noteq> OBJ_TYPE_CPU \<and> flat s c \<longrightarrow> P'' = Some (length ds') \<and> n_parent (fst nt'' ! length ds') = q')" .
    qed simp
    then obtain P2 nt2 where 2: "places s (ds @ [d]) (concat (map (walk n s) ?cs)) ?P ?nt1 P2 nt2" "?cs = [] \<longrightarrow> P2 = ?P"
      "(\<forall>c \<in> set ?cs. t_obj_type (objs s c) = OBJ_TYPE_CPU) \<and> ?cs \<noteq> [] \<longrightarrow> P2 = ?P" by auto
    have "places s ds (walk (Suc n) s d) P nt P2 nt2" using places_trans [OF _ 2(1)] first False by simp
    moreover have "flat s d \<longrightarrow> P2 = ?P" using 2(2,3) by (auto simp: flat_def list_all_iff)
    moreover have "n_parent (fst nt2 ! length ds) = q" using 2(1) q by (simp add: places_def)
    ultimately show ?thesis using False by blast
  qed
qed simp

lemma walk_all_placed:
  assumes inv: "topo_inv {} s" and shape: "ui_shape s" and run: "build (map (ui_node_of s) (walk_all s)) None ([], []) = Inr (nodes, tree)"
  shows "placed s (walk_all s) nodes"
proof -
  have "\<exists>P' nt'. places s ds (concat (map (walk TOPO_DEPTH s) ns)) P nt P' nt'"
    if "set ns \<subseteq> set (numa_nodes s)" "placed s ds (fst nt)" for ns ds P nt
    using that
  proof (induction ns arbitrary: ds P nt)
    case Nil
    then show ?case by (intro exI [of _ P] exI [of _ nt]) (simp add: places_def)
  next
    case (Cons d ns)
    then have "t_obj_type (objs s d) = OBJ_TYPE_NODE" using topo_invD(1) [OF inv, of d OBJ_TYPE_NODE] by simp
    then have "choose_parent (ui_type s d) P (fst nt) = Inr None" "right_parent s ds d None"
      by (simp_all add: choose_parent_def right_parent_def)
    from subtree_placed [OF topo_inv_descends [OF inv] shape type_value_less_depth Cons.prems(2) this]
    obtain P1 nt1 where 1: "places s ds (walk TOPO_DEPTH s d) P nt P1 nt1" by blast
    then have "placed s (ds @ walk TOPO_DEPTH s d) (fst nt1)" by (simp add: places_def)
    with Cons obtain P2 nt2 where "places s (ds @ walk TOPO_DEPTH s d) (concat (map (walk TOPO_DEPTH s) ns)) P1 nt1 P2 nt2"
      by (metis list.set_intros(2) subset_code(1))
    with places_trans [OF 1] have "places s ds (concat (map (walk TOPO_DEPTH s) (d # ns))) P nt P2 nt2" by simp
    then show ?case by blast
  qed
  from this [of "numa_nodes s" "[]" "([], [])" None] obtain P' nt' where "places s [] (walk_all s) None ([], []) P' nt'"
    by (auto simp: walk_all_def placed_def)
  then have "build (map (ui_node_of s) (walk_all s) @ []) None ([], []) = build [] P' nt'" "placed s ([] @ walk_all s) (fst nt')"
    unfolding places_def by blast+
  with run show ?thesis by (cases nt') simp
qed

section \<open>Theorems\<close>

text \<open>
  (C22) The user interface reads the statistics of the daemon correctly: what the daemon sends is accepted
  (the parser neither gives up nor follows a null pointer), and the nodes it makes have, in the order
  of the walk over the daemon's tree, the types, numbers, loads, powersave flags and interrupts of the
  daemon's objects, as long as no load reaches 2^63.
\<close>

theorem ui_reads_statistics:
  assumes "topo_inv {} (d_state d)" "ints_ok (d_state d)" "loads_ok (d_state d)" "mem_fails (d_state d) = []" "numa_nodes (d_state d) \<noteq> []"
  shows "\<exists>stats nodes tree. stats_reply d = Some (Some stats, d) \<and> parse_into_tree g_list_sort undef (Some stats) = Inr (nodes, tree)
    \<and> map node_fields nodes = map (ui_node_of (d_state d)) (walk_all (d_state d))"
proof -
  let ?s = "d_state d" let ?text = "entries_text (d_state d) (walk_all (d_state d))"
  obtain nodes tree where p: "parse_nodes (tokens ?text) None ([], []) = Inr (nodes, tree)" "map node_fields nodes = map (ui_node_of ?s) (walk_all ?s)"
    using stats_parsed [OF assms(1-3)] by blast
  from parse_into_tree_keeps [OF p(1) entries_text_nonempty [OF assms(5)]] p(2)
    stats_reply_text [OF assms(4,2) topo_inv_descends [OF assms(1)] assms(5)]
  show ?thesis by metis
qed

text \<open>
  (C23) The tree of the user interface is the tree of the daemon when the children of every object are of
  one type and all but the last of them have nothing but CPUs below them: the parent of a node stands
  for an object that has the object of the node among its children, and only NUMA nodes have no
  parent.
\<close>

theorem ui_rebuilds_tree:
  assumes "topo_inv {} (d_state d)" "ints_ok (d_state d)" "loads_ok (d_state d)" "mem_fails (d_state d) = []" "numa_nodes (d_state d) \<noteq> []"
    and "ui_shape (d_state d)"
  shows "\<exists>stats nodes tree. stats_reply d = Some (Some stats, d) \<and> parse_into_tree g_list_sort undef (Some stats) = Inr (nodes, tree)
    \<and> placed (d_state d) (walk_all (d_state d)) nodes"
proof -
  let ?s = "d_state d" let ?text = "entries_text (d_state d) (walk_all (d_state d))"
  obtain nodes tree where p: "parse_nodes (tokens ?text) None ([], []) = Inr (nodes, tree)"
    "build (map (ui_node_of ?s) (walk_all ?s)) None ([], []) = Inr (nodes, tree)"
    using stats_parsed [OF assms(1-3)] by blast
  have pl: "placed ?s (walk_all ?s) nodes" by (rule walk_all_placed [OF assms(1,6) p(2)])
  obtain nodes' where n: "parse_into_tree g_list_sort undef (Some ?text) = Inr (nodes', tree)" "map links nodes' = map links nodes"
    using parse_into_tree_keeps [OF p(1) entries_text_nonempty [OF assms(5)]] by blast
  have len: "length nodes' = length nodes" using arg_cong [OF n(2), of length] by simp
  have "n_type (nodes' ! j) = n_type (nodes ! j) \<and> n_parent (nodes' ! j) = n_parent (nodes ! j)" if "j < length nodes" for j
    using that len n(2) by (metis links_def nth_map prod.inject)
  then have "placed ?s (walk_all ?s) nodes'" using pl len by (simp add: placed_def)
  then show ?thesis using n(1) stats_reply_text [OF assms(4,2) topo_inv_descends [OF assms(1)] assms(5)] by blast
qed

text \<open>
  The user interface goes up one level only when it looks for the parent of a node: the second
  package of a NUMA node, reported after a CPU of the first one, becomes a child of the first package.
\<close>

theorem second_package_is_misplaced:
  "map_sum id (\<lambda>(nodes, tree). map n_parent nodes) (parse_nodes (tokens
      (''TYPE 3 NUMBER -1 LOAD 9 SAVE_MODE 0 TYPE 2 NUMBER 0 LOAD 5 SAVE_MODE 0 TYPE 1 NUMBER 0 LOAD 5 SAVE_MODE 0 '' @
       ''TYPE 0 NUMBER 0 LOAD 5 SAVE_MODE 0 TYPE 2 NUMBER 1 LOAD 4 SAVE_MODE 0 '')) None ([], []))
   = Inr [None, Some 0, Some 1, Some 2, Some 1]"
  by code_simp

end
