(* ===== verification/Ui_Settings.thy ===== *)
theory Ui_Settings
  imports Ui_Replies
begin

text \<open>
  The settings in both directions: the reply to \<open>setup\<close> as the user interface reads it, and the
  commands for banning CPUs and interrupts as the daemon reads them.
\<close>

section \<open>The CPUs of a printed mask\<close>

lemma upt_split: "i \<le> j \<Longrightarrow> j \<le> k \<Longrightarrow> [i..<k] = [i..<j] @ [j..<k]"
  by (metis le_add_diff_inverse upt_add_eq_append)

lemma digit_cpus_hex: "d < 16 \<Longrightarrow> digit_cpus (hex_digit d) k = map (\<lambda>b. int (k + b)) (filter (bit d) [0..<4])"
  unfolding digit_cpus_def
  by (drule less_16_cases, elim disjE) (simp_all add: hex_to_bitmap_def hex_digit_def upt_rec bit_iff_odd)

lemma hex_digit_not_comma: "d < 16 \<Longrightarrow> hex_digit d \<noteq> CHR '',''"
  by (drule less_16_cases, elim disjE) (simp_all add: hex_digit_def)

lemma hex_digit_not_blank: "d < 16 \<Longrightarrow> hex_digit d \<noteq> CHR '' ''"
  by (drule less_16_cases, elim disjE) (simp_all add: hex_digit_def)

lemma mask_cpus_append:
  "mask_cpus (a @ b) k = mask_cpus a k @ mask_cpus b (k + 4 * length (filter (\<lambda>c. c \<noteq> CHR '','') a))"
  by (induction a k rule: mask_cpus.induct) (simp_all add: add.assoc)

lemma mask_cpus_digits:
  "mask_cpus (rev (map hex_digit (hex_digits w v))) k = map (\<lambda>b. int (k + b)) (filter (bit v) [0..<4 * w])"
proof (induction w arbitrary: v k)
  case (Suc w)
  have up: "[0..<4 * Suc w] = [0..<4] @ map (\<lambda>b. b + 4) [0..<4 * w]"
    using upt_split [of 0 4 "4 + 4 * w"] by (simp add: map_add_upt add.commute)
  have hi: "bit v (b + 4) = bit (v div 16) b" for b
    using bit_drop_bit_eq [of 4 v] by (simp add: drop_bit_eq_div comp_def add.commute fun_eq_iff)
  have lo: "filter (bit (v mod 16)) [0..<4] = filter (bit v) [0..<4]"
    using bit_take_bit_iff [of 4 v] by (intro filter_cong) (simp_all add: take_bit_eq_mod)
  have "v mod 16 < 16" by simp
  then show ?case unfolding up
    by (simp add: Suc.IH hex_digit_not_comma digit_cpus_hex lo filter_map comp_def hi add.commute add.left_commute)
qed simp

lemma digits_count:
  assumes "\<forall>d \<in> set ds. d < 16"
  shows "length (filter (\<lambda>c. c \<noteq> CHR '','') (map hex_digit ds)) = length ds" "CHR '' '' \<notin> set (map hex_digit ds)"
  using assms by (induction ds) (auto simp: hex_digit_not_comma dest: hex_digit_not_blank)

text \<open>One chunk of 32 bits.\<close>

lemma chunk_cpus:
  fixes m j
  defines "t \<equiv> pad_hex 8 (unat (chunk_val m (32 * j) 32))"
  shows "mask_cpus (rev t) (32 * j) = map int (filter (array_bit m) [32 * j..<32 * Suc j])"
    and "length (filter (\<lambda>c. c \<noteq> CHR '','') t) = 8" and "CHR '' '' \<notin> set t" and "t \<noteq> []"
proof -
  let ?v = "unat (chunk_val m (32 * j) 32)"
  have t: "t = map hex_digit (hex_digits 8 ?v)" unfolding t_def using chunk_val_less [of 32 m j] by (intro pad_hex_digits) simp_all
  have ds: "\<forall>d \<in> set (hex_digits 8 ?v). d < 16" "length (hex_digits 8 ?v) = 8" using hex_digits_less by auto
  show "length (filter (\<lambda>c. c \<noteq> CHR '','') t) = 8" "CHR '' '' \<notin> set t" using digits_count [OF ds(1)] ds(2) by (simp_all add: t)
  show "t \<noteq> []" unfolding t using ds(2) by (metis list.size(3) map_is_Nil_conv zero_neq_numeral)
  have "filter (bit ?v) [0..<32] = filter (\<lambda>b. array_bit m (32 * j + b)) [0..<32]"
    using bit_chunk_val [of 32 m j] by (intro filter_cong) (simp_all add: bit_unsigned_iff)
  moreover have "[32 * j..<32 * Suc j] = map (\<lambda>b. b + 32 * j) [0..<32]" by (simp add: map_add_upt add.commute)
  ultimately show "mask_cpus (rev t) (32 * j) = map int (filter (array_bit m) [32 * j..<32 * Suc j])"
    by (simp add: t mask_cpus_digits filter_map comp_def add.commute)
qed

lemma upt_chunks: "[0..<32 * Suc j] = [0..<32 * j] @ [32 * j..<32 * Suc j]"
  by (rule upt_split) simp_all

lemma scn_cpus_rest:
  "mask_cpus (rev (scn_text m j 32 '','' False)) 0 = map int (filter (array_bit m) [0..<32 * j]) \<and>
   length (filter (\<lambda>c. c \<noteq> CHR '','') (scn_text m j 32 '','' False)) = 8 * j \<and> CHR '' '' \<notin> set (scn_text m j 32 '','' False)"
proof (induction j)
  case (Suc j)
  then show ?case using chunk_cpus [of m j] unfolding upt_chunks
    by (simp add: mask_cpus_append rev_filter [symmetric])
qed simp

lemma scn_cpus:
  "0 < j \<Longrightarrow> mask_cpus (rev (scn_text m j 32 '''' True)) 0 = map int (filter (array_bit m) [0..<32 * j]) \<and>
     word_ok (scn_text m j 32 '''' True)"
proof (induction j rule: nat_induct_non_zero)
  case 1
  then show ?case using chunk_cpus [of m 0] by (simp add: word_ok_def)
next
  case (Suc j)
  show ?case
  proof (cases "chunk_val m (32 * j) 32 = 0")
    case True
    have "\<not> array_bit m i" if "i \<in> set [32 * j..<32 * Suc j]" for i
      using bit_chunk_val [of 32 m j "i - 32 * j"] True that by simp linarith
    then have "filter (array_bit m) [32 * j..<32 * Suc j] = []" by (simp only: filter_empty_conv) blast
    then show ?thesis using Suc True unfolding upt_chunks by simp
  next
    case False
    then show ?thesis using chunk_cpus [of m j] scn_cpus_rest [of m j] unfolding upt_chunks
      by (simp add: word_ok_def mask_cpus_append rev_filter [symmetric])
  qed
qed

lemma cpumask_cpus:
  "mask_cpus (rev (bitmap_text m NR_CPUS)) 0 = map int (filter (array_bit m) [0..<NR_CPUS])" "word_ok (bitmap_text m NR_CPUS)"
proof -
  have "bitmap_text m NR_CPUS = scn_text m 128 32 '''' True" by (simp add: bitmap_text_def first_chunksz_def NR_CPUS_def CHUNKSZ_def)
  moreover have "NR_CPUS = 32 * 128" by (simp add: NR_CPUS_def)
  ultimately show "mask_cpus (rev (bitmap_text m NR_CPUS)) 0 = map int (filter (array_bit m) [0..<NR_CPUS])" "word_ok (bitmap_text m NR_CPUS)"
    using scn_cpus [of 128 m] by simp_all
qed

section \<open>The reply to setup\<close>

definition setup_words :: "daemon \<Rightarrow> string list" where
  "setup_words d = [''SLEEP'', dec_of_int (sleep_interval d)] @ concat (map irq_words (map (irqs (d_state d)) (cl_banned_irqs (d_state d)))) @ [''BANNED'']"

lemma setup_reply_text:
  assumes "mem_fails (d_state d) = []" "ints_ok (d_state d)" "in_int (sleep_interval d)"
    and "length (bitmap_text (banned_cpus (d_state d)) NR_CPUS) < 512"
  shows "setup_reply d = Some (Some (spaced (setup_words d) @ bitmap_text (banned_cpus (d_state d)) NR_CPUS), d)"
proof -
  let ?s = "d_state d" let ?bans = "cl_banned_irqs (d_state d)"
  have mem: "mem_next ?s = (True, ?s)" by (rule mem_next_enough [OF assms(1)])
  have fits: "append_text (7 + 11 + 1) [] (''SLEEP '' @ dec_of_int (sleep_interval d) @ '' '') = Some (''SLEEP '' @ dec_of_int (sleep_interval d) @ '' '')"
    using length_dec_of_int [OF assms(3)] by (simp add: append_text_def)
  have bans: "irqs_text ?s rs = spaced (concat (map irq_words (map (irqs ?s) rs)))" for rs
    by (induction rs) (simp_all add: irqs_text_def irq_text_spaced spaced_append, simp_all add: spaced_def)
  have cpus: "cpumask_scnprintf 512 (banned_cpus ?s) = Some (bitmap_text (banned_cpus ?s) NR_CPUS, length (bitmap_text (banned_cpus ?s) NR_CPUS))"
    using bitmap_scnprintf_fits [OF assms(4)] by (simp add: cpumask_scnprintf_def)
  have words: "spaced (setup_words d) = ''SLEEP '' @ dec_of_int (sleep_interval d) @ '' '' @ irqs_text ?s ?bans @ ''BANNED ''"
    unfolding setup_words_def spaced_append bans by (simp add: spaced_def)
  show ?thesis unfolding setup_reply_def mem Let_def prod.case fits words
    by (simp add: irq_data_text [OF assms(1,2)] cpus mem text_of_def, simp add: irqs_text_def)
qed

lemma setup_parsed:
  assumes "ints_ok (d_state d)" "loads_ok (d_state d)" "in_int (sleep_interval d)" and m: "word_ok m"
  shows "parse_setup (Some (spaced (setup_words d) @ m)) su =
    Inr \<lparr> su_sleep = of_int (sleep_interval d), su_banned_irqs = map (\<lambda>r. ui_irq_of True (irqs (d_state d) r)) (cl_banned_irqs (d_state d)),
          su_banned_cpus = mask_cpus (rev m) 0 \<rparr>"
proof -
  let ?irqs = "map (irqs (d_state d)) (cl_banned_irqs (d_state d))"
  have "\<forall>w \<in> set (setup_words d). word_ok w"
    using words_ok(1) word_ok_dec_of_int by (auto simp: setup_words_def) (simp_all add: word_ok_def)
  from tokens_spaced [OF this] have t: "tokens (spaced (setup_words d) @ m)
      = ''SLEEP'' # dec_of_int (sleep_interval d) # concat (map irq_words ?irqs) @ [''BANNED'', m]"
    by (simp add: tokens_last [OF m]) (simp add: setup_words_def)
  have p: "parse_irqs True (concat (map irq_words ?irqs) @ [''BANNED'', m]) = Inr (map (ui_irq_of True) ?irqs, [''BANNED'', m])"
    using assms(1,2) by (intro parse_irqs_words) (auto simp: ints_ok_def loads_ok_def g_str_has_prefix_def)
  obtain c cs where ne: "spaced (setup_words d) @ m = c # cs" by (cases "spaced (setup_words d) @ m") (simp_all add: setup_words_def spaced_def)
  have pre: "g_str_has_prefix ''BANNED'' ''BANNED''" by (simp add: g_str_has_prefix_def)
  show ?thesis unfolding parse_setup_def option.case ne list.case unfolding ne [symmetric] t take_field_word sum.case prod.case p
    by (simp add: strtol_dec_of_int [OF assms(3)] pre comp_def)
qed

section \<open>A command on its way\<close>

text \<open>A connection of root that carries a text.\<close>

definition carries :: "connection \<Rightarrow> string \<Rightarrow> bool" where
  "carries c cmd \<longleftrightarrow> accepted c \<and> cmsg c = Some (True, 0) \<and> recv_size c = int (length cmd) \<and> length cmd < 16384 \<and>
     CHR 0x00 \<notin> set cmd \<and> take (length cmd) (buff c) = cmd"

lemma carries_prefix:
  assumes "carries c (p @ arg)"
  shows "g_str_has_prefix (buff c) p" "command_arg p c = Some arg" "\<exists>rest. buff c = p @ rest"
proof -
  obtain rest where b: "buff c = p @ arg @ rest" using assms unfolding carries_def by (metis append.assoc append_take_drop_id)
  then show "g_str_has_prefix (buff c) p" by (simp add: g_str_has_prefix_def)
  show "\<exists>rest. buff c = p @ rest" using b by blast
  have "takeWhile (\<lambda>x. x \<noteq> CHR 0x00) arg = arg" unfolding takeWhile_eq_all_conv using assms by (auto simp: carries_def)
  then show "command_arg p c = Some arg" using assms b by (simp add: command_arg_def carries_def nat_add_distrib)
qed

lemma sock_handle_cpus:
  assumes "carries c (''settings cpus '' @ arg)" "mem_fails (d_state d) = []"
  shows "sock_handle True c d = Some (None, d\<lparr> d_state := settings_cpus arg ((d_state d)\<lparr> banned_cpumask_from_ui := None, cpu_ban_string := None \<rparr>) \<rparr>)"
proof -
  note p = carries_prefix [OF assms(1)]
  have "\<not> g_str_has_prefix (buff c) ''stats''" "\<not> g_str_has_prefix (buff c) ''settings sleep ''" "\<not> g_str_has_prefix (buff c) ''settings ban irqs ''"
    using p(3) by (auto simp: g_str_has_prefix_def)
  then show ?thesis using assms p by (simp add: sock_handle_def carries_def sock_command_def mem_next_enough Let_def)
qed

lemma sock_handle_irqs:
  assumes "carries c (''settings ban irqs '' @ arg)" "mem_fails (d_state d) = []"
  shows "sock_handle True c d = Some (None, d\<lparr> d_state := settings_ban_irqs arg (d_state d) \<rparr>)"
proof -
  note p = carries_prefix [OF assms(1)]
  have "\<not> g_str_has_prefix (buff c) ''stats''" "\<not> g_str_has_prefix (buff c) ''settings sleep ''"
    using p(3) by (auto simp: g_str_has_prefix_def)
  then show ?thesis using assms p by (simp add: sock_handle_def carries_def sock_command_def mem_next_enough Let_def)
qed

section \<open>Banning CPUs\<close>

lemma fold_append_1024:
  assumes f: "\<And>x t. f x t = (if P x then append_1024 t (g x) else t)"
  shows "length (t @ concat (map g (filter P xs))) \<le> 1023 \<Longrightarrow> fold f xs t = t @ concat (map g (filter P xs))"
  by (induction xs arbitrary: t) (auto simp: f append_1024_def)

definition banned_numbers :: "cpu_ban list \<Rightarrow> int list" where
  "banned_numbers cs = map c_number (filter c_is_banned cs)"

definition numbers_text :: "int list \<Rightarrow> string" where
  "numbers_text ns = concat (map (\<lambda>n. dec_of_int n @ '','') ns)"

lemma cpu_ban_command_text:
  assumes "length (numbers_text (banned_numbers cs)) \<le> 1005"
  shows "cpu_ban_command cs = ''settings cpus '' @ numbers_text (banned_numbers cs) @ ''NULL''"
proof -
  have eq: "concat (map (\<lambda>e. dec_of_int (c_number e) @ '','') (filter c_is_banned cs)) = numbers_text (banned_numbers cs)"
    by (simp add: numbers_text_def banned_numbers_def comp_def)
  have "fold get_new_cpu_ban_values cs ''settings cpus '' = ''settings cpus '' @ numbers_text (banned_numbers cs)"
    using assms fold_append_1024 [where f = get_new_cpu_ban_values and P = c_is_banned, OF get_new_cpu_ban_values_def,
        where t = "''settings cpus ''" and xs = cs] unfolding eq by simp
  then show ?thesis using assms by (simp add: cpu_ban_command_def g_str_has_prefix_def)
qed

text \<open>The list parser stops with an error at the last word, after it has set the bits of the numbers before it.\<close>

lemma parselist_numbers:
  assumes "wf_bitmap mk n" "int n \<le> INT_MAX" "\<forall>v \<in> set vs. v < n" "\<not> isspace c"
  shows "\<exists>mk'. bitmap_parselist_loop (numbers_text (map int vs) @ ''NULL'') c td mk n = (EINVAL, mk') \<and> wf_bitmap mk' n \<and>
    (\<forall>i < 64 * length mk. array_bit mk' i \<longleftrightarrow> array_bit mk i \<or> i \<in> set vs)"
  using assms
proof (induction vs arbitrary: mk c td)
  case Nil
  then show ?case by (subst bitmap_parselist_loop.simps) (simp add: numbers_text_def isspace_def isdigit_def NUL_def)
next
  case (Cons v vs)
  let ?rest = "numbers_text (map int vs) @ ''NULL''"
  have v: "v < n" using Cons.prems(3) by simp
  have "int v < 64 * int (length mk)" using v longs_bound [of n] Cons.prems(1) by (simp add: wf_bitmap_def)
  from set_bit_range_ok [OF _ this, of "int v"] obtain mk1 where mk1: "set_bit_range (int v) (int v) mk = Some mk1"
    "length mk1 = length mk" "\<forall>i < 64 * length mk. array_bit mk1 i \<longleftrightarrow> array_bit mk i \<or> (int v \<le> int i \<and> int i \<le> int v)" by auto
  obtain td' where item: "parselist_item (dec_of_nat v @ CHR '','' # ?rest) c 0 0 True False td = Inr (?rest, CHR '','', int v, int v, td')"
    using parselist_range(2) [of "(v, v)" n c ?rest td] v Cons.prems(2,4) by (auto simp: range_text_def)
  have wf1: "wf_bitmap mk1 n" using Cons.prems(1) mk1(2) by (simp add: wf_bitmap_def)
  have "\<not> isspace CHR '',''" by (simp add: isspace_def)
  from Cons.IH [OF wf1 Cons.prems(2) _ this, of td'] Cons.prems(3) mk1(2) obtain mk' where
    mk': "bitmap_parselist_loop ?rest CHR '','' td' mk1 n = (EINVAL, mk')" "wf_bitmap mk' n"
      "\<forall>i < 64 * length mk. array_bit mk' i \<longleftrightarrow> array_bit mk1 i \<or> i \<in> set vs" by auto
  have "numbers_text (map int (v # vs)) @ ''NULL'' = dec_of_nat v @ CHR '','' # ?rest" by (simp add: numbers_text_def dec_of_int_def)
  with item mk1(1) v mk' have "bitmap_parselist_loop (numbers_text (map int (v # vs)) @ ''NULL'') c td mk n = (EINVAL, mk')"
    by (subst bitmap_parselist_loop.simps) simp
  with mk' mk1(3) show ?case by auto
qed

lemma cpulist_parse_numbers:
  assumes "wf_cpumask m" "\<forall>v \<in> set vs. v < NR_CPUS"
  shows "cpus_of (snd (cpulist_parse (numbers_text (map int vs) @ ''NULL'') m)) = set vs"
    and "wf_cpumask (snd (cpulist_parse (numbers_text (map int vs) @ ''NULL'') m))"
proof -
  have wf: "wf_bitmap m NR_CPUS" using assms(1) by (simp add: wf_cpumask_bitmap)
  then have wz: "wf_bitmap (bitmap_zero m NR_CPUS) NR_CPUS" by (simp add: wf_bitmap_def)
  have "int NR_CPUS \<le> INT_MAX" "\<not> isspace NUL" by (simp_all add: NR_CPUS_def INT_MAX_def)
  from parselist_numbers [OF wz this(1) assms(2) this(2), of 0] obtain mk where
    mk: "cpulist_parse (numbers_text (map int vs) @ ''NULL'') m = (EINVAL, mk)" "wf_bitmap mk NR_CPUS"
      "\<forall>i < 64 * length m. array_bit mk i \<longleftrightarrow> array_bit (bitmap_zero m NR_CPUS) i \<or> i \<in> set vs"
    by (auto simp: cpulist_parse_def raw_bitmap_parselist_def)
  have "NR_CPUS \<le> 64 * length m" using wf longs_bound [of NR_CPUS] by (simp add: wf_bitmap_def)
  then have "array_bit mk i \<longleftrightarrow> i \<in> set vs" if "i < NR_CPUS" for i using that mk(3) array_bit_zero [OF wf] by auto
  then have "cpus_of mk = set vs" using assms(2) by (auto simp: cpus_of_def bits_of_def)
  with mk(1,2) show "cpus_of (snd (cpulist_parse (numbers_text (map int vs) @ ''NULL'') m)) = set vs"
    "wf_cpumask (snd (cpulist_parse (numbers_text (map int vs) @ ''NULL'') m))" by (simp_all add: wf_cpumask_bitmap)
qed

lemma numbers_text_word: "word_ok (numbers_text ns @ ''NULL'')"
  using word_ok_dec_of_int by (induction ns) (auto simp: numbers_text_def word_ok_def)

lemma dec_of_int_first: "dec_of_int n = c # cs \<Longrightarrow> c = CHR ''-'' \<or> isdigit c"
  using dec_digits_props(1) dec_digit_class(1) by (auto simp: dec_of_int_def dec_of_nat_def split: if_splits) (metis list.set_intros(1))

lemma numbers_not_null: "g_str_has_prefix (numbers_text ns @ ''NULL'') ''NULL'' \<longleftrightarrow> ns = []"
proof (cases ns)
  case (Cons n rest)
  obtain c cs where "dec_of_int n = c # cs" using word_ok_dec_of_int [of n] by (cases "dec_of_int n") (auto simp: word_ok_def)
  moreover have "c \<noteq> CHR ''N''" using dec_of_int_first [OF calculation] by (auto simp: isdigit_def)
  ultimately show ?thesis by (simp add: Cons numbers_text_def g_str_has_prefix_def)
qed (simp add: numbers_text_def g_str_has_prefix_def)

lemma cpu_bans_reach_daemon:
  assumes "carries c (cpu_ban_command cs)" "mem_fails (d_state d) = []"
    and "wf_cpumask (banned_cpus (d_state d))"
    and "length (numbers_text (banned_numbers cs)) \<le> 1005" "banned_numbers cs = map int vs" "\<forall>v \<in> set vs. v < NR_CPUS"
  shows "\<exists>d'. sock_handle True c d = Some (None, d') \<and> need_rescan (d_state d') \<and>
    (if vs = [] then cpu_ban_string (d_state d') = None
     else cpus_of (banned_cpus (setup_banned_cpus sys (d_state d'))) = set vs \<union> cpus_of (thermal_banned_cpus (d_state d)))"
proof -
  let ?arg = "numbers_text (map int vs) @ ''NULL''" let ?s = "(d_state d)\<lparr> banned_cpumask_from_ui := None, cpu_ban_string := None \<rparr>"
  have "carries c (''settings cpus '' @ ?arg)" using assms(1) cpu_ban_command_text [OF assms(4)] by (simp add: assms(5))
  from sock_handle_cpus [OF this assms(2)]
  have run: "sock_handle True c d = Some (None, d\<lparr> d_state := settings_cpus ?arg ?s \<rparr>)" .
  have st: "settings_cpus ?arg ?s = (if vs = [] then ?s\<lparr> need_rescan := True \<rparr>
      else ?s\<lparr> cpu_ban_string := Some ?arg, banned_cpumask_from_ui := Some ?arg, need_rescan := True \<rparr>)"
    by (simp add: settings_cpus_def strtok_word [OF numbers_text_word] numbers_not_null Let_def)
  show ?thesis unfolding run using cpulist_parse_numbers [OF assms(3,6)]
    by (simp add: st setup_banned_cpus_def Let_def mask.or_op)
qed

section \<open>Banning interrupts\<close>

definition blanks_text :: "nat list \<Rightarrow> string" where
  "blanks_text vs = concat (map (\<lambda>v. '' '' @ dec_of_nat v) vs)"

lemma blanks_text_simps [simp]: "blanks_text [] = []" "blanks_text (v # vs) = CHR '' '' # dec_of_nat v @ blanks_text vs"
  by (simp_all add: blanks_text_def)

definition banned_vectors :: "ui_irq list \<Rightarrow> int list" where
  "banned_vectors is = map u_vector (filter u_is_banned is)"

lemma irq_ban_command_text:
  assumes "banned_vectors is = map int vs" "length (blanks_text vs) \<le> 1000"
  shows "irq_ban_command is = ''settings ban irqs '' @ blanks_text vs @ '' NONE''"
proof -
  have "map (\<lambda>v. '' '' @ dec_of_int v) (banned_vectors is) = map (\<lambda>v. '' '' @ dec_of_nat v) vs"
    by (simp add: assms(1) dec_of_int_def)
  then have eq: "concat (map (\<lambda>i. '' '' @ dec_of_int (u_vector i)) (filter u_is_banned is)) = blanks_text vs"
    by (simp add: blanks_text_def banned_vectors_def comp_def)
  have "fold get_new_irq_ban_values is ''settings ban irqs '' = ''settings ban irqs '' @ blanks_text vs"
    using assms(2) fold_append_1024 [where f = get_new_irq_ban_values and P = u_is_banned, OF get_new_irq_ban_values_def,
        where t = "''settings ban irqs ''" and xs = "is"] unfolding eq by simp
  then show ?thesis using assms(2) by (simp add: irq_ban_command_def g_str_has_prefix_def)
qed

lemma read_number_blank:
  "\<not> starts_with_digit 10 rest \<Longrightarrow> read_number 10 (CHR '' '' # dec_of_nat v @ rest) = Some (False, v, rest)"
  using read_number_rest [of rest v] by (simp add: read_number_def isspace_def)

lemma blanks_rest: "\<not> starts_with_digit 10 (blanks_text vs @ '' NONE'')"
  by (cases vs) (simp_all add: starts_with_digit_def digit_val_def isdigit_def)

lemma strtoul_blank:
  assumes "v < 2 ^ 31"
  shows "int_strtoul 10 (blanks_text (v # vs) @ '' NONE'') = int v" "snd (strtoul 10 (blanks_text (v # vs) @ '' NONE'')) = blanks_text vs @ '' NONE''"
proof -
  have st: "strtoul 10 (blanks_text (v # vs) @ '' NONE'') = (of_nat v, blanks_text vs @ '' NONE'')"
    using assms read_number_blank [OF blanks_rest, of v vs] by (simp add: strtoul_def)
  then show "snd (strtoul 10 (blanks_text (v # vs) @ '' NONE'')) = blanks_text vs @ '' NONE''" by simp
  have "in_int (int v)" using assms by (simp add: in_int_def)
  with st show "int_strtoul 10 (blanks_text (v # vs) @ '' NONE'') = int v"
    using int_of_long_id [of "int v"] by (simp add: int_strtoul_def int_of_long_def)
qed

lemma strtoul_none: "strtoul 10 '' NONE'' = (0, '' NONE'')"
  by (simp add: strtoul_def read_number_def isspace_def starts_with_digit_def digit_val_def isdigit_def)

lemma ban_irqs_text:
  "\<forall>v \<in> set vs. 0 < v \<and> v < 2 ^ 31 \<Longrightarrow>
     ban_irqs irq (blanks_text vs @ '' NONE'') s = fold add_cl_banned_irq (map int vs) (add_cl_banned_irq irq s)"
proof (induction vs arbitrary: irq s)
  case Nil
  then show ?case by (subst ban_irqs.simps) (simp add: int_strtoul_def strtoul_none)
next
  case (Cons v vs)
  then have v: "v < 2 ^ 31" "int v \<noteq> 0" by simp_all
  have "ban_irqs irq (blanks_text (v # vs) @ '' NONE'') s = ban_irqs (int v) (blanks_text vs @ '' NONE'') (add_cl_banned_irq irq s)"
    using v(2) unfolding ban_irqs.simps [of irq] strtoul_blank [OF v(1)] by (simp add: Let_def)
  then show ?case using Cons by simp
qed

lemma settings_ban_irqs_text:
  assumes "\<forall>v \<in> set vs. 0 < v \<and> v < 2 ^ 31"
  shows "settings_ban_irqs (blanks_text vs @ '' NONE'') s =
    fold add_cl_banned_irq (if vs = [] then [0] else map int vs) (s\<lparr> cl_banned_irqs := [], need_rescan := True \<rparr>)"
proof (cases vs)
  case Nil
  then show ?thesis using ban_irqs_text [of "[]" 0]
    by (simp add: settings_ban_irqs_def g_str_has_prefix_def int_strtoul_def strtoul_none)
next
  case (Cons v vs')
  then have "\<not> g_str_has_prefix (blanks_text vs @ '' NONE'') ''NONE''" by (simp add: g_str_has_prefix_def)
  moreover have "v < 2 ^ 31" using assms Cons by simp
  ultimately show ?thesis using assms Cons ban_irqs_text [of vs' "int v"] strtoul_blank [of v vs']
    by (simp add: settings_ban_irqs_def Let_def del: blanks_text_simps)
qed

text \<open>With memory and without duplicates every number gets an entry, in the order of the numbers.\<close>

definition ban_numbers :: "state \<Rightarrow> int list" where
  "ban_numbers s = map (\<lambda>r. i_irq (irqs s r)) (cl_banned_irqs s)"

lemma add_cl_numbers:
  assumes "mem_fails s = []" "\<forall>r \<in> set (cl_banned_irqs s). r < next_irq s" "irq \<notin> set (ban_numbers s)"
  defines "s' \<equiv> add_cl_banned_irq irq s"
  shows "mem_fails s' = [] \<and> (\<forall>r \<in> set (cl_banned_irqs s'). r < next_irq s') \<and> ban_numbers s' = ban_numbers s @ [irq] \<and> need_rescan s' = need_rescan s"
proof -
  have "find (same_irq s irq) (cl_banned_irqs s) = None"
    using assms(3) by (auto simp: find_None_iff same_irq_def ban_numbers_def)
  then have "s' = s\<lparr> irqs := (irqs s)(next_irq s := (zero_irq\<lparr> i_irq := irq, i_flags := i_flags zero_irq OR IRQ_FLAG_BANNED \<rparr>)),
      next_irq := next_irq s + 1, cl_banned_irqs := cl_banned_irqs s @ [next_irq s] \<rparr>"
    by (simp add: s'_def add_cl_banned_irq_def add_banned_irq_def calloc_irq_def mem_next_enough [OF assms(1)] upd_irq_def)
  moreover have "map (\<lambda>r. i_irq (((irqs s)(next_irq s := i)) r)) (cl_banned_irqs s) = ban_numbers s" for i
    using assms(2) by (auto simp: ban_numbers_def)
  ultimately show ?thesis using assms(1,2) by (auto simp: ban_numbers_def less_Suc_eq)
qed

lemma fold_add_cl_numbers:
  assumes "mem_fails s = []" "\<forall>r \<in> set (cl_banned_irqs s). r < next_irq s" "distinct is" "set is \<inter> set (ban_numbers s) = {}"
  shows "ban_numbers (fold add_cl_banned_irq is s) = ban_numbers s @ is \<and> need_rescan (fold add_cl_banned_irq is s) = need_rescan s"
  using assms
proof (induction "is" arbitrary: s)
  case (Cons i "is")
  have n: "i \<notin> set (ban_numbers s)" using Cons.prems(4) by simp
  from add_cl_numbers [OF Cons.prems(1,2) n] Cons.IH [of "add_cl_banned_irq i s"] Cons.prems(3,4) show ?case by auto
qed simp

section \<open>The list of CPUs of an interrupt\<close>

text \<open>The ranges of consecutive numbers, given the one under construction.\<close>

fun ranges :: "nat \<Rightarrow> nat \<Rightarrow> nat list \<Rightarrow> (nat \<times> nat) list" where
  "ranges b t [] = [(b, t)]"
| "ranges b t (v # vs) = (if v > t + 1 then (b, t) # ranges v v vs else ranges b v vs)"

lemma ranges_not_empty [simp]: "ranges b t vs \<noteq> []"
  by (induction b t vs rule: ranges.induct) simp_all

lemma ranges_union:
  "sorted_wrt (<) (t # vs) \<Longrightarrow> b \<le> t \<Longrightarrow> (\<Union>(a, b) \<in> set (ranges b t vs). {a..b}) = {b..t} \<union> set vs"
proof (induction b t vs rule: ranges.induct)
  case (2 b t v vs)
  then have "t < v" "b \<le> v" "sorted_wrt (<) (v # vs)" by simp_all
  moreover have "{b..v} = insert v {b..t}" if "v \<le> t + 1" using that \<open>t < v\<close> \<open>b \<le> v\<close> by auto
  ultimately show ?case using 2 by auto
qed simp

lemma ranges_bounds:
  "sorted_wrt (<) (t # vs) \<Longrightarrow> b \<le> t \<Longrightarrow> \<forall>v \<in> set (t # vs). v < n \<Longrightarrow> \<forall>(a, b) \<in> set (ranges b t vs). a \<le> b \<and> b < n"
  by (induction b t vs rule: ranges.induct) auto

definition emit_text :: "string \<Rightarrow> (nat \<times> nat) list \<Rightarrow> string" where
  "emit_text buf rs = buf @ (if buf = [] then [] else '','') @ list_text rs"

lemma emit_range:
  "length (emit_text buf [r]) \<le> 127 \<Longrightarrow> bsnl_emit (int (fst r)) (int (snd r)) buf = emit_text buf [r]"
  by (cases r) (auto simp: bsnl_emit_def emit_text_def append_128_def range_text_def dec_of_int_def)

lemma emit_text_Cons: "rs \<noteq> [] \<Longrightarrow> emit_text buf (r # rs) = emit_text (emit_text buf [r]) rs"
  using dec_digits_props(2) by (cases rs; cases r) (auto simp: emit_text_def range_text_def dec_of_nat_def)

lemma emit_ranges:
  "length (emit_text buf (ranges b t vs)) \<le> 127 \<Longrightarrow>
   (let (b', t', buf') = fold copy_assigned_obj (map int vs) (int b, int t, buf) in bsnl_emit b' t' buf') = emit_text buf (ranges b t vs)"
proof (induction b t vs arbitrary: buf rule: ranges.induct)
  case (1 b t)
  then show ?case using emit_range [of buf "(b, t)"] by simp
next
  case (2 b t v vs)
  show ?case
  proof (cases "v > t + 1")
    case True
    have "length (emit_text (emit_text buf [(b, t)]) (ranges v v vs)) \<le> 127"
      using 2(3) True emit_text_Cons [of "ranges v v vs" buf "(b, t)"] by simp
    moreover from this have "bsnl_emit (int b) (int t) buf = emit_text buf [(b, t)]"
      using emit_range [of buf "(b, t)"] by (simp add: emit_text_def)
    ultimately show ?thesis using 2(1) [OF True] True emit_text_Cons [of "ranges v v vs" buf "(b, t)"]
      by (simp add: copy_assigned_obj_def)
  next
    case False
    then show ?thesis using 2(2) [OF False] 2(3) by (simp add: copy_assigned_obj_def)
  qed
qed

lemma assigned_text:
  assumes "\<not> u_is_banned irq" "u_assigned_to irq = map int (v # vs)" "length (list_text (ranges v v vs)) \<le> 127"
  shows "print_assigned_objects_string rbot irq = Some (list_text (ranges v v vs))"
  using assms emit_ranges [of "[]" v v vs] by (simp add: print_assigned_objects_string_def copy_assigned_obj_def emit_text_def split: prod.splits)

section \<open>Theorems\<close>

text \<open>
  (C24) The settings are read back: the user interface gets from the reply of the daemon the interval, the
  banned interrupts and, from the hexadecimal text of the mask, the numbers of exactly the banned CPUs in
  ascending order. The text of the mask has to fit into the 512 bytes that the daemon has for it.
\<close>

theorem ui_reads_setup:
  assumes "mem_fails (d_state d) = []" "ints_ok (d_state d)" "loads_ok (d_state d)" "in_int (sleep_interval d)"
    and "length (bitmap_text (banned_cpus (d_state d)) NR_CPUS) < 512"
  shows "\<exists>reply. setup_reply d = Some (Some reply, d) \<and> parse_setup (Some reply) su =
    Inr \<lparr> su_sleep = of_int (sleep_interval d), su_banned_irqs = map (\<lambda>r. ui_irq_of True (irqs (d_state d) r)) (cl_banned_irqs (d_state d)),
          su_banned_cpus = map int (filter (array_bit (banned_cpus (d_state d))) [0..<NR_CPUS]) \<rparr>"
  using setup_reply_text [OF assms(1,2,4,5)] setup_parsed [OF assms(2-4) cpumask_cpus(2)] cpumask_cpus(1) by auto

text \<open>
  Banning CPUs works although the command always ends with the word that means no CPU: the daemon
  takes the numbers before it, so that at the next rebuild exactly the chosen CPUs and those that are
  too hot are banned, and when none is chosen the ban of the user interface is lifted. Each number has to be
  that of a CPU, and the text has to fit into the buffer.
\<close>

theorem ui_bans_cpus:
  assumes "carries c (cpu_ban_command cs)" "mem_fails (d_state d) = []"
    and "wf_cpumask (banned_cpus (d_state d))"
    and "length (numbers_text (banned_numbers cs)) \<le> 1005" "banned_numbers cs = map int vs" "\<forall>v \<in> set vs. v < NR_CPUS"
  shows "\<exists>d'. sock_handle True c d = Some (None, d') \<and> need_rescan (d_state d') \<and>
    (if vs = [] then cpu_ban_string (d_state d') = None
     else cpus_of (banned_cpus (setup_banned_cpus sys (d_state d'))) = set vs \<union> cpus_of (thermal_banned_cpus (d_state d)))"
  by (rule cpu_bans_reach_daemon [OF assms])


text \<open>
  The list of CPUs that is shown for an interrupt is a list in the notation of the kernel, from which
  exactly the CPUs of the interrupt are read back, as long as it fits into its 128 bytes.
\<close>

theorem ui_shows_cpu_list:
  assumes "\<not> u_is_banned irq" "u_assigned_to irq = map int (v # vs)" "sorted_wrt (<) (v # vs)" "length (list_text (ranges v v vs)) \<le> 127"
    and "wf_bitmap dst n" "int n \<le> INT_MAX" "\<forall>w \<in> set (v # vs). w < n"
  shows "\<exists>shown mk. print_assigned_objects_string rbot irq = Some shown \<and> raw_bitmap_parselist shown dst n = (Parsed, mk) \<and> bits_of mk n = set (v # vs)"
proof -
  note b = ranges_bounds [OF assms(3) le_refl assms(7)]
  from parselist_list_text [OF assms(5,6) ranges_not_empty b] ranges_union [OF assms(3) le_refl] assigned_text [OF assms(1,2,4)]
  show ?thesis by auto
qed

end
