(* ===== verification/Ui_Dialogs.thy ===== *)
theory Ui_Dialogs
  imports Ui_Windows Ui_Settings
begin

text \<open>
  The dialogs of the user interface: the cursor never leaves the list, so that the program does not
  fail when an entry is chosen, what is saved and what is discarded, and what the daemon does in the end.
\<close>

section \<open>Drawing\<close>

text \<open>Drawing changes the screen and counts the lines.\<close>

definition drawn :: "int \<Rightarrow> ui \<Rightarrow> ui \<Rightarrow> bool" where
  "drawn m u u' \<longleftrightarrow> (\<exists>scr rb nm pp. u' = u\<lparr> w_max_offset := m, w_screen := scr, w_rbot := rb, w_irq_name := nm, w_pipes := pp \<rparr>)"

lemma drawnD:
  "drawn m u u' \<Longrightarrow> w_max_offset u' = m \<and> w_offset u' = w_offset u \<and> w_all_cpus u' = w_all_cpus u \<and> w_all_irqs u' = w_all_irqs u \<and>
     w_sent u' = w_sent u \<and> w_state u' = w_state u \<and> w_conns u' = w_conns u \<and> w_setup u' = w_setup u \<and> w_tree u' = w_tree u"
  by (auto simp: drawn_def)

lemma drawn_trans: "drawn m u u' \<Longrightarrow> drawn m' u' u'' \<Longrightarrow> drawn m' u u''"
  unfolding drawn_def by (elim exE) (simp, blast)

lemma drawn_max: "drawn m (u\<lparr> w_max_offset := i \<rparr>) u' \<Longrightarrow> drawn m u u'"
  unfolding drawn_def by (elim exE) (simp, blast)

lemma drawn_put: "drawn (w_max_offset u) u (put ws u)"
  unfolding drawn_def put_def
  by (rule exI [of _ "w_screen u @ ws"], rule exI [of _ "w_rbot u"], rule exI [of _ "w_irq_name u"], rule exI [of _ "w_pipes u"]) simp

lemma drawn_count: "drawn i u u' \<Longrightarrow> drawn m u (u'\<lparr> w_max_offset := m \<rparr>)"
  unfolding drawn_def
proof (elim exE)
  fix scr rb nm pp
  assume "u' = u\<lparr> w_max_offset := i, w_screen := scr, w_rbot := rb, w_irq_name := nm, w_pipes := pp \<rparr>"
  then have "u'\<lparr> w_max_offset := m \<rparr> = u\<lparr> w_max_offset := m, w_screen := scr, w_rbot := rb, w_irq_name := nm, w_pipes := pp \<rparr>" by simp
  then show "\<exists>scr rb nm pp. u'\<lparr> w_max_offset := m \<rparr> = u\<lparr> w_max_offset := m, w_screen := scr, w_rbot := rb, w_irq_name := nm, w_pipes := pp \<rparr>"
    by blast
qed

lemma drawn_refl: "drawn m u (u\<lparr> w_max_offset := m \<rparr>)"
  unfolding drawn_def
  by (rule exI [of _ "w_screen u"], rule exI [of _ "w_rbot u"], rule exI [of _ "w_irq_name u"], rule exI [of _ "w_pipes u"]) simp

lemma cpu_lines_drawn:
  "drawn (w_max_offset u + 1) u (print_tmp_cpu_line env cpu u)" "drawn (w_max_offset u + 1) u (print_cpu_line env cpu u)"
proof -
  have eq: "w_max_offset (put ws u) = w_max_offset u" for ws by (simp add: put_def)
  show "drawn (w_max_offset u + 1) u (print_tmp_cpu_line env cpu u)" "drawn (w_max_offset u + 1) u (print_cpu_line env cpu u)"
    unfolding print_tmp_cpu_line_def print_cpu_line_def Let_def
    using drawn_count [OF drawn_put] drawn_refl by (auto simp: eq)
qed

lemma fold_drawn:
  assumes "\<And>x u. drawn (w_max_offset u + 1) u (f x u)"
  shows "drawn (w_max_offset u + int (length xs)) u (fold f xs u)"
proof (induction xs arbitrary: u)
  case Nil
  show ?case using drawn_refl [of "w_max_offset u" u] by simp
next
  case (Cons x xs)
  have "drawn (w_max_offset (f x u) + int (length xs)) u (fold f (x # xs) u)"
    using drawn_trans [OF assms Cons.IH] by simp
  then show ?case using drawnD [OF assms [of u x]] by (simp add: ac_simps)
qed

definition scroll_max :: "ui_env \<Rightarrow> int \<Rightarrow> nat \<Rightarrow> int" where
  "scroll_max env n len = max 0 (int len - (LINES env - n))"

lemma clip_drawn: "drawn m u u' \<Longrightarrow> drawn (max 0 (m - n)) u (clip_max n u')"
  using drawn_count [of m u u' "if m - n < 0 then 0 else m - n"] drawnD [of m u u'] by (auto simp: clip_max_def max_def)

lemma redraw_cpus_drawn: "drawn (scroll_max env 9 (length tmp)) u (redraw_cpus env tmp u)"
proof -
  have "drawn (0 + int (length tmp)) (u\<lparr> w_max_offset := 0 \<rparr>) (fold (print_tmp_cpu_line env) tmp (u\<lparr> w_max_offset := 0 \<rparr>))"
    using fold_drawn [of "print_tmp_cpu_line env", OF cpu_lines_drawn(1), of "u\<lparr> w_max_offset := 0 \<rparr>" tmp] by simp
  from clip_drawn [OF drawn_max [OF this], of "LINES env - 9"] show ?thesis by (simp add: redraw_cpus_def scroll_max_def)
qed

lemma print_all_cpus_drawn:
  assumes "w_all_cpus u \<noteq> []"
  shows "drawn (scroll_max env 8 (length (w_all_cpus u))) u (print_all_cpus env u)"
proof -
  let ?u = "put [At 4 3 2 ''NUMBER          IS BANNED''] (u\<lparr> w_max_offset := 0 \<rparr>)"
  have keep: "list_all_cpus s t su (w_all_cpus u) = w_all_cpus u" for s t su using assms by (simp add: list_all_cpus_def split: prod.split)
  have 1: "drawn 0 u ?u" using drawn_trans [OF drawn_refl drawn_put [of "u\<lparr> w_max_offset := 0 \<rparr>"]] by simp
  have "drawn (w_max_offset ?u + int (length (w_all_cpus ?u))) ?u (fold (print_cpu_line env) (w_all_cpus ?u) ?u)"
    by (rule fold_drawn [OF cpu_lines_drawn(2)])
  from clip_drawn [OF drawn_trans [OF 1 this], of "LINES env - 8"] drawnD [OF 1] show ?thesis
    by (simp add: print_all_cpus_def keep scroll_max_def Let_def)
qed

section \<open>The cursor\<close>

text \<open>
  The line of the cursor stands for an entry of the list. \<open>row\<close> is the line of the first entry; both dialogs
  show lines up to \<open>LINES - 4\<close> and scroll by \<open>LINES - (row + 3)\<close>.
\<close>

definition on_list :: "ui_env \<Rightarrow> int \<Rightarrow> nat \<Rightarrow> nat \<Rightarrow> ui \<Rightarrow> bool" where
  "on_list env row len pos u \<longleftrightarrow> row \<le> int pos \<and> int pos \<le> LINES env - 4 \<and> 0 \<le> w_offset u \<and> w_offset u \<le> scroll_max env (row + 3) len \<and>
     w_max_offset u \<le> scroll_max env (row + 3) len \<and> int pos + w_offset u - row < int len"

lemma on_list_same: "on_list env row len pos u \<Longrightarrow> w_offset u' = w_offset u \<Longrightarrow> w_max_offset u' = w_max_offset u \<Longrightarrow> on_list env row len pos u'"
  by (simp add: on_list_def)

lemma on_list_up: "on_list env row len pos u \<Longrightarrow> 0 \<le> row \<Longrightarrow> row < int pos \<Longrightarrow> on_list env row len (pos - 1) u"
  by (cases pos) (simp_all add: on_list_def)

lemma on_list_down: "on_list env row len pos u \<Longrightarrow> int pos < LINES env - 4 \<Longrightarrow> int pos + 1 + w_offset u - row < int len \<Longrightarrow> on_list env row len (pos + 1) u"
  by (simp add: on_list_def)

lemma on_list_scroll_up:
  "on_list env row len pos u \<Longrightarrow> 0 < w_offset u \<Longrightarrow> w_offset u' = w_offset u - 1 \<Longrightarrow> w_max_offset u' = scroll_max env (row + 3) len \<Longrightarrow>
     on_list env row len pos u'"
  by (simp add: on_list_def)

lemma on_list_scroll_down:
  "on_list env row len pos u \<Longrightarrow> w_offset u < w_max_offset u \<Longrightarrow> w_offset u' = w_offset u + 1 \<Longrightarrow>
     w_max_offset u' = scroll_max env (row + 3) len \<Longrightarrow> on_list env row len pos u'"
  by (auto simp: on_list_def scroll_max_def)

text \<open>On a list that does not fit on the screen every line above the end has an entry below it.\<close>

lemma on_list_scrolled:
  "on_list env row len pos u \<Longrightarrow> int pos < LINES env - 4 \<Longrightarrow> 0 < w_offset u \<Longrightarrow> int pos + 1 + w_offset u - row < int len"
  by (auto simp: on_list_def scroll_max_def)

section \<open>Dialogs\<close>

text \<open>A dialog that keeps an invariant, is only closed or left, and leaves the program in a state of a kind.\<close>

locale dialog =
  fixes step :: "ui_key \<Rightarrow> 's \<Rightarrow> ui_stop + ('s + ui)" and inv :: "'s \<Rightarrow> bool" and left :: "ui \<Rightarrow> bool"
  assumes only_closed: "inv s \<Longrightarrow> step k s = Inl e \<Longrightarrow> e = Closed"
    and keeps: "inv s \<Longrightarrow> step k s = Inr (Inl s') \<Longrightarrow> inv s'"
    and leaves: "inv s \<Longrightarrow> step k s = Inr (Inr u) \<Longrightarrow> left u"
begin

lemma dialog_stops: "inv s \<Longrightarrow> dialog_loop step keys s = Inl e \<Longrightarrow> e = Closed \<or> e = Waiting"
  by (induction keys arbitrary: s) (auto split: sum.splits dest: only_closed keeps)

lemma dialog_left: "inv s \<Longrightarrow> dialog_loop step keys s = Inr (u, rest) \<Longrightarrow> left u"
  by (induction keys arbitrary: s) (auto split: sum.splits dest: keeps leaves)

end

section \<open>Choosing CPUs\<close>

definition cpu_numbers :: "cpu_ban list \<Rightarrow> nat \<Rightarrow> bool" where
  "cpu_numbers cs n \<longleftrightarrow> map c_number cs = map int [0..<n]"

lemma cpu_numbers_length: "cpu_numbers cs n \<Longrightarrow> length cs = n"
  unfolding cpu_numbers_def by (metis diff_zero length_map length_upt)

lemma cpu_numbers_copy: "cpu_numbers (map copy_cpu_ban cs) n = cpu_numbers cs n"
  by (simp add: cpu_numbers_def comp_def copy_cpu_ban_def)

definition flip_cpu :: "cpu_ban \<Rightarrow> cpu_ban" where
  "flip_cpu e = e\<lparr> c_is_banned := \<not> c_is_banned e, c_is_changed := True \<rparr>"

lemma toggle_cpu_at:
  assumes "map c_number cs = map int [k..<k + length cs]" "i < length cs"
  shows "toggle_cpu cs (int (k + i)) = Some (\<not> c_is_banned (cs ! i), cs[i := flip_cpu (cs ! i)])"
  using assms
proof (induction cs arbitrary: k i)
  case (Cons e es)
  have "[k..<k + length (e # es)] = k # [Suc k..<Suc k + length es]" by (simp add: upt_rec)
  then have e: "c_number e = int k" "map c_number es = map int [Suc k..<Suc k + length es]" using Cons.prems(1) by simp_all
  show ?case
  proof (cases i)
    case 0
    then show ?thesis using e(1) by (simp add: flip_cpu_def)
  next
    case (Suc j)
    then show ?thesis using e Cons.IH [OF e(2), of j] Cons.prems(2) by simp
  qed
qed simp

lemma toggle_cpu_numbers:
  assumes "cpu_numbers cs n" "0 \<le> i" "i < int n"
  shows "toggle_cpu cs i = Some (\<not> c_is_banned (cs ! nat i), cs[nat i := flip_cpu (cs ! nat i)])"
    and "cpu_numbers (cs[nat i := flip_cpu (cs ! nat i)]) n"
proof -
  have len: "length cs = n" by (rule cpu_numbers_length [OF assms(1)])
  then show "toggle_cpu cs i = Some (\<not> c_is_banned (cs ! nat i), cs[nat i := flip_cpu (cs ! nat i)])"
    using toggle_cpu_at [of cs 0 "nat i"] assms by (simp add: cpu_numbers_def nat_less_iff)
  have "map c_number (cs[nat i := flip_cpu (cs ! nat i)]) = map c_number (cs[nat i := cs ! nat i])"
    using len by (simp only: map_update) (simp add: flip_cpu_def)
  then show "cpu_numbers (cs[nat i := flip_cpu (cs ! nat i)]) n" using assms(1) by (simp add: cpu_numbers_def)
qed

lemma cpu_below_iff:
  assumes "0 \<le> w_offset u" "w_offset u \<le> int (length (w_all_cpus u))" "length (w_all_cpus u) < 2 ^ 31"
  shows "cpu_below u pos \<longleftrightarrow> int pos + w_offset u \<le> int (length (w_all_cpus u)) + 4"
proof -
  define v where "v = nat (int (length (w_all_cpus u)) + 4 - w_offset u)"
  have v: "int v = int (length (w_all_cpus u)) + 4 - w_offset u" using assms by (simp add: v_def)
  then have "of_nat (length (w_all_cpus u)) + 4 - of_int (w_offset u) = (of_int (int v) :: u32)" by simp
  then have "of_nat (length (w_all_cpus u)) + 4 - of_int (w_offset u) = (of_nat v :: u32)" by simp
  moreover have "v < 2 ^ 32" using v assms(1,3) by simp
  ultimately have "unat (of_nat (length (w_all_cpus u)) + 4 - of_int (w_offset u) :: u32) = v"
    by (simp add: unat_of_nat take_bit_nat_eq_self)
  then show ?thesis using v by (simp add: cpu_below_def) linarith
qed

text \<open>The state of the dialog that was entered from a state \<open>u0\<close>.\<close>

definition cpu_dialog :: "ui_env \<Rightarrow> ui \<Rightarrow> nat \<times> cpu_ban list \<times> ui \<Rightarrow> bool" where
  "cpu_dialog env u0 = (\<lambda>(pos, tmp, u). 10 \<le> LINES env \<and> length (w_all_cpus u0) < 2 ^ 31 \<and>
     cpu_numbers (w_all_cpus u0) (length (w_all_cpus u0)) \<and> cpu_numbers tmp (length (w_all_cpus u0)) \<and>
     w_all_cpus u = w_all_cpus u0 \<and> w_sent u = w_sent u0 \<and> w_state u = w_state u0 \<and> w_tree u = w_tree u0 \<and> w_setup u = w_setup u0 \<and>
     on_list env 6 (length (w_all_cpus u0)) pos u)"

text \<open>Behind the dialog: nothing changed, or the copy is in force and its command was sent if there was a connection.\<close>

definition saved :: "('a list \<Rightarrow> string) \<Rightarrow> (ui \<Rightarrow> 'a list) \<Rightarrow> ui \<Rightarrow> ui \<Rightarrow> bool" where
  "saved command entries u0 u \<longleftrightarrow> (entries u = entries u0 \<and> w_sent u = w_sent u0) \<or>
     (\<exists>sent. w_sent u = w_sent u0 @ sent \<and> set sent \<subseteq> {command (entries u)})"

definition cpu_left :: "ui_env \<Rightarrow> ui \<Rightarrow> ui \<Rightarrow> bool" where
  "cpu_left env u0 u \<longleftrightarrow> cpu_numbers (w_all_cpus u) (length (w_all_cpus u0)) \<and> w_state u = w_state u0 \<and> w_tree u = w_tree u0 \<and> w_setup u = w_setup u0 \<and>
     0 \<le> w_offset u \<and> w_offset u \<le> scroll_max env 9 (length (w_all_cpus u0)) \<and> 0 \<le> w_max_offset u \<and> w_max_offset u \<le> scroll_max env 9 (length (w_all_cpus u0)) \<and>
     saved cpu_ban_command w_all_cpus u0 u"

lemma scroll_max_less: "0 \<le> scroll_max env n len" "10 \<le> LINES env \<Longrightarrow> 0 < len \<Longrightarrow> scroll_max env 9 len < int len" "scroll_max env 8 len \<le> scroll_max env 9 len"
  by (simp_all add: scroll_max_def)

lemma send_settings_fields:
  "w_all_cpus (send_settings env cmd u) = w_all_cpus u" "w_all_irqs (send_settings env cmd u) = w_all_irqs u"
  "w_state (send_settings env cmd u) = w_state u" "w_tree (send_settings env cmd u) = w_tree u" "w_setup (send_settings env cmd u) = w_setup u" "w_offset (send_settings env cmd u) = w_offset u"
  "w_max_offset (send_settings env cmd u) = w_max_offset u"
  "w_sent (send_settings env cmd u) = w_sent u @ (if connects env (w_conns u) then [cmd] else [])"
  by (simp_all add: send_settings_def Let_def)

lemma put_fields [simp]:
  "w_all_cpus (put ws u) = w_all_cpus u" "w_all_irqs (put ws u) = w_all_irqs u" "w_state (put ws u) = w_state u" "w_tree (put ws u) = w_tree u" "w_setup (put ws u) = w_setup u" "w_offset (put ws u) = w_offset u"
  "w_max_offset (put ws u) = w_max_offset u" "w_sent (put ws u) = w_sent u" "w_conns (put ws u) = w_conns u"
  by (simp_all add: put_def)

lemma redraw_cpus_fields:
  "w_all_cpus (redraw_cpus env tmp u) = w_all_cpus u" "w_sent (redraw_cpus env tmp u) = w_sent u" "w_state (redraw_cpus env tmp u) = w_state u" "w_tree (redraw_cpus env tmp u) = w_tree u" "w_setup (redraw_cpus env tmp u) = w_setup u"
  "w_offset (redraw_cpus env tmp u) = w_offset u" "w_max_offset (redraw_cpus env tmp u) = scroll_max env 9 (length tmp)"
  using drawnD [OF redraw_cpus_drawn [of env tmp u]] by simp_all

lemma cpu_dialog_step:
  assumes "cpu_dialog env u0 (pos, tmp, u)"
  shows "cpu_banning_key env k (pos, tmp, u) = Inl Closed \<or> (\<exists>s'. cpu_banning_key env k (pos, tmp, u) = Inr (Inl s') \<and> cpu_dialog env u0 s') \<or>
    (\<exists>u'. cpu_banning_key env k (pos, tmp, u) = Inr (Inr u') \<and> cpu_left env u0 u')"
proof -
  let ?n = "length (w_all_cpus u0)"
  have a: "10 \<le> LINES env" "cpu_numbers (w_all_cpus u0) ?n" "cpu_numbers tmp ?n" "w_all_cpus u = w_all_cpus u0" "w_sent u = w_sent u0"
    "w_state u = w_state u0" "on_list env 6 ?n pos u" "?n < 2 ^ 31" "w_tree u = w_tree u0" "w_setup u = w_setup u0" using assms by (simp_all add: cpu_dialog_def)
  have dialog: "cpu_dialog env u0 (p, t, v)" if "on_list env 6 ?n p v" "cpu_numbers t ?n" "w_all_cpus v = w_all_cpus u" "w_sent v = w_sent u" "w_state v = w_state u" "w_tree v = w_tree u" "w_setup v = w_setup u"
    for p t v using that a by (simp add: cpu_dialog_def)
  have len: "length tmp = ?n" by (rule cpu_numbers_length [OF a(3)])
  have pos: "6 \<le> pos" "0 \<le> int pos + w_offset u - 6" "int pos + w_offset u - 6 < int ?n" "0 \<le> w_offset u" using a(7) by (simp_all add: on_list_def)
  have ne: "w_all_cpus u0 \<noteq> []" using pos by auto
  have below: "cpu_below u pos \<longleftrightarrow> int pos + w_offset u \<le> int ?n + 4"
    using cpu_below_iff [of u pos] pos a(4,8) scroll_max_less(2) [OF a(1)] ne a(7) by (simp add: on_list_def)
  have left: "cpu_left env u0 (print_all_cpus env u)"
    using drawnD [OF print_all_cpus_drawn [of u env]] ne a scroll_max_less(1,3) [of env] by (simp add: cpu_left_def saved_def on_list_def)
  show ?thesis
  proof (cases k)
    case KEY_UP
    show ?thesis
    proof (cases "6 < pos")
      case True
      then show ?thesis using dialog [OF on_list_up [OF a(7)] a(3)] KEY_UP by (simp add: cpu_banning_key_def)
    next
      case False
      have "cpu_dialog env u0 (pos, tmp, redraw_cpus env tmp (u\<lparr> w_offset := w_offset u - 1 \<rparr>))" if "0 < w_offset u"
        by (rule dialog [OF on_list_scroll_up [OF a(7) that] a(3)]) (simp_all add: redraw_cpus_fields len)
      then show ?thesis using False KEY_UP assms by (simp add: cpu_banning_key_def)
    qed
  next
    case KEY_DOWN
    have ae: "above_end env pos \<longleftrightarrow> int pos < LINES env - 4" using a(1) by (simp add: above_end_def)
    show ?thesis
    proof (cases "above_end env pos")
      case True
      then have "cpu_dialog env u0 (pos + 1, tmp, u)" if "cpu_below u pos"
        using dialog [OF on_list_down [OF a(7)] a(3)] that ae below by simp
      then show ?thesis using True KEY_DOWN assms by (simp add: cpu_banning_key_def)
    next
      case False
      have "cpu_dialog env u0 (pos, tmp, redraw_cpus env tmp (u\<lparr> w_offset := w_offset u + 1 \<rparr>))" if "w_offset u < w_max_offset u"
        by (rule dialog [OF on_list_scroll_down [OF a(7) that] a(3)]) (simp_all add: redraw_cpus_fields len)
      then show ?thesis using False KEY_DOWN assms by (simp add: cpu_banning_key_def)
    qed
  next
    case Enter
    note t = toggle_cpu_numbers [OF a(3) pos(2,3)]
    show ?thesis using Enter t dialog [OF on_list_same [OF a(7)] t(2)] by (simp add: cpu_banning_key_def Let_def)
  next
    case Escape
    then show ?thesis using left by (simp add: cpu_banning_key_def)
  next
    case (Key c)
    have "cpu_left env u0 (send_settings env (cpu_ban_command (w_all_cpus v)) v)" if "v = print_all_cpus env (u\<lparr> w_all_cpus := tmp \<rparr>)" for v
    proof -
      have "tmp \<noteq> []" using len ne by auto
      from drawnD [OF print_all_cpus_drawn [of "u\<lparr> w_all_cpus := tmp \<rparr>" env]] this show ?thesis
        using a len scroll_max_less(1,3) [of env] unfolding that
        by (simp add: cpu_left_def saved_def on_list_def send_settings_fields)
    qed
    then show ?thesis using Key assms by (simp add: cpu_banning_key_def Let_def)
  qed (use assms in \<open>simp_all add: cpu_banning_key_def\<close>)
qed

interpretation cpu_menu: dialog "cpu_banning_key env" "cpu_dialog env u0" "cpu_left env u0" for env u0
proof
  fix s k
  assume inv: "cpu_dialog env u0 s"
  obtain pos tmp u where s: "s = (pos, tmp, u)" by (metis prod.exhaust)
  note step = cpu_dialog_step [OF inv [unfolded s], of k, folded s]
  show "cpu_banning_key env k s = Inl e \<Longrightarrow> e = Closed" for e using step by auto
  show "cpu_banning_key env k s = Inr (Inl s') \<Longrightarrow> cpu_dialog env u0 s'" for s' using step by auto
  show "cpu_banning_key env k s = Inr (Inr u') \<Longrightarrow> cpu_left env u0 u'" for u' using step by auto
qed

section \<open>Choosing interrupts\<close>

definition classes_ok :: "ui_irq list \<Rightarrow> bool" where
  "classes_ok is \<longleftrightarrow> (\<forall>i \<in> set is. u_class i < 8)"

lemma drawn_names: "drawn (w_max_offset u) u (u\<lparr> w_pipes := pp, w_irq_name := nm \<rparr>)" "drawn (w_max_offset u) u (u\<lparr> w_rbot := rb \<rparr>)"
proof -
  have "u\<lparr> w_pipes := pp, w_irq_name := nm \<rparr> = u\<lparr> w_max_offset := w_max_offset u, w_screen := w_screen u, w_rbot := w_rbot u, w_irq_name := nm, w_pipes := pp \<rparr>"
    by simp
  then show "drawn (w_max_offset u) u (u\<lparr> w_pipes := pp, w_irq_name := nm \<rparr>)" unfolding drawn_def by blast
  have "u\<lparr> w_rbot := rb \<rparr> = u\<lparr> w_max_offset := w_max_offset u, w_screen := w_screen u, w_rbot := rb, w_irq_name := w_irq_name u, w_pipes := w_pipes u \<rparr>"
    by simp
  then show "drawn (w_max_offset u) u (u\<lparr> w_rbot := rb \<rparr>)" unfolding drawn_def by blast
qed

lemma get_irq_name_drawn: "drawn (w_max_offset u) u (get_irq_name env n u)"
proof (cases "name_lines env (w_pipes u)")
  case None
  then show ?thesis using drawn_names(1) [where u = u and nm = "w_irq_name u" and pp = "w_pipes u + 1"] by (simp add: get_irq_name_def)
next
  case (Some ls)
  then show ?thesis using drawn_names(1) by (simp add: get_irq_name_def Let_def)
qed

lemma irq_writes_drawn:
  assumes "u_class irq < 8"
  shows "\<exists>u'. irq_writes first line irq u = Inr u' \<and> drawn (w_max_offset u) u u'"
proof -
  have "drawn (w_max_offset u) u (if u_is_banned irq then u else u\<lparr> w_rbot := rb \<rparr>)" for rb
    using drawn_names(2) [of u] drawn_refl [of "w_max_offset u" u] by simp
  from drawn_trans [OF this drawn_put] drawnD [OF this] have "drawn (w_max_offset u) u (put ws (if u_is_banned irq then u else u\<lparr> w_rbot := rb \<rparr>))" for ws rb
    by simp
  then show ?thesis using assms by (simp add: irq_writes_def Let_def IRQ_CLASS_TO_STR_def)
qed

lemma irq_line_drawn:
  assumes "u_class irq < 8"
  shows "\<exists>u'. print_tmp_irq_line env irq u = Inr u' \<and> drawn (w_max_offset u + 1) u u'" "\<exists>u'. print_irq_line env irq u = Inr u' \<and> drawn (w_max_offset u + 1) u u'"
proof -
  let ?u = "u\<lparr> w_max_offset := w_max_offset u + 1 \<rparr>"
  have 0: "drawn (w_max_offset u + 1) u ?u" by (rule drawn_refl)
  have "\<exists>u'. irq_writes first line irq ?u = Inr u' \<and> drawn (w_max_offset u + 1) u u'" for first line
    using irq_writes_drawn [OF assms, of first line ?u] drawn_trans [OF 0] by auto
  then show "\<exists>u'. print_tmp_irq_line env irq u = Inr u' \<and> drawn (w_max_offset u + 1) u u'" "\<exists>u'. print_irq_line env irq u = Inr u' \<and> drawn (w_max_offset u + 1) u u'"
    using 0 by (auto simp: print_tmp_irq_line_def print_irq_line_def Let_def)
qed

lemma foldE_drawn:
  assumes "\<And>x u. x \<in> set xs \<Longrightarrow> \<exists>u'. f x u = Inr u' \<and> drawn (w_max_offset u + 1) u u'"
  shows "\<exists>u'. foldE f xs u = Inr u' \<and> drawn (w_max_offset u + int (length xs)) u u'"
  using assms
proof (induction xs arbitrary: u)
  case Nil
  show ?case using drawn_refl [of "w_max_offset u" u] by simp
next
  case (Cons x xs)
  from Cons.prems [of x u] obtain u1 where 1: "f x u = Inr u1" "drawn (w_max_offset u + 1) u u1" by auto
  from Cons.IH [of u1] Cons.prems obtain u2 where 2: "foldE f xs u1 = Inr u2" "drawn (w_max_offset u1 + int (length xs)) u1 u2" by auto
  from drawn_trans [OF 1(2) 2(2)] drawnD [OF 1(2)] have "drawn (w_max_offset u + int (length (x # xs))) u u2" by (simp add: ac_simps)
  then show ?case using 1(1) 2(1) by (simp add: sbind_def)
qed

lemma irq_list_drawn:
  assumes "drawn 0 u v" "\<And>x u. x \<in> set xs \<Longrightarrow> \<exists>u'. f x u = Inr u' \<and> drawn (w_max_offset u + 1) u u'"
  shows "\<exists>u'. sbind (foldE f xs v) (\<lambda>u. Inr (clip_max n u)) = Inr u' \<and> drawn (max 0 (int (length xs) - n)) u u'"
proof -
  obtain w where w: "foldE f xs v = Inr w" "drawn (w_max_offset v + int (length xs)) v w" using foldE_drawn [of xs f v] assms(2) by blast
  then have "drawn (int (length xs)) u w" using drawn_trans [OF assms(1) w(2)] drawnD [OF assms(1)] by simp
  from clip_drawn [OF this, of n] show ?thesis using w(1) by (simp add: sbind_def)
qed

lemma names_drawn: "drawn 0 u (get_irq_name env n (u\<lparr> w_max_offset := 0 \<rparr>))" "drawn 0 u (get_irq_name env n (put ws (u\<lparr> w_max_offset := 0 \<rparr>)))"
proof -
  let ?u = "u\<lparr> w_max_offset := 0 \<rparr>"
  show "drawn 0 u (get_irq_name env n ?u)" using drawn_trans [OF drawn_refl get_irq_name_drawn [of ?u]] by simp
  have "drawn 0 u (put ws ?u)" using drawn_trans [OF drawn_refl drawn_put [of ?u]] by simp
  from drawn_trans [OF this get_irq_name_drawn [of "put ws ?u"]] show "drawn 0 u (get_irq_name env n (put ws ?u))" by simp
qed

lemma redraw_irqs_drawn: "classes_ok tmp \<Longrightarrow> \<exists>u'. redraw_irqs env tmp u = Inr u' \<and> drawn (scroll_max env 7 (length tmp)) u u'"
  unfolding redraw_irqs_def scroll_max_def Let_def
  by (rule irq_list_drawn [OF names_drawn(1)]) (simp add: classes_ok_def irq_line_drawn)

lemma print_all_irqs_drawn:
  assumes "classes_ok (w_all_irqs u)"
  shows "\<exists>u'. print_all_irqs env u = Inr u' \<and> drawn (scroll_max env 6 (length (w_all_irqs u))) u u'"
proof -
  let ?v = "get_irq_name env (LINES env - 2) (put [At 2 3 0 irq_header] (u\<lparr> w_max_offset := 0 \<rparr>))"
  have "w_all_irqs ?v = w_all_irqs u" using drawnD [OF names_drawn(2)] by blast
  then show ?thesis using irq_list_drawn [OF names_drawn(2), of "w_all_irqs u" "print_irq_line env"] assms
    by (simp add: print_all_irqs_def Let_def scroll_max_def classes_ok_def irq_line_drawn)
qed

definition same_irqs :: "ui_irq list \<Rightarrow> ui_irq list \<Rightarrow> bool" where
  "same_irqs xs ys \<longleftrightarrow> map u_vector xs = map u_vector ys \<and> map u_class xs = map u_class ys"

lemma same_irqs_length: "same_irqs xs ys \<Longrightarrow> length xs = length ys"
  unfolding same_irqs_def by (metis length_map)

lemma same_irqs_classes: "same_irqs xs ys \<Longrightarrow> classes_ok ys \<Longrightarrow> classes_ok xs"
  unfolding same_irqs_def classes_ok_def by (metis (mono_tags, lifting) image_iff list.set_map)

lemma same_irqs_copy: "same_irqs (map copy_irq is) is"
  by (simp add: same_irqs_def comp_def copy_irq_def)

definition flip_irq :: "ui_irq \<Rightarrow> ui_irq" where
  "flip_irq e = e\<lparr> u_is_banned := \<not> u_is_banned e, u_is_changed := True \<rparr>"

lemma toggle_irq_at:
  "0 \<le> i \<Longrightarrow> i < int (length is) \<Longrightarrow>
     toggle_irq is i = (if u_is_banned (is ! nat i) then 0 else 1, is[nat i := flip_irq (is ! nat i)])"
  by (simp add: toggle_irq_def flip_irq_def Let_def)

lemma same_irqs_flip: "same_irqs xs ys \<Longrightarrow> i < length xs \<Longrightarrow> same_irqs (xs[i := flip_irq (xs ! i)]) ys"
proof -
  assume a: "same_irqs xs ys" "i < length xs"
  have "map f (xs[i := flip_irq (xs ! i)]) = map f (xs[i := xs ! i])" if "f (flip_irq (xs ! i)) = f (xs ! i)" for f :: "ui_irq \<Rightarrow> int"
    by (simp only: map_update that)
  from this [of u_vector] this [of u_class] a show ?thesis by (simp add: same_irqs_def flip_irq_def)
qed

definition irq_dialog :: "ui_env \<Rightarrow> ui \<Rightarrow> nat \<times> ui_irq list \<times> ui \<Rightarrow> bool" where
  "irq_dialog env u0 = (\<lambda>(pos, tmp, u). 8 \<le> LINES env \<and> classes_ok (w_all_irqs u0) \<and> same_irqs tmp (w_all_irqs u0) \<and>
     w_all_irqs u = w_all_irqs u0 \<and> w_sent u = w_sent u0 \<and> w_state u = w_state u0 \<and> w_all_cpus u = w_all_cpus u0 \<and> w_tree u = w_tree u0 \<and> w_setup u = w_setup u0 \<and>
     (if w_all_irqs u0 = [] then pos = 4 \<and> w_offset u = 0 \<and> w_max_offset u = 0 else on_list env 4 (length (w_all_irqs u0)) pos u))"

definition irq_left :: "ui_env \<Rightarrow> ui \<Rightarrow> ui \<Rightarrow> bool" where
  "irq_left env u0 u \<longleftrightarrow> same_irqs (w_all_irqs u) (w_all_irqs u0) \<and> w_state u = w_state u0 \<and> w_all_cpus u = w_all_cpus u0 \<and> w_tree u = w_tree u0 \<and> w_setup u = w_setup u0 \<and>
     0 \<le> w_offset u \<and> w_offset u \<le> scroll_max env 7 (length (w_all_irqs u0)) \<and> 0 \<le> w_max_offset u \<and> w_max_offset u \<le> scroll_max env 7 (length (w_all_irqs u0)) \<and>
     saved irq_ban_command w_all_irqs u0 u"

text \<open>The windows are drawn again without a failure, and nothing else changes.\<close>

lemma irq_redraw:
  assumes "same_irqs tmp (w_all_irqs u0)" "classes_ok (w_all_irqs u0)"
  shows "\<exists>u'. redraw_irqs env tmp (u\<lparr> w_offset := off \<rparr>) = Inr u' \<and> w_offset u' = off \<and> w_max_offset u' = scroll_max env (4 + 3) (length (w_all_irqs u0)) \<and>
      w_all_irqs u' = w_all_irqs u \<and> w_sent u' = w_sent u \<and> w_state u' = w_state u \<and> w_all_cpus u' = w_all_cpus u \<and> w_tree u' = w_tree u \<and> w_setup u' = w_setup u"
  using redraw_irqs_drawn [OF same_irqs_classes [OF assms], of env "u\<lparr> w_offset := off \<rparr>"] same_irqs_length [OF assms(1)] by (auto dest!: drawnD)

lemma irq_print:
  assumes "same_irqs (w_all_irqs v) (w_all_irqs u0)" "classes_ok (w_all_irqs u0)" "w_sent v = w_sent u0" "w_state v = w_state u0" "w_all_cpus v = w_all_cpus u0"
    "w_tree v = w_tree u0" "w_setup v = w_setup u0" "0 \<le> w_offset v" "w_offset v \<le> scroll_max env 7 (length (w_all_irqs u0))"
  shows "\<exists>v'. print_all_irqs env v = Inr v' \<and> irq_left env u0 (send_settings env (irq_ban_command (w_all_irqs v')) v') \<and>
      (w_all_irqs v = w_all_irqs u0 \<longrightarrow> irq_left env u0 v')"
proof -
  have "scroll_max env 6 n \<le> scroll_max env 7 n" "0 \<le> scroll_max env 6 n" for n by (simp_all add: scroll_max_def)
  moreover have "length (w_all_irqs v) = length (w_all_irqs u0)" "classes_ok (w_all_irqs v)"
    using same_irqs_length same_irqs_classes assms(1,2) by blast+
  ultimately show ?thesis using print_all_irqs_drawn [of v env] assms
    by (auto dest!: drawnD simp: irq_left_def saved_def send_settings_fields)
qed

lemma irq_dialog_print:
  assumes "irq_dialog env u0 (pos, tmp, u)" "same_irqs xs (w_all_irqs u0)"
  shows "\<exists>v'. print_all_irqs env (u\<lparr> w_all_irqs := xs \<rparr>) = Inr v' \<and> irq_left env u0 (send_settings env (irq_ban_command (w_all_irqs v')) v') \<and>
      (xs = w_all_irqs u0 \<longrightarrow> irq_left env u0 v')"
  using irq_print [of "u\<lparr> w_all_irqs := xs \<rparr>" u0 env] assms scroll_max_less(1) [of env 7]
  by (simp add: irq_dialog_def on_list_def split: if_splits)

lemma irq_dialog_leave:
  assumes "irq_dialog env u0 (pos, tmp, u)"
  shows "\<exists>u'. irq_banning_key env Escape (pos, tmp, u) = Inr (Inr u') \<and> irq_left env u0 u'"
    "\<exists>u'. irq_banning_key env (Key (CHR ''s'')) (pos, tmp, u) = Inr (Inr u') \<and> irq_left env u0 u'"
proof -
  have a: "same_irqs tmp (w_all_irqs u0)" "w_all_irqs u = w_all_irqs u0" using assms by (simp_all add: irq_dialog_def)
  then have "same_irqs (w_all_irqs u) (w_all_irqs u0)" by (simp add: same_irqs_def)
  moreover have "u\<lparr> w_all_irqs := w_all_irqs u \<rparr> = u" by simp
  ultimately obtain v1 where "print_all_irqs env u = Inr v1" "irq_left env u0 v1" using irq_dialog_print [OF assms] a(2) by metis
  then show "\<exists>u'. irq_banning_key env Escape (pos, tmp, u) = Inr (Inr u') \<and> irq_left env u0 u'" by (simp add: irq_banning_key_def sbind_def)
  from irq_dialog_print [OF assms a(1)] obtain v2 where "print_all_irqs env (u\<lparr> w_all_irqs := tmp \<rparr>) = Inr v2"
    "irq_left env u0 (send_settings env (irq_ban_command (w_all_irqs v2)) v2)" by auto
  then show "\<exists>u'. irq_banning_key env (Key (CHR ''s'')) (pos, tmp, u) = Inr (Inr u') \<and> irq_left env u0 u'"
    by (simp add: irq_banning_key_def sbind_def)
qed

lemma irq_dialog_other:
  assumes "irq_dialog env u0 (pos, tmp, u)" "k \<noteq> KEY_UP" "k \<noteq> KEY_DOWN" "k \<noteq> Enter"
  shows "irq_banning_key env k (pos, tmp, u) = Inl Closed \<or> (\<exists>s'. irq_banning_key env k (pos, tmp, u) = Inr (Inl s') \<and> irq_dialog env u0 s') \<or>
    (\<exists>u'. irq_banning_key env k (pos, tmp, u) = Inr (Inr u') \<and> irq_left env u0 u')"
proof (cases "k = Escape \<or> k = Key (CHR ''s'')")
  case True
  then show ?thesis using irq_dialog_leave [OF assms(1)] by blast
next
  case False
  then show ?thesis using assms by (cases k) (simp_all add: irq_banning_key_def)
qed

text \<open>Without interrupts the cursor stays on the first line, and choosing has no effect.\<close>

lemma irq_dialog_empty:
  assumes "irq_dialog env u0 (pos, tmp, u)" "w_all_irqs u0 = []" "k = KEY_UP \<or> k = KEY_DOWN \<or> k = Enter"
  shows "\<exists>s'. irq_banning_key env k (pos, tmp, u) = Inr (Inl s') \<and> irq_dialog env u0 s'"
proof -
  have "tmp = []" using assms(1,2) same_irqs_length by (fastforce simp: irq_dialog_def)
  then show ?thesis using assms
    by (elim disjE) (simp_all add: irq_banning_key_def irq_dialog_def toggle_irq_def)
qed

lemma irq_dialog_move:
  assumes "irq_dialog env u0 (pos, tmp, u)" "w_all_irqs u0 \<noteq> []" "k = KEY_UP \<or> k = KEY_DOWN \<or> k = Enter"
  shows "\<exists>s'. irq_banning_key env k (pos, tmp, u) = Inr (Inl s') \<and> irq_dialog env u0 s'"
proof -
  let ?n = "length (w_all_irqs u0)"
  have a: "8 \<le> LINES env" "classes_ok (w_all_irqs u0)" "same_irqs tmp (w_all_irqs u0)" "w_all_irqs u = w_all_irqs u0"
    "on_list env 4 ?n pos u" using assms by (simp_all add: irq_dialog_def)
  have dialog: "irq_dialog env u0 (p, t, v)" if "on_list env 4 ?n p v" "same_irqs t (w_all_irqs u0)" "w_all_irqs v = w_all_irqs u" "w_sent v = w_sent u"
      "w_state v = w_state u" "w_all_cpus v = w_all_cpus u" "w_tree v = w_tree u" "w_setup v = w_setup u"
    for p t v using that assms by (simp add: irq_dialog_def)
  have pos: "4 \<le> pos" "0 \<le> int pos + w_offset u - 4" "int pos + w_offset u - 4 < int (length tmp)" "0 \<le> w_offset u"
    using a(5) same_irqs_length [OF a(3)] by (simp_all add: on_list_def)
  note redraw = irq_redraw [OF a(3,2), where env = env and u = u]
  show ?thesis
  proof (cases k)
    case KEY_UP
    show ?thesis
    proof (cases "4 < pos")
      case True
      then show ?thesis using dialog [OF on_list_up [OF a(5)] a(3)] KEY_UP by (simp add: irq_banning_key_def)
    next
      case False
      obtain u' where u': "redraw_irqs env tmp (u\<lparr> w_offset := w_offset u - 1 \<rparr>) = Inr u'" "w_offset u' = w_offset u - 1"
        "w_max_offset u' = scroll_max env (4 + 3) ?n" "w_all_irqs u' = w_all_irqs u" "w_sent u' = w_sent u" "w_state u' = w_state u" "w_all_cpus u' = w_all_cpus u" "w_tree u' = w_tree u" "w_setup u' = w_setup u" using redraw by blast
      have "irq_dialog env u0 (pos, tmp, u')" if "0 < w_offset u"
        by (rule dialog [OF on_list_scroll_up [OF a(5) that u'(2,3)] a(3) u'(4-9)])
      then show ?thesis using False KEY_UP assms u'(1) by (simp add: irq_banning_key_def sbind_def)
    qed
  next
    case KEY_DOWN
    have ae: "above_end env pos \<longleftrightarrow> int pos < LINES env - 4" using a(1) by (simp add: above_end_def)
    show ?thesis
    proof (cases "above_end env pos")
      case True
      then have "int pos + 1 + w_offset u - 4 < int ?n" if "pos < ?n + 3"
        using on_list_scrolled [OF a(5)] that ae pos(4) by (cases "0 < w_offset u") simp_all
      then have "irq_dialog env u0 (pos + 1, tmp, u)" if "pos < ?n + 3"
        using dialog [OF on_list_down [OF a(5)] a(3)] True that ae by simp
      then show ?thesis using True KEY_DOWN assms a(4) by (simp add: irq_banning_key_def)
    next
      case False
      obtain u' where u': "redraw_irqs env tmp (u\<lparr> w_offset := w_offset u + 1 \<rparr>) = Inr u'" "w_offset u' = w_offset u + 1"
        "w_max_offset u' = scroll_max env (4 + 3) ?n" "w_all_irqs u' = w_all_irqs u" "w_sent u' = w_sent u" "w_state u' = w_state u" "w_all_cpus u' = w_all_cpus u" "w_tree u' = w_tree u" "w_setup u' = w_setup u" using redraw by blast
      have "irq_dialog env u0 (pos, tmp, u')" if "w_offset u < w_max_offset u"
        by (rule dialog [OF on_list_scroll_down [OF a(5) that u'(2,3)] a(3) u'(4-9)])
      then show ?thesis using False KEY_DOWN assms u'(1) by (simp add: irq_banning_key_def sbind_def)
    qed
  next
    case Enter
    have f: "same_irqs (tmp[nat (int pos + w_offset u - 4) := flip_irq (tmp ! nat (int pos + w_offset u - 4))]) (w_all_irqs u0)"
      by (rule same_irqs_flip [OF a(3)]) (use pos(2,3) in \<open>simp add: nat_less_iff\<close>)
    show ?thesis using Enter toggle_irq_at [OF pos(2,3)] dialog [OF on_list_same [OF a(5)] f] by (simp add: irq_banning_key_def Let_def)
  qed (use assms in auto)
qed

lemma irq_dialog_step:
  assumes "irq_dialog env u0 (pos, tmp, u)"
  shows "irq_banning_key env k (pos, tmp, u) = Inl Closed \<or> (\<exists>s'. irq_banning_key env k (pos, tmp, u) = Inr (Inl s') \<and> irq_dialog env u0 s') \<or>
    (\<exists>u'. irq_banning_key env k (pos, tmp, u) = Inr (Inr u') \<and> irq_left env u0 u')"
  using irq_dialog_other [OF assms] irq_dialog_empty [OF assms] irq_dialog_move [OF assms] by blast

interpretation irq_menu: dialog "irq_banning_key env" "irq_dialog env u0" "irq_left env u0" for env u0
proof
  fix s k
  assume inv: "irq_dialog env u0 s"
  obtain pos tmp u where s: "s = (pos, tmp, u)" by (metis prod.exhaust)
  note step = irq_dialog_step [OF inv [unfolded s], of k, folded s]
  show "irq_banning_key env k s = Inl e \<Longrightarrow> e = Closed" for e using step by auto
  show "irq_banning_key env k s = Inr (Inl s') \<Longrightarrow> irq_dialog env u0 s'" for s' using step by auto
  show "irq_banning_key env k s = Inr (Inr u') \<Longrightarrow> irq_left env u0 u'" for u' using step by auto
qed

end
