(* ===== verification/Ui_Session.thy ===== *)
theory Ui_Session
  imports Ui_Dialogs
begin

text \<open>
  A session of the user interface: whatever keys are pressed, the program only ends by being closed,
  as long as the daemon gives answers that can be read and the CPUs are numbered without gaps.
\<close>

section \<open>The surroundings\<close>

text \<open>Every node that is displayed has a type with a name.\<close>

fun shown_types :: "nat \<Rightarrow> ui_node list \<Rightarrow> nat \<Rightarrow> bool" where
  "shown_types 0 nodes i = True"
| "shown_types (Suc fuel) nodes i = (unat (n_type (nodes ! i)) < 4 \<and> list_all (shown_types fuel nodes) (n_children (nodes ! i)))"

definition tree_ok :: "ui_node list \<times> nat list \<Rightarrow> bool" where
  "tree_ok = (\<lambda>(nodes, tree). list_all (shown_types (length nodes) nodes) tree)"

definition setups :: "ui_env \<Rightarrow> ui_setup set" where
  "setups env = {su. \<exists>n t su0. answer env SETUP n = Some t \<and> parse_setup (Some t) su0 = Inr su}"

definition trees :: "ui_env \<Rightarrow> (ui_node list \<times> nat list) set" where
  "trees env = {nt. \<exists>n t. answer env STATS n = Some t \<and> parse_into_tree (sort_int env) (undef_shift env) (Some t) = Inr nt}"

text \<open>The list of CPUs is not empty and numbered without gaps, and the classes of the interrupts have names.\<close>

definition lists_ok :: "ui_env \<Rightarrow> ui_node list \<times> nat list \<Rightarrow> ui_setup \<Rightarrow> bool" where
  "lists_ok env nt su \<longleftrightarrow> (let cs = list_all_cpus (sort_cpu env) nt su [] in cs \<noteq> [] \<and> length cs < 2 ^ 31 \<and> cpu_numbers cs (length cs)) \<and>
     classes_ok (get_all_irqs nt su)"

definition env_ok :: "ui_env \<Rightarrow> bool" where
  "env_ok env \<longleftrightarrow> 10 \<le> LINES env \<and>
     (\<forall>n. \<exists>t. answer env SETUP n = Some t \<and> length t < default_bufsz \<and> (\<forall>su0. \<exists>su. parse_setup (Some t) su0 = Inr su)) \<and>
     (\<forall>n. \<exists>t nt. answer env STATS n = Some t \<and> length t < default_bufsz \<and> parse_into_tree (sort_int env) (undef_shift env) (Some t) = Inr nt) \<and>
     (\<forall>nt \<in> trees env. tree_ok nt \<and> (\<forall>su \<in> setups env. lists_ok env nt su)) \<and>
     (\<forall>f is. mset (sort_irq env f is) = mset is)"

section \<open>The windows\<close>

lemma load_setup_ok:
  assumes "env_ok env"
  shows "\<exists>su \<in> setups env. load_setup env u = Inr (u\<lparr> w_conns := w_conns u + 1, w_setup := su \<rparr>)"
proof -
  obtain t su where t: "answer env SETUP (w_conns u) = Some t" "length t < default_bufsz" "parse_setup (Some t) (w_setup u) = Inr su"
    using assms unfolding env_ok_def by blast
  then have "su \<in> setups env" unfolding setups_def by blast
  then show ?thesis using t by (intro bexI [of _ su]) (simp_all add: load_setup_def get_data_def sbind_def)
qed

lemma load_tree_ok:
  assumes "env_ok env"
  shows "\<exists>nt \<in> trees env. load_tree env u = Inr (u\<lparr> w_conns := w_conns u + 1, w_tree := nt \<rparr>)"
proof -
  obtain t nt where t: "answer env STATS (w_conns u) = Some t" "length t < default_bufsz" "parse_into_tree (sort_int env) (undef_shift env) (Some t) = Inr nt"
    using assms unfolding env_ok_def by blast
  then have "nt \<in> trees env" unfolding trees_def by blast
  then show ?thesis using t by (intro bexI [of _ nt]) (simp_all add: load_tree_def get_data_def sbind_def)
qed

lemma node_irqs_drawn: "drawn (w_max_offset u + 1) u (display_tree_node_irqs env indent irq u)"
  unfolding display_tree_node_irqs_def Let_def using drawn_count [OF drawn_put] drawn_refl by auto

text \<open>Displaying a list of nodes, given that each of them can be displayed.\<close>

lemma foldE_nodes:
  assumes "\<And>x u. x \<in> set xs \<Longrightarrow> \<exists>u' m. f x u = Inr u' \<and> drawn m u u' \<and> w_max_offset u \<le> m"
  shows "\<exists>u' m. foldE f xs u = Inr u' \<and> drawn m u u' \<and> w_max_offset u \<le> m"
  using assms
proof (induction xs arbitrary: u)
  case Nil
  show ?case using drawn_refl [of "w_max_offset u" u] by auto
next
  case (Cons x xs)
  from Cons.prems [of x u] obtain u1 m1 where 1: "f x u = Inr u1" "drawn m1 u u1" "w_max_offset u \<le> m1" by auto
  from Cons.IH [of u1] Cons.prems obtain u2 m2 where 2: "foldE f xs u1 = Inr u2" "drawn m2 u1 u2" "w_max_offset u1 \<le> m2" by auto
  have "drawn m2 u u2" by (rule drawn_trans [OF 1(2) 2(2)])
  moreover have "w_max_offset u \<le> m2" using drawnD [OF 1(2)] 1(3) 2(3) by simp
  ultimately show ?case using 1(1) 2(1) by (auto simp: sbind_def)
qed

lemma display_node_ok:
  "shown_types fuel nodes i \<Longrightarrow> \<exists>u' m. display_tree_node fuel env nodes i u = Inr u' \<and> drawn m u u' \<and> w_max_offset u \<le> m"
proof (induction fuel arbitrary: i u)
  case 0
  show ?case using drawn_refl [of "w_max_offset u" u] by auto
next
  case (Suc fuel)
  let ?n = "nodes ! i" let ?ty = "unat (n_type (nodes ! i))"
  let ?u1 = "if w_max_offset u \<ge> w_offset u then put [Here (node_colour ?ty) (node_text ?n)] u else u"
  let ?u2 = "?u1\<lparr> w_max_offset := w_max_offset ?u1 + 1 \<rparr>"
  let ?u3 = "fold (display_tree_node_irqs env (node_indent ?ty)) (n_irqs ?n) ?u2"
  have "drawn (w_max_offset u + 1) u ?u2" using drawn_count [OF drawn_put] drawn_refl by auto
  from drawn_trans [OF this fold_drawn [of "display_tree_node_irqs env (node_indent ?ty)", OF node_irqs_drawn, of ?u2 "n_irqs ?n"]] drawnD [OF this]
  have 3: "drawn (w_max_offset u + 1 + int (length (n_irqs ?n))) u ?u3" by simp
  have "\<exists>u' m. foldE (display_tree_node fuel env nodes) (n_children ?n) ?u3 = Inr u' \<and> drawn m ?u3 u' \<and> w_max_offset ?u3 \<le> m"
    using Suc by (intro foldE_nodes) (simp add: list_all_iff)
  then obtain u' m where 4: "foldE (display_tree_node fuel env nodes) (n_children ?n) ?u3 = Inr u'" "drawn m ?u3 u'" "w_max_offset ?u3 \<le> m" by blast
  have "w_max_offset u \<le> m" using 4(3) drawnD [OF 3] by simp
  moreover have "drawn m u u'" by (rule drawn_trans [OF 3 4(2)])
  moreover have "display_tree_node (Suc fuel) env nodes i u = Inr u'" using Suc.prems 4(1) by (simp add: Let_def)
  ultimately show ?case by blast
qed

lemma display_tree_ok:
  assumes "env_ok env"
  shows "\<exists>u'. display_tree env u = Inr u' \<and> w_tree u' \<in> trees env \<and> w_setup u' \<in> setups env \<and> w_offset u' = w_offset u \<and> 0 \<le> w_max_offset u' \<and>
    w_state u' = w_state u \<and> w_all_cpus u' = w_all_cpus u"
proof -
  obtain su where su: "su \<in> setups env" "load_setup env (u\<lparr> w_screen := [] \<rparr>) = Inr (u\<lparr> w_screen := [], w_conns := w_conns u + 1, w_setup := su \<rparr>)"
    using load_setup_ok [OF assms, of "u\<lparr> w_screen := [] \<rparr>"] by auto
  let ?u1 = "u\<lparr> w_screen := [], w_conns := w_conns u + 1, w_setup := su \<rparr>"
  obtain nt where nt: "nt \<in> trees env" "load_tree env ?u1 = Inr (?u1\<lparr> w_conns := w_conns ?u1 + 1, w_tree := nt \<rparr>)"
    using load_tree_ok [OF assms, of ?u1] by blast
  obtain nodes tree where nodes: "nt = (nodes, tree)" by fastforce
  let ?u2 = "(display_banned_cpus (?u1\<lparr> w_conns := w_conns ?u1 + 1, w_tree := nt \<rparr>))\<lparr> w_max_offset := 0 \<rparr>"
  have "list_all (shown_types (length nodes) nodes) tree" using assms nt(1) nodes by (auto simp: env_ok_def tree_ok_def)
  then have "\<exists>u' m. foldE (display_tree_node (length nodes) env nodes) tree ?u2 = Inr u' \<and> drawn m ?u2 u' \<and> w_max_offset ?u2 \<le> m"
    by (intro foldE_nodes display_node_ok) (simp add: list_all_iff)
  then obtain u3 m where 3: "foldE (display_tree_node (length nodes) env nodes) tree ?u2 = Inr u3" "drawn m ?u2 u3" by blast
  have "display_tree env u = Inr (clip_max (LINES env - 5) u3)"
    using su(2) nt(2) 3(1) nodes by (simp add: display_tree_def sbind_def Let_def display_banned_cpus_def put_def)
  moreover note drawnD [OF 3(2)]
  ultimately show ?thesis using su(1) nt(1) by (simp add: clip_max_def display_banned_cpus_def)
qed
text \<open>The interval may be another one than the daemon's, after it was set.\<close>

definition like_setup :: "ui_env \<Rightarrow> ui_setup \<Rightarrow> bool" where
  "like_setup env su \<longleftrightarrow> (\<exists>sl. su\<lparr> su_sleep := sl \<rparr> \<in> setups env)"

lemma like_setup_member: "su \<in> setups env \<Longrightarrow> like_setup env su"
  unfolding like_setup_def by (rule exI [of _ "su_sleep su"]) simp

lemma lists_ok_like:
  assumes "env_ok env" "nt \<in> trees env" "like_setup env su"
  shows "lists_ok env nt su"
proof -
  obtain sl where "su\<lparr> su_sleep := sl \<rparr> \<in> setups env" using assms(3) by (auto simp: like_setup_def)
  then have "lists_ok env nt (su\<lparr> su_sleep := sl \<rparr>)" using assms(1,2) unfolding env_ok_def by blast
  then show ?thesis by (simp add: lists_ok_def list_all_cpus_def get_all_irqs_def split: prod.splits)
qed

definition cpus_ok :: "cpu_ban list \<Rightarrow> bool" where
  "cpus_ok cs \<longleftrightarrow> cs \<noteq> [] \<and> length cs < 2 ^ 31 \<and> cpu_numbers cs (length cs)"

lemma settings_ok:
  assumes "env_ok env" "w_tree u \<in> trees env" "w_all_cpus u = [] \<or> cpus_ok (w_all_cpus u)"
  shows "\<exists>u'. settings env u = Inr u' \<and> w_tree u' = w_tree u \<and> w_setup u' \<in> setups env \<and> w_offset u' = w_offset u \<and> w_state u' = w_state u \<and>
    cpus_ok (w_all_cpus u') \<and> (w_all_cpus u \<noteq> [] \<longrightarrow> w_all_cpus u' = w_all_cpus u) \<and> w_max_offset u' = scroll_max env 8 (length (w_all_cpus u'))"
proof -
  obtain su where su: "su \<in> setups env" "load_setup env (u\<lparr> w_screen := [] \<rparr>) = Inr (u\<lparr> w_screen := [], w_conns := w_conns u + 1, w_setup := su \<rparr>)"
    using load_setup_ok [OF assms(1), of "u\<lparr> w_screen := [] \<rparr>"] by auto
  define v where "v = put [At 2 3 1 (sleep_text (su_sleep su))]
    (u\<lparr> w_screen := [], w_conns := w_conns u + 1, w_setup := su \<rparr>)"
  have v: "w_tree v = w_tree u" "w_setup v = su" "w_offset v = w_offset u" "w_state v = w_state u" "w_all_cpus v = w_all_cpus u" by (simp_all add: v_def)
  define cs where "cs = list_all_cpus (sort_cpu env) (w_tree v) (w_setup v) (w_all_cpus v)"
  have cs: "cpus_ok cs" "w_all_cpus u \<noteq> [] \<Longrightarrow> cs = w_all_cpus u"
  proof -
    have keep: "list_all_cpus s t su' xs = xs" if "xs \<noteq> []" for s t su' xs using that by (simp add: list_all_cpus_def split: prod.split)
    show "w_all_cpus u \<noteq> [] \<Longrightarrow> cs = w_all_cpus u" using keep by (simp add: cs_def v)
    show "cpus_ok cs"
    proof (cases "w_all_cpus u = []")
      case True
      then show ?thesis using lists_ok_like [OF assms(1,2) like_setup_member [OF su(1)]] by (simp add: cs_def v lists_ok_def cpus_ok_def Let_def)
    next
      case False
      then show ?thesis using assms(3) keep by (simp add: cs_def v)
    qed
  qed
  have same: "print_all_cpus env v = print_all_cpus env (v\<lparr> w_all_cpus := cs \<rparr>)"
    using cs(1) by (simp add: print_all_cpus_def cs_def [symmetric] cpus_ok_def) (simp add: list_all_cpus_def split: prod.split)
  have "drawn (scroll_max env 8 (length cs)) (v\<lparr> w_all_cpus := cs \<rparr>) (print_all_cpus env v)"
    unfolding same using print_all_cpus_drawn [of "v\<lparr> w_all_cpus := cs \<rparr>" env] cs(1) by (simp add: cpus_ok_def)
  from drawnD [OF this] have "settings env u = Inr (print_all_cpus env v)" "w_all_cpus (print_all_cpus env v) = cs" "w_tree (print_all_cpus env v) = w_tree u"
    "w_setup (print_all_cpus env v) = su" "w_offset (print_all_cpus env v) = w_offset u" "w_state (print_all_cpus env v) = w_state u"
    "w_max_offset (print_all_cpus env v) = scroll_max env 8 (length cs)"
    using su(2) v_def by (simp_all add: settings_def sbind_def v)
  then show ?thesis using su(1) cs by simp
qed

lemma setup_irqs_ok:
  assumes "env_ok env" "w_tree u \<in> trees env" "like_setup env (w_setup u)"
  shows "\<exists>u'. setup_irqs env u = Inr u' \<and> w_tree u' = w_tree u \<and> w_setup u' = w_setup u \<and> w_offset u' = w_offset u \<and> w_state u' = w_state u \<and>
    w_all_cpus u' = w_all_cpus u \<and> classes_ok (w_all_irqs u') \<and> length (w_all_irqs u') = length (get_all_irqs (w_tree u) (w_setup u)) \<and>
    w_max_offset u' = scroll_max env 6 (length (w_all_irqs u'))"
proof -
  let ?is = "sort_irq env sort_all_irqs (get_all_irqs (w_tree u) (w_setup u))"
  have m: "mset ?is = mset (get_all_irqs (w_tree u) (w_setup u))" using assms(1) by (simp add: env_ok_def)
  then have "classes_ok ?is" using lists_ok_like [OF assms] mset_eq_setD [OF m] by (simp add: lists_ok_def classes_ok_def)
  moreover have "length ?is = length (get_all_irqs (w_tree u) (w_setup u))" using m by (metis size_mset)
  ultimately show ?thesis using print_all_irqs_drawn [of "u\<lparr> w_screen := [], w_all_irqs := ?is \<rparr>" env]
    by (auto simp: setup_irqs_def dest!: drawnD)
qed

section \<open>Every key\<close>

definition window_ok :: "ui_env \<Rightarrow> ui \<Rightarrow> bool" where
  "window_ok env u \<longleftrightarrow> w_tree u \<in> trees env \<and> like_setup env (w_setup u) \<and> 0 \<le> w_offset u \<and> 0 \<le> w_max_offset u \<and>
     (w_all_cpus u = [] \<or> cpus_ok (w_all_cpus u)) \<and>
     (case w_state u of
        STATE_TREE \<Rightarrow> True
      | STATE_SETTINGS \<Rightarrow> w_all_cpus u \<noteq> [] \<and> w_offset u \<le> scroll_max env 9 (length (w_all_cpus u)) \<and>
          w_max_offset u \<le> scroll_max env 9 (length (w_all_cpus u))
      | STATE_SETUP_IRQS \<Rightarrow> classes_ok (w_all_irqs u) \<and> length (w_all_irqs u) = length (get_all_irqs (w_tree u) (w_setup u)) \<and>
          w_offset u \<le> scroll_max env 7 (length (w_all_irqs u)) \<and> w_max_offset u \<le> scroll_max env 7 (length (w_all_irqs u)))"

lemmas scroll_max_mono = scroll_max_less(1,3)

lemma scroll_max_67: "scroll_max env 6 n \<le> scroll_max env 7 n"
  by (simp add: scroll_max_def)

text \<open>A window is drawn for an offset that it allows.\<close>

definition offset_ok :: "ui_env \<Rightarrow> ui \<Rightarrow> int \<Rightarrow> bool" where
  "offset_ok env u off \<longleftrightarrow> 0 \<le> off \<and>
     (case w_state u of
        STATE_TREE \<Rightarrow> True
      | STATE_SETTINGS \<Rightarrow> off \<le> scroll_max env 9 (length (w_all_cpus u))
      | STATE_SETUP_IRQS \<Rightarrow> off \<le> scroll_max env 7 (length (w_all_irqs u)))"

lemma scroll_window_ok:
  assumes env: "env_ok env" and w: "window_ok env u" and off: "offset_ok env u off"
  shows "\<exists>u'. scroll_window env (u\<lparr> w_offset := off \<rparr>) = Inr u' \<and> window_ok env u'"
proof (cases "w_state u")
  case STATE_TREE
  then show ?thesis using display_tree_ok [OF env, of "u\<lparr> w_offset := off \<rparr>"] w off
    by (auto simp: scroll_window_def window_ok_def offset_ok_def like_setup_member)
next
  case STATE_SETTINGS
  then show ?thesis using settings_ok [OF env, of "u\<lparr> w_offset := off \<rparr>"] w off scroll_max_mono [of env]
    by (auto simp: scroll_window_def window_ok_def offset_ok_def like_setup_member)
next
  case STATE_SETUP_IRQS
  then show ?thesis using setup_irqs_ok [OF env, of "u\<lparr> w_offset := off \<rparr>"] w off scroll_max_mono(1) [of env] scroll_max_67 [of env]
    by (auto simp: scroll_window_def window_ok_def offset_ok_def)
qed

lemma switch_ok:
  assumes env: "env_ok env" and w: "window_ok env u"
  shows "\<exists>u'. display_tree env (u\<lparr> w_state := STATE_TREE, w_offset := 0 \<rparr>) = Inr u' \<and> window_ok env u'"
    and "\<exists>u'. settings env (u\<lparr> w_state := STATE_SETTINGS, w_offset := 0 \<rparr>) = Inr u' \<and> window_ok env u' \<and> w_state u' = STATE_SETTINGS"
    and "\<exists>u'. setup_irqs env (u\<lparr> w_state := STATE_SETUP_IRQS, w_offset := 0 \<rparr>) = Inr u' \<and> window_ok env u'"
    and "w_state u = STATE_SETTINGS \<Longrightarrow> \<exists>u'. settings env u = Inr u' \<and> window_ok env u'"
proof -
  show "\<exists>u'. display_tree env (u\<lparr> w_state := STATE_TREE, w_offset := 0 \<rparr>) = Inr u' \<and> window_ok env u'"
    using display_tree_ok [OF env, of "u\<lparr> w_state := STATE_TREE, w_offset := 0 \<rparr>"] w by (auto simp: window_ok_def like_setup_member)
  show "\<exists>u'. settings env (u\<lparr> w_state := STATE_SETTINGS, w_offset := 0 \<rparr>) = Inr u' \<and> window_ok env u' \<and> w_state u' = STATE_SETTINGS"
    using settings_ok [OF env, of "u\<lparr> w_state := STATE_SETTINGS, w_offset := 0 \<rparr>"] w scroll_max_mono [of env]
    by (auto simp: window_ok_def like_setup_member cpus_ok_def)
  show "\<exists>u'. setup_irqs env (u\<lparr> w_state := STATE_SETUP_IRQS, w_offset := 0 \<rparr>) = Inr u' \<and> window_ok env u'"
    using setup_irqs_ok [OF env, of "u\<lparr> w_state := STATE_SETUP_IRQS, w_offset := 0 \<rparr>"] w scroll_max_mono(1) [of env] scroll_max_67 [of env]
    by (auto simp: window_ok_def)
  show "\<exists>u'. settings env u = Inr u' \<and> window_ok env u'" if "w_state u = STATE_SETTINGS"
    using settings_ok [OF env, of u] w scroll_max_mono [of env] that by (auto simp: window_ok_def like_setup_member cpus_ok_def)
qed

abbreviation harmless :: "ui_stop \<Rightarrow> bool" where
  "harmless e \<equiv> e = Closed \<or> e = Waiting"

lemma cpu_banning_ok:
  assumes env: "env_ok env" and w: "window_ok env u" "w_state u = STATE_SETTINGS"
  shows "handle_cpu_banning env keys u = Inl e \<Longrightarrow> harmless e" "handle_cpu_banning env keys u = Inr (u', rest) \<Longrightarrow> window_ok env u'"
proof -
  have l: "10 \<le> LINES env" using env by (simp add: env_ok_def)
  have cs: "cpus_ok (w_all_cpus u)" using w by (auto simp: window_ok_def)
  have inv: "cpu_dialog env u (6, map copy_cpu_ban (w_all_cpus u), u)"
    using w cs l scroll_max_less(2) [OF l, of "length (w_all_cpus u)"]
    by (simp add: cpu_dialog_def window_ok_def cpus_ok_def cpu_numbers_copy on_list_def)
  show "handle_cpu_banning env keys u = Inl e \<Longrightarrow> harmless e" unfolding handle_cpu_banning_def by (rule cpu_menu.dialog_stops [OF inv])
  assume "handle_cpu_banning env keys u = Inr (u', rest)"
  then have "cpu_left env u u'" unfolding handle_cpu_banning_def by (rule cpu_menu.dialog_left [OF inv])
  moreover from this have "length (w_all_cpus u') = length (w_all_cpus u)" using cpu_numbers_length by (simp add: cpu_left_def)
  ultimately show "window_ok env u'" using w cs by (auto simp: window_ok_def cpu_left_def cpus_ok_def)
qed

lemma irq_banning_ok:
  assumes env: "env_ok env" and w: "window_ok env u" "w_state u = STATE_SETUP_IRQS"
  shows "handle_irq_banning env keys u = Inl e \<Longrightarrow> harmless e" "handle_irq_banning env keys u = Inr (u', rest) \<Longrightarrow> window_ok env u'"
proof -
  have l: "10 \<le> LINES env" using env by (simp add: env_ok_def)
  have w': "classes_ok (w_all_irqs u)" "w_offset u \<le> scroll_max env 7 (length (w_all_irqs u))" "0 \<le> w_offset u"
    "0 \<le> w_max_offset u" "w_max_offset u \<le> scroll_max env 7 (length (w_all_irqs u))" using w by (auto simp: window_ok_def)
  have inv: "irq_dialog env u (4, map copy_irq (w_all_irqs u), u)"
  proof (cases "w_all_irqs u = []")
    case True
    then have "w_offset u = 0" "w_max_offset u = 0" using w' l by (simp_all add: scroll_max_def)
    then show ?thesis using True w' l same_irqs_copy [of "[]"] by (simp add: irq_dialog_def)
  next
    case False
    have "scroll_max env 7 (length (w_all_irqs u)) < int (length (w_all_irqs u))" using l False by (simp add: scroll_max_def)
    then show ?thesis using False w' l same_irqs_copy by (simp add: irq_dialog_def on_list_def)
  qed
  show "handle_irq_banning env keys u = Inl e \<Longrightarrow> harmless e" unfolding handle_irq_banning_def by (rule irq_menu.dialog_stops [OF inv])
  assume "handle_irq_banning env keys u = Inr (u', rest)"
  then have left: "irq_left env u u'" unfolding handle_irq_banning_def by (rule irq_menu.dialog_left [OF inv])
  then have "length (w_all_irqs u') = length (w_all_irqs u)" "classes_ok (w_all_irqs u')"
    using same_irqs_length same_irqs_classes w'(1) by (auto simp: irq_left_def)
  then show "window_ok env u'" using left w by (auto simp: window_ok_def irq_left_def)
qed

lemma sleep_input_stops: "check_control_in_sleep_input code behind keys input_to = Inl e \<Longrightarrow> harmless e"
proof (induction code behind keys input_to rule: check_control_in_sleep_input.induct)
  case (1 code behind keys input_to)
  then show ?case by (simp add: check_control_in_sleep_input.simps [of code behind keys] split: list.splits if_splits)
qed

lemma valid_sleep_stops: "get_valid_sleep_input code behind keys su = Inl e \<Longrightarrow> harmless e"
proof (induction code behind keys su rule: get_valid_sleep_input.induct)
  case (1 code behind keys su)
  note run = 1(2) [unfolded get_valid_sleep_input.simps [of code behind keys su]]
  show ?case
  proof (cases "check_control_in_sleep_input code behind keys []")
    case (Inl e')
    then show ?thesis using run sleep_input_stops [OF Inl] by simp
  next
    case (Inr r)
    obtain inp ks where r: "r = (inp, ks)" by fastforce
    show ?thesis
    proof (cases inp)
      case (Some input)
      obtain v rest where v: "strtol 10 input = (v, rest)" by fastforce
      have "\<not> (rest = [] \<and> (of_int v :: u64) \<ge> 1)" "get_valid_sleep_input code behind ks su = Inl e"
        using run Inr r Some v by (auto split: if_splits)
      from 1(1) [OF Inr r [symmetric] Some refl v [symmetric] this] show ?thesis .
    qed (use run Inr r in simp)
  qed
qed

lemma sleep_dialog_ok:
  assumes w: "window_ok env u"
  shows "sleep_dialog env keys u = Inl e \<Longrightarrow> harmless e" "sleep_dialog env keys u = Inr (u', rest) \<Longrightarrow> window_ok env u'"
proof -
  show "sleep_dialog env keys u = Inl e \<Longrightarrow> harmless e"
    by (auto simp: sleep_dialog_def handle_sleep_setting_def sbind_def split: sum.splits option.splits prod.splits dest: valid_sleep_stops)
  have like: "like_setup env (su\<lparr> su_sleep := i \<rparr>) = like_setup env su" for su i by (simp add: like_setup_def)
  have irqs: "get_all_irqs nt (su\<lparr> su_sleep := i \<rparr>) = get_all_irqs nt su" for nt su i by (simp add: get_all_irqs_def split: prod.splits)
  have "window_ok env (send_settings env cmd (u\<lparr> w_setup := (w_setup u)\<lparr> su_sleep := i \<rparr> \<rparr>))" for cmd i
    using w unfolding window_ok_def send_settings_fields by (auto simp: like irqs send_settings_fields split: ui_state.splits)
  moreover assume "sleep_dialog env keys u = Inr (u', rest)"
  ultimately show "window_ok env u'" using w
    by (auto simp: sleep_dialog_def handle_sleep_setting_def sleep_command_def sbind_def split: sum.splits option.splits prod.splits if_splits)
qed

lemma handle_key_ok:
  assumes env: "env_ok env" and w: "window_ok env u"
  shows "case handle_key env k keys u of Inl e \<Rightarrow> harmless e | Inr (u', rest) \<Rightarrow> window_ok env u'"
proof -
  have off: "0 \<le> w_offset u" "0 \<le> w_max_offset u" "\<And>off. 0 \<le> off \<Longrightarrow> off \<le> max (w_offset u) (w_max_offset u) \<Longrightarrow> offset_ok env u off"
    using w by (auto simp: window_ok_def offset_ok_def split: ui_state.splits)
  have pg: "0 \<le> page env st" for st using env by (simp add: page_def env_ok_def split: ui_state.split)
  have scroll: "case sbind (scroll_window env (u\<lparr> w_offset := off \<rparr>)) (\<lambda>u. Inr (u, keys)) of Inl e \<Rightarrow> harmless e | Inr (u', rest) \<Rightarrow> window_ok env u'"
    if "0 \<le> off" "off \<le> max (w_offset u) (w_max_offset u)" for off
    using scroll_window_ok [OF env w off(3) [OF that]] by (auto simp: sbind_def)
  note sw = switch_ok [OF env w]
  show ?thesis
  proof (cases k)
    case (Key c)
    then show ?thesis using w cpu_banning_ok [OF env w] irq_banning_ok [OF env w] sleep_dialog_ok [OF w]
      by (auto simp: handle_key_def Let_def split: sum.splits)
  next
    case KEY_F4
    obtain u1 where "(if w_state u \<noteq> STATE_SETTINGS then settings env (u\<lparr> w_state := STATE_SETTINGS, w_offset := 0 \<rparr>) else Inr u) = Inr u1"
      "window_ok env u1" "w_state u1 = STATE_SETTINGS" using sw(2) w by (cases "w_state u = STATE_SETTINGS") auto
    moreover from switch_ok(4) [OF env this(2,3)] obtain u2 where "settings env u1 = Inr u2" "window_ok env u2" by blast
    ultimately show ?thesis unfolding KEY_F4 handle_key_def Let_def by (simp add: sbind_def)
  next
    case KEY_NPAGE
    then show ?thesis using scroll [of "w_max_offset u"] scroll [of "w_offset u + page env (w_state u)"] off(1,2) pg [of "w_state u"]
      by (cases "w_max_offset u < w_offset u + page env (w_state u)") (simp_all add: handle_key_def Let_def)
  next
    case KEY_PPAGE
    then show ?thesis using scroll [of 0] scroll [of "w_offset u - page env (w_state u)"] off(1,2) pg [of "w_state u"]
      by (cases "w_offset u < page env (w_state u)") (simp_all add: handle_key_def Let_def)
  next
    case KEY_UP
    then show ?thesis using scroll [of "w_offset u - 1"] w by (simp add: handle_key_def Let_def)
  next
    case KEY_DOWN
    then show ?thesis using scroll [of "w_offset u + 1"] w off(1) by (simp add: handle_key_def Let_def)
  next
    case KEY_F3
    then show ?thesis using sw(1) w by (auto simp: handle_key_def Let_def sbind_def)
  next
    case KEY_F5
    then show ?thesis using sw(3) w by (auto simp: handle_key_def Let_def sbind_def)
  qed (use w in \<open>simp_all add: handle_key_def\<close>)
qed

lemma key_loop_ok:
  "env_ok env \<Longrightarrow> window_ok env u \<Longrightarrow> case key_loop env keys u of Inl e \<Rightarrow> harmless e | Inr u' \<Rightarrow> window_ok env u'"
proof (induction env keys u rule: key_loop.induct)
  case (2 env k keys u)
  note key = handle_key_ok [OF 2(2,3), of k keys]
  show ?case
  proof (cases "handle_key env k keys u")
    case (Inl e)
    then show ?thesis using key by simp
  next
    case (Inr r)
    obtain u' rest where r: "r = (u', rest)" by fastforce
    then have "window_ok env u'" using key Inr by simp
    from 2(1) [OF Inr r [symmetric] 2(2) this] show ?thesis using Inr r by simp
  qed
qed simp

section \<open>From the keys to the daemon\<close>

lemma cursor_down:
  assumes "10 \<le> LINES env" "w_offset u = 0" "length (w_all_cpus u) < 2 ^ 31"
  shows "j + i < length (w_all_cpus u) \<Longrightarrow> int (6 + j + i) \<le> LINES env - 4 \<Longrightarrow>
    dialog_loop (cpu_banning_key env) (replicate i KEY_DOWN @ keys) (6 + j, tmp, u) = dialog_loop (cpu_banning_key env) keys (6 + j + i, tmp, u)"
proof (induction i arbitrary: j)
  case (Suc i)
  have "above_end env (6 + j)" using Suc.prems(2) assms(1) by (simp add: above_end_def)
  moreover have "cpu_below u (6 + j)" using cpu_below_iff [of u "6 + j"] Suc.prems(1) assms(2,3) by simp
  ultimately have "cpu_banning_key env KEY_DOWN (6 + j, tmp, u) = Inr (Inl (6 + Suc j, tmp, u))" by (simp add: cpu_banning_key_def)
  then show ?case using Suc.IH [of "Suc j"] Suc.prems by (simp add: add.assoc)
qed simp

definition chosen :: "cpu_ban list \<Rightarrow> nat \<Rightarrow> cpu_ban list" where
  "chosen cs i = (map copy_cpu_ban cs)[i := flip_cpu (copy_cpu_ban (cs ! i))]"

lemma chosen_props:
  assumes "cpu_numbers cs (length cs)" "i < length cs"
  shows "toggle_cpu (map copy_cpu_ban cs) (int i) = Some (\<not> c_is_banned (cs ! i), chosen cs i)" "cpu_numbers (chosen cs i) (length cs)"
    "length (chosen cs i) = length cs" "j < length cs \<Longrightarrow> c_is_banned (chosen cs i ! j) \<longleftrightarrow> c_is_banned (cs ! j) \<noteq> (j = i)"
  using toggle_cpu_numbers [of "map copy_cpu_ban cs" "length cs" "int i"] assms
  by (auto simp: chosen_def cpu_numbers_copy nth_list_update flip_cpu_def copy_cpu_ban_def)

lemma choose_and_save:
  assumes env: "10 \<le> LINES env" and cs: "cpus_ok (w_all_cpus u)" and u: "w_offset u = 0"
    and i: "i < length (w_all_cpus u)" "int i \<le> LINES env - 10"
  shows "\<exists>u'. handle_cpu_banning env (replicate i KEY_DOWN @ [Enter, Key (CHR ''s'')] @ rest) u = Inr (u', rest) \<and>
    w_all_cpus u' = chosen (w_all_cpus u) i \<and> w_sent u' = w_sent u @ (if connects env (w_conns u) then [cpu_ban_command (chosen (w_all_cpus u) i)] else [])"
proof -
  let ?cs = "w_all_cpus u" let ?tmp = "map copy_cpu_ban (w_all_cpus u)" let ?new = "chosen (w_all_cpus u) i"
  let ?keys = "[Enter, Key (CHR ''s'')] @ rest"
  have num: "cpu_numbers ?cs (length ?cs)" "length ?cs < 2 ^ 31" using cs by (simp_all add: cpus_ok_def)
  note ch = chosen_props [OF num(1) i(1)]
  define v where "v = put [At (int (6 + i)) 3 3 (''CPU '' @ dec_of_int (int i) @ ''     ''), At (int (6 + i)) 19 3 (if \<not> c_is_banned (?cs ! i) then ''YES'' else ''NO '')] u"
  have v: "w_sent v = w_sent u" "w_conns v = w_conns u" by (simp_all add: v_def)
  have "handle_cpu_banning env (replicate i KEY_DOWN @ ?keys) u = dialog_loop (cpu_banning_key env) ?keys (6 + i, ?tmp, u)"
    using cursor_down [OF env u num(2), of 0 i ?keys ?tmp] i by (simp add: handle_cpu_banning_def)
  also have "cpu_banning_key env Enter (6 + i, ?tmp, u) = Inr (Inl (6 + i, ?new, v))"
    using ch(1) u by (simp add: cpu_banning_key_def v_def Let_def)
  then have "dialog_loop (cpu_banning_key env) ?keys (6 + i, ?tmp, u) = dialog_loop (cpu_banning_key env) (Key (CHR ''s'') # rest) (6 + i, ?new, v)" by simp
  finally have run: "handle_cpu_banning env (replicate i KEY_DOWN @ ?keys) u =
      Inr (send_settings env (cpu_ban_command (w_all_cpus w)) w, rest)" if "w = print_all_cpus env (v\<lparr> w_all_cpus := ?new \<rparr>)" for w
    by (simp add: cpu_banning_key_def Let_def that)
  have "?new \<noteq> []" using ch(3) i by auto
  from drawnD [OF print_all_cpus_drawn [of "v\<lparr> w_all_cpus := ?new \<rparr>" env]] this v
  show ?thesis unfolding run [OF refl] by (simp add: send_settings_fields)
qed

lemma banned_numbers_filter:
  assumes "cpu_numbers cs n"
  shows "banned_numbers cs = map int (filter (\<lambda>j. c_is_banned (cs ! j)) [0..<n])"
proof -
  have len: "length cs = n" by (rule cpu_numbers_length [OF assms])
  have nth: "c_number (cs ! j) = int j" if "j < n" for j
    using arg_cong [OF assms [unfolded cpu_numbers_def], of "\<lambda>xs. xs ! j"] that len by simp
  have "filter c_is_banned (map (nth cs) [0..<n]) = map (nth cs) (filter (\<lambda>j. c_is_banned (cs ! j)) [0..<n])" by (simp add: filter_map comp_def)
  moreover have "map (nth cs) [0..<n] = cs" using len map_nth [of cs] by simp
  ultimately have "banned_numbers cs = map (\<lambda>j. c_number (cs ! j)) (filter (\<lambda>j. c_is_banned (cs ! j)) [0..<n])" by (simp add: banned_numbers_def comp_def)
  also have "\<dots> = map int (filter (\<lambda>j. c_is_banned (cs ! j)) [0..<n])" by (intro map_cong refl) (simp add: nth)
  finally show ?thesis .
qed

section \<open>Theorems\<close>



end
