(* ===== verification/Netlink.thy ===== *)
theory Netlink
  imports Thermal
begin

text \<open>
  The netlink connection over which \<open>thermal.c\<close> receives its events: opening it with \<open>init_thermal\<close>,
  asking the kernel for the multicast group of the thermal events, and closing it with \<open>deinit_thermal\<close>.
  The library (libnl) is a parameter: each of its calls gives a result and a new state of the library.
\<close>

section \<open>The library\<close>

datatype nl_cb_kind = NL_CB_VALID | NL_CB_FINISH | NL_CB_ACK | NL_CB_SEQ_CHECK

text \<open>An entry of the list of groups: whether it can be parsed, its name and its id.\<close>

type_synonym group_entry = "bool \<times> string option \<times> u32 option"

text \<open>
  What \<open>nl_recvmsgs\<close> hands to the callbacks: an error, an acknowledgement, the end of a dump, or a valid
  message with the result of parsing it and its list of groups.
\<close>

datatype nl_event =
    Nl_error int
  | Nl_ack
  | Nl_finish
  | Nl_valid bool "group_entry list option"

text \<open>The calls, and two constants of the headers: the name of the group and the code of an interruption.\<close>

record 'k nl_ops =
  THERMAL_GENL_EVENT_GROUP_NAME :: string
  NLE_INTR :: int
  nl_socket_alloc :: "'k \<Rightarrow> bool \<times> 'k"
  genl_connect :: "'k \<Rightarrow> int \<times> 'k"
  nl_cb_alloc :: "'k \<Rightarrow> bool \<times> 'k"
  nlmsg_alloc :: "'k \<Rightarrow> bool \<times> 'k"
  genl_ctrl_resolve :: "'k \<Rightarrow> int \<times> 'k"
  genlmsg_put :: "'k \<Rightarrow> bool \<times> 'k"
  nla_put_string :: "'k \<Rightarrow> int \<times> 'k"
  nl_cb_clone :: "'k \<Rightarrow> bool \<times> 'k"
  nl_send_auto :: "'k \<Rightarrow> int \<times> 'k"
  nl_cb_err :: "'k \<Rightarrow> int \<times> 'k"
  nl_cb_set :: "nl_cb_kind \<Rightarrow> 'k \<Rightarrow> int \<times> 'k"
  nl_recvmsgs :: "'k \<Rightarrow> (nl_event list \<times> int) \<times> 'k"
  nl_socket_add_membership :: "int \<Rightarrow> 'k \<Rightarrow> int \<times> 'k"
  nl_socket_set_nonblocking :: "'k \<Rightarrow> int \<times> 'k"
  nl_socket_get_fd :: "'k \<Rightarrow> int \<times> 'k"

section \<open>The connection\<close>

datatype resource = Socket | Callback | Cloned_callback | Message

datatype nl_handler = Handler_for_debug | Handle_thermal_event

text \<open>
  The variables \<open>sock\<close> and \<open>callback\<close> (whether they are not null), the resources that were allocated and
  not yet released, the handlers of \<open>callback\<close>, the groups that were joined and the file descriptors
  that the main loop watches.
\<close>

record netlink =
  sock :: bool
  callback :: bool
  held :: "resource list"
  handlers :: "(nl_cb_kind \<times> nl_handler) list"
  joined :: "int list"
  watched :: "int list"

definition no_netlink :: netlink where
  "no_netlink = \<lparr> sock = False, callback = False, held = [], handlers = [], joined = [], watched = [] \<rparr>"

definition INVALID_NL_FD :: int where "INVALID_NL_FD = - 1"
definition SYSCONF_ERR :: int where "SYSCONF_ERR = - 1"

text \<open>Calls one after the other until one of them fails; whether all succeeded.\<close>

fun all_succeed :: "('k \<Rightarrow> bool \<times> 'k) list \<Rightarrow> 'k \<Rightarrow> bool \<times> 'k" where
  "all_succeed [] k = (True, k)"
| "all_succeed (call # calls) k = (let (ok, k) = call k in if ok then all_succeed calls k else (False, k))"

text \<open>The checks \<open>if (rc)\<close> and \<open>if (rc < 0)\<close>.\<close>

definition zero_rc :: "('k \<Rightarrow> int \<times> 'k) \<Rightarrow> 'k \<Rightarrow> bool \<times> 'k" where
  "zero_rc call k = (let (rc, k) = call k in (rc = 0, k))"

definition nonneg_rc :: "('k \<Rightarrow> int \<times> 'k) \<Rightarrow> 'k \<Rightarrow> bool \<times> 'k" where
  "nonneg_rc call k = (let (rc, k) = call k in (rc \<ge> 0, k))"

text \<open>The functions return whether there was an error.\<close>

definition prepare_netlink :: "'k nl_ops \<Rightarrow> netlink \<times> 'k \<Rightarrow> bool \<times> netlink \<times> 'k" where
  "prepare_netlink ops = (\<lambda>(n, k).
     let (ok, k) = nl_socket_alloc ops k
     in if \<not> ok then (True, n\<lparr> sock := False \<rparr>, k)
        else
          let n = n\<lparr> sock := True, held := Socket # held n \<rparr>;
              (rc, k) = genl_connect ops k
          in if rc \<noteq> 0 then (True, n, k)
             else
               let (ok, k) = nl_cb_alloc ops k
               in if \<not> ok then (True, n\<lparr> callback := False \<rparr>, k)
                  else (False, n\<lparr> callback := True, held := Callback # held n \<rparr>, k))"

section \<open>Looking for the group\<close>

text \<open>\<open>strncmp(a, b, n) == 0\<close>, where the text ends at the end of the list.\<close>

fun strncmp_eq :: "nat \<Rightarrow> string \<Rightarrow> string \<Rightarrow> bool" where
  "strncmp_eq 0 a b = True"
| "strncmp_eq (Suc n) a b =
     (let ca = (case a of [] \<Rightarrow> NUL | c # _ \<Rightarrow> c); cb = (case b of [] \<Rightarrow> NUL | c # _ \<Rightarrow> c)
      in ca = cb \<and> (ca = NUL \<or> strncmp_eq n (drop 1 a) (drop 1 b)))"

text \<open>The loop over the groups stops at the first one that has the name.\<close>

fun find_group :: "string \<Rightarrow> group_entry list \<Rightarrow> int \<Rightarrow> int" where
  "find_group grp [] gid = gid"
| "find_group grp ((ok, name, i) # es) gid =
     (if \<not> ok then find_group grp es gid
      else if name = None \<or> i = None then find_group grp es gid
      else if \<not> strncmp_eq (length (the name)) (the name) grp then find_group grp es gid
      else sint (the i))"

definition handle_groupid :: "string \<Rightarrow> bool \<Rightarrow> group_entry list option \<Rightarrow> int \<Rightarrow> int" where
  "handle_groupid grp ok mcgrp gid =
     (if \<not> ok then gid else case mcgrp of None \<Rightarrow> gid | Some es \<Rightarrow> find_group grp es gid)"

text \<open>The error callback ignores an interruption.\<close>

definition handle_error :: "'k nl_ops \<Rightarrow> int \<Rightarrow> int \<Rightarrow> int" where
  "handle_error ops err callback_rc = (if err \<noteq> - NLE_INTR ops then err else callback_rc)"

definition handle_end :: "int \<Rightarrow> int" where
  "handle_end callback_rc = 0"

text \<open>The callbacks of the cloned callback handle, on \<open>callback_rc\<close> and \<open>nldata.id\<close>.\<close>

fun handle_event :: "'k nl_ops \<Rightarrow> nl_event \<Rightarrow> int \<times> int \<Rightarrow> int \<times> int" where
  "handle_event ops (Nl_error err) (callback_rc, gid) = (handle_error ops err callback_rc, gid)"
| "handle_event ops Nl_ack (callback_rc, gid) = (handle_end callback_rc, gid)"
| "handle_event ops Nl_finish (callback_rc, gid) = (handle_end callback_rc, gid)"
| "handle_event ops (Nl_valid ok mcgrp) (callback_rc, gid) =
     (callback_rc, handle_groupid (THERMAL_GENL_EVENT_GROUP_NAME ops) ok mcgrp gid)"

text \<open>\<open>while (callback_rc != 0)\<close>: None when the loop does not end; the first component is false for \<open>rc < 0\<close>.\<close>

partial_function (option) receive_groups :: "'k nl_ops \<Rightarrow> int \<times> int \<Rightarrow> 'k \<Rightarrow> (bool \<times> int \<times> 'k) option" where
  "receive_groups ops cg k =
     (if fst cg = 0 then Some (True, snd cg, k)
      else let ((events, rc), k) = nl_recvmsgs ops k; cg = fold (handle_event ops) events cg
           in if rc < 0 then Some (False, snd cg, k) else receive_groups ops cg k)"

definition ENOENT :: int where "ENOENT = 2"

text \<open>\<open>err_out\<close>: \<open>nl_cb_put\<close> and \<open>nlmsg_free\<close> accept a null pointer.\<close>

definition release_establish :: "bool \<Rightarrow> bool \<Rightarrow> netlink \<Rightarrow> netlink" where
  "release_establish cloned msg n =
     (let n = (if cloned then n\<lparr> held := remove1 Cloned_callback (held n) \<rparr> else n)
      in if msg then n\<lparr> held := remove1 Message (held n) \<rparr> else n)"

definition establish_netlink :: "'k nl_ops \<Rightarrow> netlink \<times> 'k \<Rightarrow> (bool \<times> netlink \<times> 'k) option" where
  "establish_netlink ops = (\<lambda>(n, k).
     let (msg, k) = nlmsg_alloc ops k
     in if \<not> msg then Some (True, release_establish False False n, k)
        else
          let n = n\<lparr> held := Message # held n \<rparr>;
              (ok, k) = all_succeed [nonneg_rc (genl_ctrl_resolve ops), genlmsg_put ops, zero_rc (nla_put_string ops)] k
          in if \<not> ok then Some (True, release_establish False True n, k)
             else
               let (cloned, k) = nl_cb_clone ops k
               in if \<not> cloned then Some (True, release_establish False True n, k)
                  else
                    let n = n\<lparr> held := Cloned_callback # held n \<rparr>;
                        (ok, k) = all_succeed [nonneg_rc (nl_send_auto ops), zero_rc (nl_cb_err ops), zero_rc (nl_cb_set ops NL_CB_ACK),
                                               zero_rc (nl_cb_set ops NL_CB_FINISH), zero_rc (nl_cb_set ops NL_CB_VALID)] k
                    in if \<not> ok then Some (True, release_establish True True n, k)
                       else do {
                         (received, group_id, k) \<leftarrow> receive_groups ops (1, - ENOENT) k;
                         if \<not> received then Some (True, release_establish True True n, k)
                         else if group_id < 0 then Some (True, release_establish True True n, k)
                         else
                           let (rc, k) = nl_socket_add_membership ops group_id k
                           in if rc \<noteq> 0 then Some (True, release_establish True True n, k)
                              else Some (False, release_establish True True (n\<lparr> joined := joined n @ [group_id] \<rparr>), k)
                       })"

section \<open>Handlers and main loop\<close>

definition register_netlink_handler :: "sys \<Rightarrow> 'k nl_ops \<Rightarrow> netlink \<times> 'k \<Rightarrow> bool \<times> netlink \<times> 'k" where
  "register_netlink_handler sys ops = (\<lambda>(n, k).
     if nprocessors_onln sys = SYSCONF_ERR then (True, n, k)
     else
       let (rc, k) = nl_cb_set ops NL_CB_SEQ_CHECK k
       in if rc \<noteq> 0 then (True, n, k)
          else
            let n = n\<lparr> handlers := handlers n @ [(NL_CB_SEQ_CHECK, Handler_for_debug)] \<rparr>;
                (rc, k) = nl_cb_set ops NL_CB_VALID k
            in if rc \<noteq> 0 then (True, n, k)
               else (False, n\<lparr> handlers := handlers n @ [(NL_CB_VALID, Handle_thermal_event)] \<rparr>, k))"

definition set_netlink_nonblocking :: "'k nl_ops \<Rightarrow> netlink \<times> 'k \<Rightarrow> bool \<times> netlink \<times> 'k" where
  "set_netlink_nonblocking ops = (\<lambda>(n, k).
     let (rc, k) = nl_socket_set_nonblocking ops k
     in if rc \<noteq> 0 then (True, n, k)
        else
          let (fd, k) = nl_socket_get_fd ops k
          in if fd = INVALID_NL_FD then (True, n, k)
             else (False, n\<lparr> watched := watched n @ [fd] \<rparr>, k))"

text \<open>Releasing the callback handle releases its handlers, and the membership ends with the socket.\<close>

definition deinit_thermal :: "netlink \<Rightarrow> netlink" where
  "deinit_thermal n =
     (let n = (if callback n then n\<lparr> held := remove1 Callback (held n), handlers := [], callback := False \<rparr> else n)
      in if sock n then n\<lparr> held := remove1 Socket (held n), joined := [], sock := False \<rparr> else n)"

definition init_thermal :: "sys \<Rightarrow> 'k nl_ops \<Rightarrow> netlink \<times> 'k \<Rightarrow> (bool \<times> netlink \<times> 'k) option" where
  "init_thermal sys ops nk =
     (let (error, n, k) = prepare_netlink ops nk
      in if error then Some (True, deinit_thermal n, k)
         else do {
           (error, n, k) \<leftarrow> establish_netlink ops (n, k);
           if error then Some (True, deinit_thermal n, k)
           else
             let (error, n, k) = register_netlink_handler sys ops (n, k)
             in if error then Some (True, deinit_thermal n, k)
                else
                  let (error, n, k) = set_netlink_nonblocking ops (n, k)
                  in if error then Some (True, deinit_thermal n, k)
                     else Some (False, n, k)
         })"

section \<open>What is held\<close>

text \<open>Nothing but the membership may differ after \<open>establish_netlink\<close>: its message and its callback are released on every path.\<close>

definition same_but_groups :: "netlink \<Rightarrow> netlink \<Rightarrow> bool" where
  "same_but_groups n n' \<longleftrightarrow> n'\<lparr> joined := joined n \<rparr> = n"

lemma release_both: "release_establish True True (n\<lparr> held := Cloned_callback # Message # held n \<rparr>) = n"
  "release_establish False True (n\<lparr> held := Message # held n \<rparr>) = n" "release_establish False False n = n"
  by (simp_all add: release_establish_def)

lemma release_joined:
  "release_establish True True (n\<lparr> held := Cloned_callback # Message # held n, joined := gs \<rparr>) = n\<lparr> joined := gs \<rparr>"
  by (simp add: release_establish_def)

lemma establish_netlink_releases:
  assumes "establish_netlink ops (n, k) = Some (err, n', k')"
  shows "if err then n' = n else \<exists>g \<ge> 0. n' = n\<lparr> joined := joined n @ [g] \<rparr>"
proof -
  obtain msg k1 where 1: "nlmsg_alloc ops k = (msg, k1)" by fastforce
  obtain ok1 k2 where 2: "all_succeed [nonneg_rc (genl_ctrl_resolve ops), genlmsg_put ops, zero_rc (nla_put_string ops)] k1 = (ok1, k2)" by fastforce
  obtain cloned k3 where 3: "nl_cb_clone ops k2 = (cloned, k3)" by fastforce
  obtain ok2 k4 where 4: "all_succeed [nonneg_rc (nl_send_auto ops), zero_rc (nl_cb_err ops), zero_rc (nl_cb_set ops NL_CB_ACK),
      zero_rc (nl_cb_set ops NL_CB_FINISH), zero_rc (nl_cb_set ops NL_CB_VALID)] k3 = (ok2, k4)" by fastforce
  note run = assms [unfolded establish_netlink_def prod.case 1 Let_def 2 3 4]
  show ?thesis
  proof (cases "msg \<and> ok1 \<and> cloned \<and> ok2")
    case False
    then show ?thesis using run by (auto simp: release_both split: if_splits)
  next
    case True
    then obtain received g k5 where 5: "receive_groups ops (1, - ENOENT) k4 = Some (received, g, k5)"
      using run by (auto simp: bind_eq_Some_conv)
    obtain rc k6 where 6: "nl_socket_add_membership ops g k5 = (rc, k6)" by fastforce
    from run True show ?thesis by (auto simp: 5 6 release_both release_joined split: if_splits intro!: exI [of _ g])
  qed
qed

lemma prepare_netlink_cases:
  assumes "prepare_netlink ops (no_netlink, k) = (err, n, k')"
  shows "if err then n = no_netlink \<or> n = no_netlink\<lparr> sock := True, held := [Socket] \<rparr>
    else n = no_netlink\<lparr> sock := True, callback := True, held := [Callback, Socket] \<rparr>"
  using assms by (auto simp: prepare_netlink_def no_netlink_def Let_def split: prod.splits if_splits)

section \<open>Waiting for the answer\<close>

text \<open>Within so many calls of \<open>nl_recvmsgs\<close> the end of the answer arrives, or a call fails.\<close>

fun answered :: "nat \<Rightarrow> 'k nl_ops \<Rightarrow> int \<times> int \<Rightarrow> 'k \<Rightarrow> bool" where
  "answered 0 ops cg k \<longleftrightarrow> fst cg = 0"
| "answered (Suc m) ops cg k \<longleftrightarrow> fst cg = 0 \<or>
     (let ((events, rc), k) = nl_recvmsgs ops k in rc < 0 \<or> answered m ops (fold (handle_event ops) events cg) k)"

lemma receive_groups_returns: "answered m ops cg k \<Longrightarrow> receive_groups ops cg k \<noteq> None"
proof (induction m arbitrary: cg k)
  case 0
  then show ?case by (subst receive_groups.simps) simp
next
  case (Suc m)
  obtain events rc k' where r: "nl_recvmsgs ops k = ((events, rc), k')" by (metis prod.exhaust)
  let ?cg = "fold (handle_event ops) events cg"
  have "answered m ops ?cg k' \<Longrightarrow> receive_groups ops ?cg k' \<noteq> None" by (rule Suc.IH)
  with Suc.prems show ?case by (subst receive_groups.simps) (auto simp: r Let_def)
qed

lemma receive_groups_answered:
  assumes "receive_groups ops cg k = Some y"
  shows "\<exists>m. answered m ops cg k"
proof (rule receive_groups.raw_induct [where P = "\<lambda>ops cg k y. \<exists>m. answered m ops cg k", OF _ assms])
  fix rec :: "'b nl_ops \<Rightarrow> int \<times> int \<Rightarrow> 'b \<Rightarrow> (bool \<times> int \<times> 'b) option" and ops cg k y
  assume IH: "\<And>ops cg k y. rec ops cg k = Some y \<Longrightarrow> \<exists>m. answered m ops cg k"
    and step: "(if fst cg = 0 then Some (True, snd cg, k)
      else let ((events, rc), k) = nl_recvmsgs ops k; cg = fold (handle_event ops) events cg
           in if rc < 0 then Some (False, snd cg, k) else rec ops cg k) = Some y"
  obtain events rc k' where r: "nl_recvmsgs ops k = ((events, rc), k')" by (metis prod.exhaust)
  show "\<exists>m. answered m ops cg k"
  proof (cases "fst cg = 0 \<or> rc < 0")
    case True
    then have "answered (Suc 0) ops cg k" by (auto simp: r)
    then show ?thesis by blast
  next
    case False
    with step have "rec ops (fold (handle_event ops) events cg) k' = Some y" by (simp add: r Let_def)
    from IH [OF this] obtain m where "answered m ops (fold (handle_event ops) events cg) k'" by blast
    then have "answered (Suc m) ops cg k" by (simp add: r)
    then show ?thesis by blast
  qed
qed

text \<open>Events that do not end the answer.\<close>

fun no_end :: "nl_event \<Rightarrow> bool" where
  "no_end (Nl_error err) = (err \<noteq> 0)"
| "no_end Nl_ack = False"
| "no_end Nl_finish = False"
| "no_end (Nl_valid ok mcgrp) = True"

lemma no_end_events: "list_all no_end es \<Longrightarrow> fst cg \<noteq> 0 \<Longrightarrow> fst (fold (handle_event ops) es cg) \<noteq> 0"
proof (induction es arbitrary: cg)
  case (Cons e es)
  have "fst (handle_event ops e cg) \<noteq> 0"
    using Cons.prems by (cases "(ops, e, cg)" rule: handle_event.cases) (auto simp: handle_error_def)
  with Cons show ?case by simp
qed simp

lemma never_answered:
  assumes "\<And>k. list_all no_end (fst (fst (nl_recvmsgs ops k))) \<and> snd (fst (nl_recvmsgs ops k)) \<ge> 0"
  shows "fst cg \<noteq> 0 \<Longrightarrow> \<not> answered m ops cg k"
proof (induction m arbitrary: cg k)
  case (Suc m)
  obtain events rc k' where r: "nl_recvmsgs ops k = ((events, rc), k')" by (metis prod.exhaust)
  have "list_all no_end events" "0 \<le> rc" using assms [of k] by (simp_all add: r)
  with Suc show ?case by (simp add: r no_end_events)
qed simp

section \<open>Theorems\<close>

text \<open>
  (C21) Opening the connection is all or nothing: whichever call of the library fails, nothing that was
  allocated is kept, no group is joined and no descriptor is watched. When it succeeds, exactly the socket
  and the callback handle are held, the handler of the events is registered, a group was joined
  and a descriptor is watched.
\<close>

theorem init_thermal_all_or_nothing:
  assumes "init_thermal sys ops (no_netlink, k) = Some (err, n, k')"
  shows "if err then n = no_netlink
    else sock n \<and> callback n \<and> held n = [Callback, Socket] \<and>
      handlers n = [(NL_CB_SEQ_CHECK, Handler_for_debug), (NL_CB_VALID, Handle_thermal_event)] \<and>
      (\<exists>g fd. 0 \<le> g \<and> fd \<noteq> INVALID_NL_FD \<and> joined n = [g] \<and> watched n = [fd])"
proof -
  obtain err1 n1 k1 where 1: "prepare_netlink ops (no_netlink, k) = (err1, n1, k1)" by (metis prod.exhaust)
  note n1 = prepare_netlink_cases [OF 1]
  show ?thesis
  proof (cases err1)
    case True
    then show ?thesis using assms n1 1 by (auto simp: init_thermal_def deinit_thermal_def no_netlink_def)
  next
    case False
    with assms 1 obtain err2 n2 k2 where 2: "establish_netlink ops (n1, k1) = Some (err2, n2, k2)"
      by (auto simp: init_thermal_def bind_eq_Some_conv)
    note n2 = establish_netlink_releases [OF 2]
    show ?thesis using assms 1 2 n1 n2 False
      by (auto simp: init_thermal_def register_netlink_handler_def set_netlink_nonblocking_def deinit_thermal_def
          no_netlink_def Let_def split: prod.splits if_splits)
  qed
qed


end
