(* ===== verification/Socket.thy ===== *)
theory Socket
  imports Commands
begin

text \<open>
  The socket between the daemon and the user interface: \<open>init_socket\<close> and the end of \<open>main\<close> in \<open>irqbalance.c\<close>, and
  \<open>init_connection\<close> of \<open>ui/irqbalance-ui.c\<close>. Both build the address from the number of the daemon's process, and both fall
  back to the same abstract address.
\<close>

section \<open>The socket calls\<close>

text \<open>
  The calls of the operating system with its state \<open>'k\<close>: descriptors and results as the calls return them. An
  address is the 108 bytes of \<open>sun_path\<close>.
\<close>

record 'k socket_ops =
  os_socket :: "'k \<Rightarrow> int \<times> 'k"
  os_bind :: "int \<Rightarrow> string \<Rightarrow> 'k \<Rightarrow> int \<times> 'k"
  os_setsockopt :: "int \<Rightarrow> 'k \<Rightarrow> int \<times> 'k"
  os_listen :: "int \<Rightarrow> 'k \<Rightarrow> int \<times> 'k"
  os_connect :: "int \<Rightarrow> string \<Rightarrow> 'k \<Rightarrow> int \<times> 'k"
  os_close :: "int \<Rightarrow> 'k \<Rightarrow> 'k"
  os_unlink :: "string \<Rightarrow> 'k \<Rightarrow> 'k"

text \<open>
  What \<open>bind\<close>, \<open>listen\<close> and \<open>connect\<close> promise for stream sockets of one machine: a socket has the address to which it
  was bound last, a socket that listens makes its address one that accepts, a connection is made exactly to an
  address that accepts, and the other calls do not change which addresses accept.
\<close>

definition socket_laws :: "'k socket_ops \<Rightarrow> ('k \<Rightarrow> int \<Rightarrow> string option) \<Rightarrow> ('k \<Rightarrow> string set) \<Rightarrow> ('k \<Rightarrow> int \<Rightarrow> string option) \<Rightarrow> bool" where
  "socket_laws ops address accepts peer \<longleftrightarrow>
     (\<forall>k. accepts (snd (os_socket ops k)) = accepts k) \<and>
     (\<forall>fd a k. accepts (snd (os_bind ops fd a k)) = accepts k \<and> (fst (os_bind ops fd a k) \<ge> 0 \<longrightarrow> address (snd (os_bind ops fd a k)) fd = Some a)) \<and>
     (\<forall>fd k. accepts (snd (os_setsockopt ops fd k)) = accepts k \<and> address (snd (os_setsockopt ops fd k)) = address k) \<and>
     (\<forall>fd k a. address k fd = Some a \<longrightarrow> accepts (snd (os_listen ops fd k)) = insert a (accepts k) \<and> address (snd (os_listen ops fd k)) = address k) \<and>
     (\<forall>fd a k. (fst (os_connect ops fd a k) \<ge> 0 \<longleftrightarrow> a \<in> accepts k) \<and> accepts (snd (os_connect ops fd a k)) = accepts k \<and>
        (a \<in> accepts k \<longrightarrow> peer (snd (os_connect ops fd a k)) fd = Some a))"

section \<open>The daemon\<close>

definition SOCKET_PATH :: string where "SOCKET_PATH = ''irqbalance''"
definition SOCKET_TMPFS :: string where "SOCKET_TMPFS = ''/run/irqbalance''"

definition socket_file :: "int \<Rightarrow> string" where
  "socket_file pid = SOCKET_TMPFS @ ''/'' @ SOCKET_PATH @ dec_of_int pid @ ''.sock''"

text \<open>\<open>sun_path\<close> after \<open>memset\<close> and copying at most \<open>n\<close> bytes.\<close>

definition sun_path :: "nat \<Rightarrow> string \<Rightarrow> string" where
  "sun_path n name = take n name @ replicate (108 - length (take n name)) (CHR 0x00)"

record sockets =
  socket_fd :: int
  socket_name :: string
  watches :: "int list"

text \<open>The result is that of the function (0 when the daemon listens).\<close>

definition init_socket :: "'k socket_ops \<Rightarrow> int \<Rightarrow> sockets \<times> 'k \<Rightarrow> int \<times> sockets \<times> 'k" where
  "init_socket ops pid = (\<lambda>(s, k).
     let (fd, k) = os_socket ops k; s = s\<lparr> socket_fd := fd \<rparr>
     in if fd < 0 then (1, s, k)
        else
          let s = s\<lparr> socket_name := take 63 (socket_file pid) \<rparr>;
              (rc, k) = os_bind ops fd (sun_path 108 (socket_name s)) k;
              (rc, k) = (if rc < 0 then os_bind ops fd (sun_path 108 []) k else (rc, k))
          in if rc < 0 then (1, s, k)
             else
               let (rc, k) = os_setsockopt ops fd k
               in if rc < 0 then (1, s, k)
                  else let (_, k) = os_listen ops fd k in (0, s\<lparr> watches := watches s @ [fd] \<rparr>, k))"

text \<open>The end of \<open>main\<close>: the name is removed even when the daemon listens at the abstract address.\<close>

definition remove_socket :: "'k socket_ops \<Rightarrow> sockets \<times> 'k \<Rightarrow> 'k" where
  "remove_socket ops = (\<lambda>(s, k).
     let k = (if socket_fd s > 0 then os_close ops (socket_fd s) k else k)
     in if socket_name s \<noteq> [] then os_unlink ops (socket_name s) k else k)"

section \<open>The user interface\<close>

text \<open>0 stands for an error, so that the descriptor 0 is taken for one.\<close>

definition init_connection :: "'k socket_ops \<Rightarrow> int \<Rightarrow> 'k \<Rightarrow> int \<times> 'k" where
  "init_connection ops irqbalance_pid k =
     (let (fd, k) = os_socket ops k
      in if fd < 0 then (0, k)
         else
           let (rc, k) = os_connect ops fd (sun_path 107 (socket_file irqbalance_pid)) k
           in if rc < 0
              then let (rc, k) = os_connect ops fd (sun_path 107 []) k in if rc < 0 then (0, os_close ops fd k) else (fd, k)
              else (fd, k))"

section \<open>Addresses\<close>

lemma socket_file_short:
  assumes "in_int pid"
  shows "take 63 (socket_file pid) = socket_file pid" "take 108 (socket_file pid) = socket_file pid" "take 107 (socket_file pid) = socket_file pid"
  using length_dec_of_int [OF assms] by (simp_all add: socket_file_def SOCKET_PATH_def SOCKET_TMPFS_def)

text \<open>The two programs agree on the address in the file system, and it is not the abstract one.\<close>

lemma sun_path_agree:
  assumes "in_int pid"
  shows "sun_path 108 (take 63 (socket_file pid)) = sun_path 107 (socket_file pid)"
  by (simp add: sun_path_def socket_file_short [OF assms])

lemma sun_path_abstract: "sun_path 108 [] = sun_path 107 []" "sun_path 107 (socket_file pid) \<noteq> sun_path 107 []"
proof -
  have "hd (sun_path 107 (socket_file pid)) = CHR ''/''" by (simp add: sun_path_def socket_file_def SOCKET_TMPFS_def)
  moreover have "hd (sun_path 107 []) = CHR 0x00" by (simp add: sun_path_def)
  ultimately show "sun_path 107 (socket_file pid) \<noteq> sun_path 107 []" by force
qed (simp add: sun_path_def)

lemma socket_lawsD:
  assumes "socket_laws ops address accepts peer"
  shows "os_socket ops k = (r, k') \<Longrightarrow> accepts k' = accepts k"
    "os_bind ops fd a k = (r, k') \<Longrightarrow> accepts k' = accepts k" "os_bind ops fd a k = (r, k') \<Longrightarrow> 0 \<le> r \<Longrightarrow> address k' fd = Some a"
    "os_setsockopt ops fd k = (r, k') \<Longrightarrow> accepts k' = accepts k" "os_setsockopt ops fd k = (r, k') \<Longrightarrow> address k' = address k"
    "os_listen ops fd k = (r, k') \<Longrightarrow> address k fd = Some a \<Longrightarrow> accepts k' = insert a (accepts k)"
    "os_listen ops fd k = (r, k') \<Longrightarrow> address k fd = Some a \<Longrightarrow> address k' = address k"
    "os_connect ops fd a k = (r, k') \<Longrightarrow> 0 \<le> r \<longleftrightarrow> a \<in> accepts k" "os_connect ops fd a k = (r, k') \<Longrightarrow> accepts k' = accepts k"
    "os_connect ops fd a k = (r, k') \<Longrightarrow> a \<in> accepts k \<Longrightarrow> peer k' fd = Some a"
  using assms unfolding socket_laws_def by (metis fst_conv snd_conv)+

lemma init_socket_listens:
  assumes laws: "socket_laws ops address accepts peer" and ok: "init_socket ops pid (s, k) = (0, s', k')"
  shows "\<exists>a \<in> {sun_path 108 (take 63 (socket_file pid)), sun_path 108 []}.
    address k' (socket_fd s') = Some a \<and> accepts k' = insert a (accepts k)"
proof -
  let ?name = "sun_path 108 (take 63 (socket_file pid))"
  obtain fd k1 where 1: "os_socket ops k = (fd, k1)" by fastforce
  obtain rc2 k2 where 2: "os_bind ops fd ?name k1 = (rc2, k2)" by fastforce
  obtain rc3 k3 where 3: "(if rc2 < 0 then os_bind ops fd (sun_path 108 []) k2 else (rc2, k2)) = (rc3, k3)" by fastforce
  obtain rc4 k4 where 4: "os_setsockopt ops fd k3 = (rc4, k4)" by fastforce
  obtain rc5 k5 where 5: "os_listen ops fd k4 = (rc5, k5)" by fastforce
  have r: "rc3 \<ge> 0" "k' = k5" "socket_fd s' = fd"
    using ok 1 2 3 4 5 by (auto simp: init_socket_def Let_def split: if_splits)
  define a where "a = (if rc2 < 0 then sun_path 108 [] else ?name)"
  have k1: "accepts k1 = accepts k" by (rule socket_lawsD(1) [OF laws 1])
  have k2: "accepts k2 = accepts k1" "rc2 \<ge> 0 \<Longrightarrow> address k2 fd = Some ?name"
    using socket_lawsD(2,3) [OF laws 2] by simp_all
  have k3: "accepts k3 = accepts k1 \<and> address k3 fd = Some a"
  proof (cases "rc2 < 0")
    case True
    then have "os_bind ops fd (sun_path 108 []) k2 = (rc3, k3)" using 3 by simp
    then show ?thesis using socket_lawsD(2,3) [OF laws, of fd "sun_path 108 []" k2 rc3 k3] r(1) k2(1) True by (simp add: a_def)
  next
    case False
    then show ?thesis using 3 k2 by (simp add: a_def)
  qed
  have k4: "accepts k4 = accepts k3" "address k4 = address k3" by (rule socket_lawsD(4,5) [OF laws 4])+
  have "accepts k5 = insert a (accepts k4) \<and> address k5 = address k4" using socket_lawsD(6,7) [OF laws 5, of a] k3 k4(2) by simp
  then show ?thesis using k1 k3 k4 r by (auto simp: a_def)
qed

section \<open>Theorems\<close>


end
