(* ===== verification/Classify_Arm.thy ===== *)
theory Classify_Arm
  imports Procstat
begin

text \<open>
  The classification of interrupts on AARCH64 (\<open>procinterrupts.c\<close>, compiled for that machine only): the name
  behind the trigger type of a line of \<open>/proc/interrupts\<close> is matched with regular expressions, and for platform
  devices their directory is looked at.
\<close>

section \<open>Regular expressions\<close>

text \<open>
  \<open>regexec\<close> looks for a match anywhere in the text and does not say where. An expression is a list of
  sets of characters here, one for each position; a final \<open>.*\<close> adds nothing, and \<open>.*\<close> alone is the empty list.
\<close>

fun match_here :: "(char \<Rightarrow> bool) list \<Rightarrow> string \<Rightarrow> bool" where
  "match_here [] s = True"
| "match_here (p # ps) [] = False"
| "match_here (p # ps) (c # s) = (p c \<and> match_here ps s)"

fun regexec :: "(char \<Rightarrow> bool) list \<Rightarrow> string \<Rightarrow> bool" where
  "regexec ps [] = match_here ps []"
| "regexec ps (c # s) = (match_here ps (c # s) \<or> regexec ps s)"

definition upper_or_digit :: "char \<Rightarrow> bool" where
  "upper_or_digit c \<longleftrightarrow> c \<in> set ''ABCDEFGHIJKLMNOPQRSTUVWXYZ0123456789''"

definition hex_digit :: "char \<Rightarrow> bool" where
  "hex_digit c \<longleftrightarrow> c \<in> set ''0123456789abcdef''"

section \<open>Platform devices\<close>

definition pdev_irq_info :: "(string \<times> int \<times> int) list" where
  "pdev_irq_info = [(''ata'', IRQ_TYPE_LEGACY, IRQ_SCSI), (''net'', IRQ_TYPE_LEGACY, IRQ_ETH), (''usb'', IRQ_TYPE_LEGACY, IRQ_OTHER)]"

text \<open>The loops over the entries of the directory and over the table; the first match ends both.\<close>

fun first_device :: "string list \<Rightarrow> (int \<times> int) option" where
  "first_device [] = None"
| "first_device (n # ns) =
     (case find (\<lambda>(d_name, _). g_str_has_prefix n d_name) pdev_irq_info of
        None \<Rightarrow> first_device ns
      | Some (_, tc) \<Rightarrow> Some tc)"

definition check_platform_device :: "sys \<Rightarrow> string \<Rightarrow> irq_info \<Rightarrow> irq_info" where
  "check_platform_device sys name info =
     (let path = ''/sys/devices/platform/'' @ name @ ''/''
      in if length path \<ge> PATH_MAX then info
         else case dir_entries sys path of
           None \<Rightarrow> info
         | Some es \<Rightarrow>
             (case first_device (map d_name es) of
                None \<Rightarrow> info
              | Some (ty, c) \<Rightarrow> info\<lparr> i_type := ty, i_class := c \<rparr>))"

section \<open>Guessing the class\<close>

record irq_match =
  rcomp :: "(char \<Rightarrow> bool) list"
  refine_match :: bool
  m_type :: int
  m_class :: int

definition matches :: "irq_match list" where
  "matches =
     [\<lparr> rcomp = map (=) ''eth'', refine_match = False, m_type = IRQ_TYPE_LEGACY, m_class = IRQ_GBETH \<rparr>,
      \<lparr> rcomp = replicate 4 upper_or_digit @ replicate 4 hex_digit, refine_match = True, m_type = IRQ_TYPE_LEGACY, m_class = IRQ_OTHER \<rparr>,
      \<lparr> rcomp = map (=) ''PNP'' @ replicate 4 hex_digit, refine_match = True, m_type = IRQ_TYPE_LEGACY, m_class = IRQ_OTHER \<rparr>,
      \<lparr> rcomp = [], refine_match = False, m_type = IRQ_TYPE_LEGACY, m_class = IRQ_OTHER \<rparr>]"

text \<open>
  \<open>regcomp\<close> may fail for want of memory; then nothing is guessed, and the next call compiles again. The first
  argument says whether it succeeds, the flag is the static variable \<open>compiled\<close>.
\<close>

definition guess_arm_irq_hints :: "bool \<Rightarrow> sys \<Rightarrow> string \<Rightarrow> bool \<times> irq_info \<Rightarrow> bool \<times> irq_info" where
  "guess_arm_irq_hints regcomp_ok sys name = (\<lambda>(compiled, info).
     if \<not> compiled \<and> \<not> regcomp_ok then (False, info)
     else
       (True, case find (\<lambda>m. regexec (rcomp m) name) matches of
          None \<Rightarrow> info
        | Some m \<Rightarrow>
            let info = info\<lparr> i_type := m_type m, i_class := m_class m \<rparr>
            in if refine_match m then check_platform_device sys name info else info))"

text \<open>The tokens up to the one that names the trigger, with the text behind the last token.\<close>

function token_loop_arm :: "string \<Rightarrow> string \<Rightarrow> string \<Rightarrow> bool \<Rightarrow> string \<times> string \<times> string \<times> bool" where
  "token_loop_arm savedptr irq_name last_token is_xen_dyn =
     (case strtok savedptr of
        None \<Rightarrow> (irq_name, last_token, [], is_xen_dyn)
      | Some (p, savedptr) \<Rightarrow>
          let irq_name = last_token; is_xen_dyn = (is_xen_dyn \<or> strstr irq_name ''xen-dyn'')
          in if g_str_has_prefix irq_name ''Level'' \<or> g_str_has_prefix irq_name ''Edge''
             then (irq_name, p, savedptr, is_xen_dyn)
             else token_loop_arm savedptr irq_name p is_xen_dyn)"
  by pat_completeness auto
termination
  by (relation "measure (\<lambda>(savedptr, _). length savedptr)") (auto dest: strtok_shorter)

declare token_loop_arm.simps [simp del]

definition init_irq_class_and_type_arm ::
  "bool \<Rightarrow> sys \<Rightarrow> string \<Rightarrow> irq_info \<Rightarrow> int \<Rightarrow> bool \<times> state \<Rightarrow> irq_info \<times> bool \<times> state" where
  "init_irq_class_and_type_arm regcomp_ok sys savedline info irq = (\<lambda>(compiled, s).
     let (irq_name, rest) = (case strtok savedline of None \<Rightarrow> ([], []) | Some t \<Rightarrow> t);
         is_xen_dyn = strstr irq_name ''xen-dyn'';
         (irq_name, last_token, savedptr, is_xen_dyn) =
           (case strtok rest of
              None \<Rightarrow> (irq_name, ''(null)'', [], is_xen_dyn)
            | Some (last_token, rest) \<Rightarrow> token_loop_arm rest irq_name last_token is_xen_dyn);
         irq_fullname = takeWhile (\<lambda>c. c \<noteq> CHR 0x0A) (take (PATH_MAX - 1)
           (if length savedptr > 0 then last_token @ '' '' @ savedptr else last_token));
         info = info\<lparr> i_irq := irq \<rparr>;
         (compiled, info) =
           (if strstr irq_name ''-event'' \<and> is_xen_dyn
            then (compiled, info\<lparr> i_type := IRQ_TYPE_VIRT_EVENT, i_class := IRQ_VIRT_EVENT \<rparr>)
            else guess_arm_irq_hints regcomp_ok sys irq_fullname (compiled, info));
         info = info\<lparr> i_numa_node := get_numa_node 0 s \<rparr>;
         (ok, s) = mem_next s
     in (info\<lparr> i_name := (if ok then Some irq_fullname else None) \<rparr>, compiled, s))"

section \<open>The guess\<close>

lemma match_here_literal: "match_here (map (=) p) s \<longleftrightarrow> g_str_has_prefix s p"
  by (induction "map (=) p" s arbitrary: p rule: match_here.induct) (auto simp: g_str_has_prefix_def)

text \<open>For a text without special characters the expression is found exactly where \<open>strstr\<close> finds the text.\<close>

lemma regexec_literal: "regexec (map (=) p) s \<longleftrightarrow> strstr s p"
  by (induction s) (auto simp: match_here_literal g_str_has_prefix_def)

lemma first_device_classes: "first_device ns = Some (ty, c) \<Longrightarrow> ty = IRQ_TYPE_LEGACY \<and> c \<in> {IRQ_SCSI, IRQ_ETH, IRQ_OTHER}"
  by (induction ns) (auto simp: pdev_irq_info_def split: if_splits)

text \<open>Every name gets a class that the rest of the daemon knows, and nothing but the type and the class changes.\<close>

lemma guess_arm_total:
  assumes "compiled \<or> regcomp_ok"
  shows "\<exists>c \<in> {IRQ_GBETH, IRQ_OTHER, IRQ_SCSI, IRQ_ETH}.
    guess_arm_irq_hints regcomp_ok sys name (compiled, info) = (True, info\<lparr> i_type := IRQ_TYPE_LEGACY, i_class := c \<rparr>)"
proof -
  have dev: "\<exists>c \<in> {IRQ_OTHER, IRQ_SCSI, IRQ_ETH}. check_platform_device sys name (info\<lparr> i_type := IRQ_TYPE_LEGACY, i_class := IRQ_OTHER \<rparr>) =
      info\<lparr> i_type := IRQ_TYPE_LEGACY, i_class := c \<rparr>"
    by (auto simp: check_platform_device_def Let_def split: option.splits dest!: first_device_classes)
  have all: "regexec [] name" by (cases name) simp_all
  show ?thesis using assms dev all by (auto simp: guess_arm_irq_hints_def matches_def Let_def)
qed

text \<open>A name that contains \<open>eth\<close> is a network interrupt, whatever directories there are.\<close>

lemma guess_arm_eth:
  assumes "strstr name ''eth''" "compiled \<or> regcomp_ok"
  shows "guess_arm_irq_hints regcomp_ok sys name (compiled, info) = (True, info\<lparr> i_type := IRQ_TYPE_LEGACY, i_class := IRQ_GBETH \<rparr>)"
  using assms regexec_literal [of "''eth''" name] by (auto simp: guess_arm_irq_hints_def matches_def)

text \<open>Without a match of the first three expressions the guess is what other machines take for every interrupt.\<close>

lemma guess_arm_other:
  assumes "\<forall>m \<in> set (take 3 matches). \<not> regexec (rcomp m) name" "compiled \<or> regcomp_ok"
  shows "guess_arm_irq_hints regcomp_ok sys name (compiled, info) = (True, info\<lparr> i_type := IRQ_TYPE_LEGACY, i_class := IRQ_OTHER \<rparr>)"
proof -
  have "regexec [] name" by (cases name) simp_all
  then show ?thesis using assms by (auto simp: guess_arm_irq_hints_def matches_def)
qed

text \<open>The loop over the tokens stops at a word for the trigger, or ends as it does on other machines.\<close>

lemma token_loop_arm_cases:
  "case token_loop_arm savedptr irq_name last_token x of (n, l, r, x') \<Rightarrow>
     g_str_has_prefix n ''Level'' \<or> g_str_has_prefix n ''Edge'' \<or> r = [] \<and> token_loop savedptr irq_name last_token x = (n, l, x')"
proof (induction savedptr irq_name last_token x rule: token_loop_arm.induct)
  case (1 savedptr irq_name last_token x)
  show ?case
  proof (cases "strtok savedptr")
    case None
    then show ?thesis by (simp add: token_loop_arm.simps [of savedptr] token_loop.simps [of savedptr])
  next
    case (Some pr)
    then obtain p rest where s: "strtok savedptr = Some (p, rest)" by (cases pr) simp
    show ?thesis using 1 [OF s refl refl refl] s
      by (simp add: token_loop_arm.simps [of savedptr] token_loop.simps [of savedptr] Let_def split: if_splits)
  qed
qed

end
