(* ===== verification/Example_System.thy ===== *)
theory Example_System
  imports Daemon_Safety Ui_Session Netlink Socket Classify_Arm
begin

text \<open>
  A small machine on which the theorems are applied: one NUMA node, one package, one cache domain
  and two CPUs, with two interrupts, and two kernels, one that accepts every affinity and one that
  has no free vectors.
\<close>

section \<open>The machine\<close>

definition mask_word :: "u64 \<Rightarrow> cpumask" where
  "mask_word w = w # replicate 63 0"

definition demo_objs :: "obj_ref \<Rightarrow> topo_obj" where
  "demo_objs = (\<lambda>_. zero_obj)
     (0 := zero_obj\<lparr> t_obj_type := OBJ_TYPE_NODE, t_mask := mask_word 3, t_children := [1], t_slots_left := INT_MAX \<rparr>,
      1 := zero_obj\<lparr> t_obj_type := OBJ_TYPE_PACKAGE, t_mask := mask_word 3, t_parent := Some 0, t_children := [2],
        t_slots_left := INT_MAX \<rparr>,
      2 := zero_obj\<lparr> t_obj_type := OBJ_TYPE_CACHE, t_mask := mask_word 3, t_parent := Some 1, t_children := [3, 4],
        t_slots_left := INT_MAX \<rparr>,
      3 := zero_obj\<lparr> t_mask := mask_word 1, t_parent := Some 2, t_slots_left := 5 \<rparr>,
      4 := zero_obj\<lparr> t_number := 1, t_mask := mask_word 2, t_parent := Some 2, t_slots_left := 7 \<rparr>)"

definition demo_irqs :: "irq_ref \<Rightarrow> irq_info" where
  "demo_irqs = (\<lambda>_. zero_irq)
     (0 := zero_irq\<lparr> i_irq := 10, i_class := IRQ_ETH, i_level := BALANCE_CORE, i_numa_node := Some 0, i_load := 50 \<rparr>,
      1 := zero_irq\<lparr> i_irq := 11, i_class := IRQ_LEGACY, i_level := BALANCE_CACHE, i_numa_node := Some 0, i_load := 7 \<rparr>)"

text \<open>Both interrupts wait to be placed.\<close>

definition demo :: state where
  "demo = \<lparr> objs = demo_objs, irqs = demo_irqs, interrupts_db = [0, 1], banned_irqs = [],
     rebalance_irq_list = [0, 1], numa_nodes = [0], packages = [1], cache_domains = [2], cpus = [3, 4],
     numa_avail = True, banned_cpus = CPU_MASK_NONE, unbanned_cpus = mask_word 3, cpu_online_map = mask_word 3,
     cycle_count = 1, power_thresh = - 1, migrate_ratio = 0,
     need_rescan = False, need_rebuild = False, deepest_cache = 2, HZ = 100, cache_domain_count = 1,
     thermal_banned_cpus = CPU_MASK_NONE, cl_banned_irqs = [], cl_banned_modules = [], polscript = None,
     cpu_ban_string = None, banned_cpumask_from_ui = None, proc_int_has_msi = False, msi_found_in_sysfs = False,
     next_obj = 5, next_irq = 2, mem_fails = [] \<rparr>"

text \<open>The second interrupt is on the first CPU, the first one on none of the lists.\<close>

definition demo_assigned :: state where
  "demo_assigned = demo\<lparr> rebalance_irq_list := [],
     objs := demo_objs(3 := (demo_objs 3)\<lparr> t_interrupts := [1] \<rparr>),
     irqs := demo_irqs(1 := (demo_irqs 1)\<lparr> i_assigned_obj := Some 3, i_moved := True \<rparr>) \<rparr>"

definition kernel_accepts :: "string kernel_ops" where
  "kernel_accepts = \<lparr> k_read = (\<lambda>irq k. Some k), k_fopen = (\<lambda>irq k. (None, k)), k_fprintf = (\<lambda>irq out k. (None, out)),
     k_fflush = (\<lambda>irq k. (None, k)), k_fclose = (\<lambda>irq k. (None, k)) \<rparr>"

definition kernel_full :: "string kernel_ops" where
  "kernel_full = kernel_accepts\<lparr> k_fflush := (\<lambda>irq k. (Some Err_ENOSPC, k)) \<rparr>"

lemmas demo_defs = demo_def demo_objs_def demo_irqs_def zero_obj_def zero_irq_def

section \<open>Facts about it\<close>

lemma cpus_of_mask_word: "c \<in> cpus_of (mask_word w) \<longleftrightarrow> c < 64 \<and> bit w c"
proof (cases "c < 64")
  case True
  then show ?thesis by (simp add: cpus_of_def bits_of_def array_bit_def mask_word_def NR_CPUS_def)
next
  case False
  then have "c < NR_CPUS \<Longrightarrow> mask_word w ! (c div 64) = 0"
    by (simp add: mask_word_def nth_Cons' NR_CPUS_def div_less_iff_less_mult div_eq_0_iff)
  with False show ?thesis by (auto simp: cpus_of_def bits_of_def array_bit_def)
qed

lemma intersects_mask_word [simp]: "cpus_intersects (mask_word v) (mask_word w) = (v AND w \<noteq> 0)"
proof -
  have "(v AND w \<noteq> 0) = (\<exists>c < 64. bit v c \<and> bit w c)"
    using word_zero_iff [of "v AND w"] by (auto simp: bit_and_iff)
  then show ?thesis by (auto simp: mask.intersects_op cpus_of_mask_word)
qed

lemma cpus_of_clear [simp]: "wf_cpumask m \<Longrightarrow> cpus_of (cpus_clear m) = {}"
  by (simp add: cpus_of_def cpus_clear_def wf_cpumask_bitmap bits_of_zero)

lemma intersects_clear [simp]: "wf_cpumask m \<Longrightarrow> \<not> cpus_intersects a (cpus_clear m)"
  by (simp add: mask.intersects_op)

lemma wf_mask_word [simp]: "wf_cpumask (mask_word w)"
  by (simp add: wf_cpumask_def mask_word_def)

lemma get_list_demo: "get_list l demo = (if l = RebalanceList then [0, 1] else [])"
  by (cases l) (simp_all add: demo_defs)

lemma irqs_ok_demo: "irqs_ok demo"
  unfolding irqs_ok_def get_list_demo by (auto simp: demo_defs)

lemma get_list_demo_assigned: "get_list l demo_assigned = (if l = Interrupts 3 then [1] else [])"
  by (cases l) (simp_all add: demo_assigned_def demo_defs)

lemma irqs_ok_demo_assigned: "irqs_ok demo_assigned"
  unfolding irqs_ok_def get_list_demo_assigned by (auto simp: demo_assigned_def demo_defs)

lemma on_its_list_demo: "on_its_list demo 0" "on_its_list demo 1"
  by (simp_all add: on_its_list_def get_list_demo) (simp_all add: demo_defs)

lemma on_its_list_demo_assigned: "on_its_list demo_assigned 1"
  by (simp add: on_its_list_def get_list_demo_assigned) (simp add: demo_assigned_def demo_defs)

lemma slots_ok_demo: "slots_ok demo"
  by (simp add: slots_ok_def demo_defs INT_MAX_def)

lemma nodes_typed_demo: "nodes_typed demo"
  by (simp add: nodes_typed_def demo_defs)

lemma tree_typed_demo: "tree_typed demo"
  by (auto simp: tree_typed_def demo_defs)

lemma tree_descends_demo: "tree_descends demo" "tree_descends demo_assigned"
  by (auto simp: tree_descends_def less_obj_type_e_def demo_assigned_def demo_defs)

lemma some_node_eligible_demo: "some_node_eligible demo"
  by (simp add: some_node_eligible_def eligible_def Let_def demo_defs INT_MAX_def NUMA_NO_NODE_def)

lemma level_ok_demo: "level_ok q demo"
  by (simp add: level_ok_def demo_defs)

text \<open>The search finds the other CPU, and none when that one is saturated as well.\<close>

lemma find_best_demo:
  "find_best_cpu_under_obj TOPO_DEPTH demo_assigned 2 3 (cpus_clear CPU_MASK_NONE) = Some 4"
  by (simp add: TOPO_DEPTH_def numeral_eq_Suc better_cpu_def is_valid_fallback_def SLOTS_SATURATED_def
      demo_assigned_def demo_defs)

lemma fallback_scope_demo: "fallback_scope demo_assigned BALANCE_CACHE 3 = Some 2"
  by (simp add: fallback_scope_def TOPO_DEPTH_def numeral_eq_Suc demo_assigned_def demo_defs)


section \<open>A running daemon on it\<close>

text \<open>The node is the unspecified one, and the user banned a third interrupt.\<close>

definition demo_running :: state where
  "demo_running = demo_assigned\<lparr> objs := (objs demo_assigned)(0 := (demo_objs 0)\<lparr> t_number := NUMA_NO_NODE \<rparr>),
     irqs := (irqs demo_assigned)(2 := zero_irq\<lparr> i_irq := 12, i_flags := IRQ_FLAG_BANNED \<rparr>),
     cl_banned_irqs := [2], next_irq := 3 \<rparr>"

definition demo_daemon :: daemon where
  "demo_daemon = (initial_daemon [])\<lparr> d_state := demo_running \<rparr>"

text \<open>A system of which no file can be read.\<close>

definition empty_sys :: sys where
  "empty_sys = \<lparr> file_lines = \<lambda>_. None, dir_entries = \<lambda>_. None, readlink = \<lambda>_. None, stat = \<lambda>_. None,
     popen_script = \<lambda>_ _ _. None, getenv = \<lambda>_. None, nprocessors_onln = 2 \<rparr>"

lemmas running_defs = demo_running_def demo_assigned_def demo_defs

lemma all_obj_types: "(\<forall>t. P t) \<longleftrightarrow> P OBJ_TYPE_CPU \<and> P OBJ_TYPE_CACHE \<and> P OBJ_TYPE_PACKAGE \<and> P OBJ_TYPE_NODE"
  by (metis obj_type_e.exhaust)

lemma live_demo: "live {} demo = {0, 1, 2, 3, 4}" "live {} demo_running = {0, 1, 2, 3, 4}"
  by (auto simp: live_lists running_defs)

lemma topo_inv_demo: "topo_inv {} demo" "topo_inv {} demo_running"
  unfolding topo_inv_def live_demo by (simp_all add: all_obj_types running_defs blank_def less_obj_type_e_def)

lemma irqs_ok_running: "irqs_ok demo_running"
proof -
  have "get_list l demo_running = (if l = Interrupts 3 then [1] else [])" for l by (cases l) (simp_all add: running_defs)
  then show ?thesis unfolding irqs_ok_def by (simp add: running_defs)
qed

lemma db_inv_running: "db_inv demo_running"
  unfolding db_inv_def using irqs_ok_running by (simp add: running_defs)

lemma cpus_of_none [simp]: "cpus_of CPU_MASK_NONE = {}"
proof -
  have "replicate 64 (0 :: u64) = 0 # replicate 63 0" using replicate_Suc [of 63 "0 :: u64"] by simp
  then have "CPU_MASK_NONE = mask_word 0" by (simp add: CPU_MASK_NONE_def mask_word_def BITS_TO_LONGS_def NR_CPUS_def)
  then show ?thesis using cpus_of_mask_word [of _ 0] by auto
qed

lemma balance_inv_running: "balance_inv demo_running"
proof -
  have "avoids_banned demo_running" by (simp add: avoids_banned_def) (simp add: running_defs)
  moreover have "nodes_ok demo_running" by (simp add: nodes_ok_def node_ok_def running_defs)
  moreover have "assigned_live demo_running" unfolding assigned_live_def live_demo by (simp add: running_defs)
  moreover have "no_node_known demo_running" by (simp add: no_node_known_def running_defs)
  moreover have "cl_bans_kept demo_running" by (simp add: cl_bans_kept_def running_defs)
  moreover have "wf_cpumask (unbanned_cpus demo_running)" by (simp add: running_defs)
  ultimately show ?thesis using db_inv_running topo_inv_demo(2) by (simp add: balance_inv_def)
qed

section \<open>The user interface on it\<close>

text \<open>A message that root sends.\<close>

definition root_message :: "string \<Rightarrow> connection" where
  "root_message cmd = \<lparr> accepted = True, recv_size = int (length cmd), buff = cmd, cmsg = Some (True, 0) \<rparr>"

lemma carries_root_message: "carries (root_message cmd) cmd \<longleftrightarrow> length cmd < 16384 \<and> CHR 0x00 \<notin> set cmd"
  by (simp add: carries_def root_message_def)

lemma demo_daemon_state: "d_state demo_daemon = demo_running" "sleep_interval demo_daemon = 10"
  by (simp_all add: demo_daemon_def initial_daemon_def SLEEP_INTERVAL_def)

lemma ui_ok_running [simp]:
  "ints_ok demo_running" "loads_ok demo_running" "mem_fails demo_running = []" "ui_shape demo_running"
  "walk_all demo_running = [0, 1, 2, 3, 4]" "numa_nodes demo_running = [0]" "banned_cpus demo_running = CPU_MASK_NONE"
  "cl_banned_irqs demo_running = [2]" "thermal_banned_cpus demo_running = CPU_MASK_NONE" "i_irq (irqs demo_running 2) = 12" "in_int 10"
proof -
  have "TOPO_DEPTH = Suc (Suc (Suc (Suc 0)))" by (simp add: TOPO_DEPTH_def)
  moreover have "walk (Suc (Suc (Suc (Suc 0)))) demo_running 0 = [0, 1, 2, 3, 4]" by (simp add: running_defs)
  moreover have "numa_nodes demo_running = [0]" by (simp add: running_defs)
  ultimately show "walk_all demo_running = [0, 1, 2, 3, 4]" unfolding walk_all_def by simp
  show "loads_ok demo_running" by (simp add: loads_ok_def running_defs)
  show "ui_shape demo_running" by (simp add: ui_shape_def flat_def running_defs)
qed (simp_all add: ints_ok_def in_int_def running_defs NUMA_NO_NODE_def IRQ_ETH_def IRQ_LEGACY_def)

lemma none_text: "length (bitmap_text CPU_MASK_NONE NR_CPUS) < 512"
proof -
  have bit: "\<not> array_bit CPU_MASK_NONE i" if "i < NR_CPUS" for i using that cpus_of_none by (auto simp: cpus_of_def bits_of_def)
  have "chunk_val CPU_MASK_NONE (32 * j) 32 = 0" if "j < 128" for j
    using that by (intro bit_eqI) (auto simp: bit_chunk_val NR_CPUS_def intro!: bit [unfolded NR_CPUS_def])
  then have zero: "j < 128 \<Longrightarrow> chunk_val CPU_MASK_NONE (32 * j) 32 = 0" for j .
  have "scn_text CPU_MASK_NONE (Suc j) 32 [] True = pad_hex 8 0" if "j < 128" for j
    using that
  proof (induction j)
    case 0
    then show ?case using zero [of 0] by simp
  next
    case (Suc j)
    then show ?case using zero [of "Suc j"] by (subst scn_text.simps) simp
  qed
  from this [of 127] have "bitmap_text CPU_MASK_NONE NR_CPUS = pad_hex 8 0"
    by (simp add: bitmap_text_def first_chunksz_def NR_CPUS_def CHUNKSZ_def)
  then show ?thesis by (simp add: length_pad_hex)
qed

lemmas ban_text_defs = banned_numbers_def numbers_text_def banned_vectors_def blanks_text_def dec_of_int_def dec_of_nat_def
  dec_digits.simps dec_digit_def cpu_ban_command_text irq_ban_command_text NR_CPUS_def

section \<open>A netlink library\<close>

text \<open>A library whose calls succeed, with the messages that it delivers.\<close>

definition nl_demo :: "nl_event list \<Rightarrow> unit nl_ops" where
  "nl_demo events = \<lparr> THERMAL_GENL_EVENT_GROUP_NAME = ''event'', NLE_INTR = 2, nl_socket_alloc = \<lambda>k. (True, k), genl_connect = \<lambda>k. (0, k),
     nl_cb_alloc = \<lambda>k. (True, k), nlmsg_alloc = \<lambda>k. (True, k), genl_ctrl_resolve = \<lambda>k. (16, k), genlmsg_put = \<lambda>k. (True, k),
     nla_put_string = \<lambda>k. (0, k), nl_cb_clone = \<lambda>k. (True, k), nl_send_auto = \<lambda>k. (32, k), nl_cb_err = \<lambda>k. (0, k),
     nl_cb_set = \<lambda>_ k. (0, k), nl_recvmsgs = \<lambda>k. ((events, 0), k), nl_socket_add_membership = \<lambda>_ k. (0, k),
     nl_socket_set_nonblocking = \<lambda>k. (0, k), nl_socket_get_fd = \<lambda>k. (7, k) \<rparr>"

definition nl_answer :: "nl_event list" where
  "nl_answer = [Nl_valid True (Some [(True, Some ''sampling'', Some 2), (True, Some ''event'', Some 3)]), Nl_ack]"

lemma nl_demo_calls [simp]:
  "THERMAL_GENL_EVENT_GROUP_NAME (nl_demo es) = ''event''" "nl_socket_alloc (nl_demo es) k = (True, k)" "genl_connect (nl_demo es) k = (0, k)"
  "nl_cb_alloc (nl_demo es) k = (True, k)" "nlmsg_alloc (nl_demo es) k = (True, k)" "genl_ctrl_resolve (nl_demo es) k = (16, k)"
  "genlmsg_put (nl_demo es) k = (True, k)" "nla_put_string (nl_demo es) k = (0, k)" "nl_cb_clone (nl_demo es) k = (True, k)"
  "nl_send_auto (nl_demo es) k = (32, k)" "nl_cb_err (nl_demo es) k = (0, k)" "nl_cb_set (nl_demo es) c k = (0, k)"
  "nl_recvmsgs (nl_demo es) k = ((es, 0), k)" "nl_socket_add_membership (nl_demo es) g k = (0, k)"
  "nl_socket_set_nonblocking (nl_demo es) k = (0, k)" "nl_socket_get_fd (nl_demo es) k = (7, k)"
  by (simp_all add: nl_demo_def)

lemma receive_demo: "receive_groups (nl_demo nl_answer) (1, - ENOENT) k = Some (True, 3, k)"
proof -
  have "strncmp_eq 8 ''sampling'' ''event'' = False" "strncmp_eq 5 ''event'' ''event''" by code_simp+
  then have "fold (handle_event (nl_demo nl_answer)) nl_answer (1, - ENOENT) = (0, 3)"
    by (simp add: nl_answer_def handle_groupid_def handle_end_def)
  then show ?thesis by (subst receive_groups.simps) (simp add: receive_groups.simps)
qed

lemma init_demo: "\<exists>n. init_thermal empty_sys (nl_demo nl_answer) (no_netlink, ()) = Some (False, n, ())"
  by (simp add: init_thermal_def prepare_netlink_def establish_netlink_def register_netlink_handler_def set_netlink_nonblocking_def
      nonneg_rc_def zero_rc_def receive_demo empty_sys_def SYSCONF_ERR_def INVALID_NL_FD_def)

section \<open>A session of the user interface\<close>

text \<open>A daemon that always gives the same answers, and a list that is never out of order.\<close>

definition demo_setup_text :: string where "demo_setup_text = ''SLEEP 10 BANNED 00000000''"

definition demo_stats_text :: string where "demo_stats_text = ''TYPE 3 NUMBER 0 LOAD 0 SAVE_MODE 0 TYPE 0 NUMBER 0 LOAD 0 SAVE_MODE 0 TYPE 0 NUMBER 1 LOAD 0 SAVE_MODE 0 IRQ 4 LOAD 9 DIFF 2 CLASS 5 ''"

definition demo_env :: ui_env where
  "demo_env = \<lparr> LINES = 24, answer = \<lambda>q n. Some (if q = SETUP then demo_setup_text else demo_stats_text), connects = \<lambda>n. True, name_lines = \<lambda>n. None,
     sort_int = \<lambda>f xs. xs, sort_cpu = \<lambda>f xs. xs, sort_irq = \<lambda>f xs. xs, undef_shift = \<lambda>n. 0, key_code = \<lambda>k. CHR ''k'', behind_input = [] \<rparr>"

definition demo_tree :: "ui_node list \<times> nat list" where
  "demo_tree = (case parse_into_tree (\<lambda>f xs. xs) (\<lambda>n. 0) (Some demo_stats_text) of Inl e \<Rightarrow> ([], []) | Inr nt \<Rightarrow> nt)"

definition demo_su :: ui_setup where "demo_su = \<lparr> su_sleep = 10, su_banned_irqs = [], su_banned_cpus = [] \<rparr>"

lemma demo_setup_parsed: "parse_setup (Some demo_setup_text) su0 = Inr demo_su" by code_simp

lemma demo_stats_parsed: "parse_into_tree (\<lambda>f xs. xs) (\<lambda>n. 0) (Some demo_stats_text) = Inr demo_tree" by code_simp

lemma demo_tree_ok: "tree_ok demo_tree" by code_simp

lemma demo_classes: "classes_ok (get_all_irqs demo_tree demo_su)" by code_simp

lemma demo_cpus: "list_all_cpus (\<lambda>f xs. xs) demo_tree demo_su [] = [\<lparr> c_number = 0, c_is_banned = False, c_is_changed = False \<rparr>, \<lparr> c_number = 1, c_is_banned = False, c_is_changed = False \<rparr>]" by code_simp

lemma env_ok_demo: "env_ok demo_env"
proof -
  note [simp] = demo_setup_parsed demo_stats_parsed
  have fields: "LINES demo_env = 24" "answer demo_env SETUP n = Some demo_setup_text" "answer demo_env STATS n = Some demo_stats_text"
    "sort_int demo_env = (\<lambda>f xs. xs)" "sort_cpu demo_env = (\<lambda>f xs. xs)" "sort_irq demo_env = (\<lambda>f xs. xs)" "undef_shift demo_env = (\<lambda>n. 0)" for n
    by (simp_all add: demo_env_def SETUP_def STATS_def)
  have "setups demo_env = {demo_su}" "trees demo_env = {demo_tree}" by (auto simp: setups_def trees_def fields)
  moreover have "lists_ok demo_env demo_tree demo_su"
    by (simp add: lists_ok_def fields demo_cpus demo_classes cpu_numbers_def upt_rec)
  moreover have "length demo_setup_text < default_bufsz" "length demo_stats_text < default_bufsz"
    by (simp_all add: default_bufsz_def demo_setup_text_def demo_stats_text_def)
  ultimately show ?thesis unfolding env_ok_def fields using demo_tree_ok by (cases demo_tree) simp
qed

definition demo_cpu_list :: "cpu_ban list" where
  "demo_cpu_list = [\<lparr> c_number = 0, c_is_banned = False, c_is_changed = False \<rparr>, \<lparr> c_number = 1, c_is_banned = False, c_is_changed = False \<rparr>]"

definition demo_ui :: ui where "demo_ui = initial_ui\<lparr> w_all_cpus := demo_cpu_list \<rparr>"

lemma demo_ui_fields:
  "w_all_cpus demo_ui = demo_cpu_list" "w_offset demo_ui = 0" "w_sent demo_ui = []" "cpus_ok demo_cpu_list" "length demo_cpu_list = 2"
  "LINES demo_env = 24" "connects demo_env n"
  by (simp_all add: demo_ui_def initial_ui_def demo_cpu_list_def cpus_ok_def cpu_numbers_def upt_rec demo_env_def)

section \<open>Sockets\<close>

text \<open>A machine without the directory for the socket: only the abstract address can be bound.\<close>

record demo_os =
  os_bound :: "int \<Rightarrow> string option"
  os_listening :: "int \<Rightarrow> bool"
  os_peers :: "int \<Rightarrow> string option"
  os_next :: int

definition os_accepts :: "demo_os \<Rightarrow> string set" where
  "os_accepts k = {a. \<exists>fd. os_listening k fd \<and> os_bound k fd = Some a}"

definition os_demo :: "demo_os socket_ops" where
  "os_demo = \<lparr> os_socket = \<lambda>k. (os_next k, k\<lparr> os_next := os_next k + 1 \<rparr>),
     os_bind = \<lambda>fd a k. if os_listening k fd \<or> hd a = CHR ''/'' then (- 1, k) else (0, k\<lparr> os_bound := (os_bound k)(fd := Some a) \<rparr>),
     os_setsockopt = \<lambda>fd k. (0, k), os_listen = \<lambda>fd k. (0, k\<lparr> os_listening := (os_listening k)(fd := True) \<rparr>),
     os_connect = \<lambda>fd a k. if a \<in> os_accepts k then (0, k\<lparr> os_peers := (os_peers k)(fd := Some a) \<rparr>) else (- 1, k),
     os_close = \<lambda>fd k. k, os_unlink = \<lambda>a k. k \<rparr>"

definition os_boot :: demo_os where
  "os_boot = \<lparr> os_bound = \<lambda>_. None, os_listening = \<lambda>_. False, os_peers = \<lambda>_. None, os_next = 3 \<rparr>"

lemma os_demo_laws: "socket_laws os_demo os_bound os_accepts os_peers"
proof -
  have "os_accepts (k\<lparr> os_listening := (os_listening k)(fd := True) \<rparr>) = insert a (os_accepts k)" if "os_bound k fd = Some a" for k fd a
    unfolding os_accepts_def using that by (auto split: if_splits) (metis option.inject)
  moreover have "os_accepts (k\<lparr> os_bound := (os_bound k)(fd := Some a) \<rparr>) = os_accepts k" if "\<not> os_listening k fd" for k fd a
    unfolding os_accepts_def using that by (auto split: if_splits)
  moreover have "os_accepts (k\<lparr> os_next := n \<rparr>) = os_accepts k" "os_accepts (k\<lparr> os_peers := p \<rparr>) = os_accepts k" for k n p
    by (simp_all add: os_accepts_def)
  ultimately show ?thesis by (simp add: socket_laws_def os_demo_def)
qed

lemma os_demo_boot: "\<exists>s k. init_socket os_demo 4711 (\<lparr> socket_fd = 0, socket_name = [], watches = [] \<rparr>, os_boot) = (0, s, k) \<and>
    socket_fd s = 3 \<and> os_next k = 4 \<and> os_bound k 3 = Some (sun_path 108 [])"
proof -
  have "hd (sun_path 108 (take 63 (socket_file 4711))) = CHR ''/''" "hd (sun_path 108 []) = CHR 0x00"
    by (simp_all add: sun_path_def socket_file_def SOCKET_TMPFS_def)
  then show ?thesis by (simp add: init_socket_def os_demo_def os_boot_def Let_def)
qed

end
