(* ===== verification/Witnesses.thy ===== *)
theory Witnesses
  imports Example_System
begin

text \<open>
  The theorems with hypotheses, applied to concrete bitmaps, to the example machine and to the two
  example kernels, so that each set of hypotheses is seen to hold somewhere.
\<close>

section \<open>Bitmaps\<close>

theorem bit_ops_change_one_bit_witness:
  "test_bit 65 [0, 2] = Some (array_bit [0, 2] (nat 65)) \<and> array_bit [0, 2] 65"
  using bit_ops_change_one_bit [of 65 "[0, 2]"] by (simp add: array_bit_def)

theorem bitmap_writes_are_set_operations_witness:
  "bits_of (bitmap_and [0] [12] [10] 5) 5 = bits_of [12] 5 \<inter> bits_of [10] 5 \<and> wf_bitmap [0] 5"
  using bitmap_writes_are_set_operations [of "[0]" 5 "[12]" "[10]"]
  by (simp add: wf_bitmap_def BITS_TO_LONGS_def)

theorem bitmap_queries_decide_sets_witness: "bitmap_weight [7, 0] 70 = card (bits_of [7, 0] 70)"
  using bitmap_queries_decide_sets [of 70 "[7, 0]"] by simp

theorem shifts_move_bits_witness:
  "array_bit (raw_bitmap_shift_left [0, 0] [1, 0] 65 100) 65 = (65 < (100::nat) \<and> 65 \<le> (65::nat) \<and> array_bit [1, 0] (65 - 65))"
  using shifts_move_bits [of "[0, 0]" 100 65 65 "[1, 0]"] by (simp add: wf_bitmap_def BITS_TO_LONGS_def)

theorem print_parse_roundtrip_witness:
  "\<exists>out mk. bitmap_scnprintf 100 [5] 40 = Some (out, length out) \<and>
    raw_bitmap_parse out [0] 40 = (Parsed, mk) \<and> clean_bitmap mk 40 \<and> bits_of mk 40 = bits_of [5] 40"
  using print_parse_roundtrip [of 40 "[0]" 100 "[5]"] by (simp add: wf_bitmap_def BITS_TO_LONGS_def)

theorem parselist_reads_ranges_witness:
  "\<exists>mk. raw_bitmap_parselist (list_text [(0, 3), (8, 8)]) [0] 10 = (Parsed, mk) \<and> wf_bitmap mk 10 \<and>
    bits_of mk 10 = (\<Union>(a, b) \<in> set [(0, 3), (8, 8)]. {a..b})"
  using parselist_reads_ranges [of "[0]" 10 "[(0, 3), (8, 8)]"]
  by (simp add: wf_bitmap_def BITS_TO_LONGS_def INT_MAX_def)

theorem usable_cpus_witness:
  "cpu_isset (int 1) (cpus_and CPU_MASK_NONE (mask_word 3) (cpus_complement CPU_MASK_NONE (mask_word 1))) = Some True"
  using usable_cpus [of CPU_MASK_NONE CPU_MASK_NONE 1 "mask_word 3" "mask_word 1"]
  by (simp add: cpus_of_mask_word NR_CPUS_def bit_simps)

section \<open>Lists and placement\<close>

theorem migrate_irq_obj_keeps_lists_witness: "irqs_ok (migrate_irq_obj None (Some 0) 1 demo)"
  using migrate_irq_obj_keeps_lists [OF irqs_ok_demo on_its_list_demo(2), of None "Some 0"] by simp

theorem migrate_irq_obj_accounts_witness:
  "t_slots_left (objs (migrate_irq_obj (Some 3) (Some 4) 1 demo_assigned) 4) = 6"
  using migrate_irq_obj_accounts [OF irqs_ok_demo_assigned on_its_list_demo_assigned, of 3 4]
  by (simp add: demo_assigned_def demo_defs INT_MAX_def)

theorem force_rebalance_irq_enqueues_witness: "1 \<in> set (rebalance_irq_list (force_rebalance_irq 1 demo_assigned))"
  using force_rebalance_irq_enqueues [OF irqs_ok_demo_assigned, of 1]
  by (simp add: demo_assigned_def demo_defs balance_levels)

theorem calculate_placement_keeps_lists_witness:
  "irqs_ok (calculate_placement insertion_sort demo) \<and> on_its_list (calculate_placement insertion_sort demo) 0"
  by (rule calculate_placement_keeps_lists [OF irqs_ok_demo sorts_insertion_sort on_its_list_demo(1)])

theorem calculate_placement_empties_rebalance_list_witness:
  "list_all (\<lambda>r. i_level (irqs (calculate_placement insertion_sort demo) r) = BALANCE_NONE)
    (rebalance_irq_list (calculate_placement insertion_sort demo))"
  unfolding list_all_iff
  by (rule calculate_placement_empties_rebalance_list
      [OF irqs_ok_demo slots_ok_demo nodes_typed_demo some_node_eligible_demo sorts_insertion_sort])

theorem calculate_placement_slot_bounds_witness:
  "0 \<le> t_slots_left (objs (calculate_placement insertion_sort demo) 3)"
  using calculate_placement_slot_bounds [OF irqs_ok_demo slots_ok_demo nodes_typed_demo sorts_insertion_sort, of 3] by simp


lemma place_irq_in_node_demo: "i_assigned_obj (irqs (place_irq_in_node 0 demo) 0) = Some 0"
proof -
  have "place_irq_in_node 0 demo = migrate_irq_obj None (Some 0) 0 demo"
    by (simp add: place_irq_in_node_def irq_numa_node_def demo_defs NUMA_NO_NODE_def balance_levels)
  then show ?thesis using migrate_irq_obj_effect(1) [OF irqs_ok_demo on_its_list_demo(1), of None "Some 0"] by simp
qed

theorem place_irq_in_node_avoids_banned_witness:
  "cpus_of (t_mask (objs demo 0)) \<inter> cpus_of (unbanned_cpus demo) \<noteq> {}"
  using place_irq_in_node_avoids_banned [OF irqs_ok_demo on_its_list_demo(1) _ nodes_typed_demo place_irq_in_node_demo]
  by (simp add: demo_defs)

theorem sort_irq_list_orders_witness:
  "mset (get_list RebalanceList (sort_irq_list insertion_sort RebalanceList demo)) = mset (get_list RebalanceList demo)"
  using sort_irq_list_orders [OF sorts_insertion_sort, of demo RebalanceList] by simp

section \<open>Activation\<close>

theorem check_affinity_after_write_witness:
  "check_affinity kernel_accepts 10 (mask_word 3) (affinity_text (mask_word 3))"
  using check_affinity_after_write [of kernel_accepts 10 "affinity_text (mask_word 3)" "mask_word 3" "mask_word 3"]
  by (simp add: kernel_accepts_def)

theorem find_best_cpu_under_obj_is_optimal_witness:
  "under demo_assigned 2 4 \<and> is_valid_fallback demo_assigned 4 3 (cpus_clear CPU_MASK_NONE)"
  using find_best_cpu_under_obj_is_optimal [OF tree_descends_demo(2), of 2 3 "cpus_clear CPU_MASK_NONE"]
  by (simp add: find_best_demo)

theorem find_best_cpu_under_obj_terminates_witness:
  "find_best_cpu_under_obj 9 demo_assigned 2 3 (cpus_clear CPU_MASK_NONE) = Some 4"
  by (rule trans [OF find_best_cpu_under_obj_terminates [OF tree_descends_demo(2)] find_best_demo])
    (simp add: TOPO_DEPTH_def)

lemma level_demo: "i_level (irqs demo_assigned 1) = BALANCE_CACHE"
  and assigned_demo: "i_assigned_obj (irqs demo_assigned 1) = Some 3"
  by (simp_all add: demo_assigned_def demo_defs)

lemma write_demo:
  "write_fallback kernel_accepts irq m k = (Inr (), affinity_text m)"
  "write_fallback kernel_full irq m k = (Inl (Some Err_ENOSPC), affinity_text m)"
  by (simp_all add: write_fallback_def kernel_full_def kernel_accepts_def)

lemma find_best_demo_full:
  "find_best_cpu_under_obj TOPO_DEPTH (set_slots 4 SLOTS_SATURATED demo_assigned) 2 3 tried = None"
  by (simp add: TOPO_DEPTH_def numeral_eq_Suc better_cpu_def is_valid_fallback_def SLOTS_SATURATED_def
      set_slots_def demo_assigned_def demo_defs)

lemma try_fallback_demo:
  "try_fallback_cpu ops 1 3 demo_assigned k = fallback_loop ops 1 3 2 (Suc (Suc 6)) (cpus_clear CPU_MASK_NONE) demo_assigned k"
proof -
  have "BALANCE_CACHE \<noteq> BALANCE_CORE" "BALANCE_CACHE \<noteq> BALANCE_NONE" "MAX_FALLBACK_ATTEMPTS = Suc (Suc 6)"
    by (simp_all add: balance_levels MAX_FALLBACK_ATTEMPTS_def)
  then show ?thesis
    unfolding try_fallback_cpu_def Let_def level_demo fallback_scope_demo option.case by (simp only: if_False)
qed

lemma fallback_demo:
  "fst (try_fallback_cpu kernel_accepts 1 3 demo_assigned [])"
  "\<not> fst (try_fallback_cpu kernel_full 1 3 demo_assigned [])"
proof -
  show "fst (try_fallback_cpu kernel_accepts 1 3 demo_assigned [])"
    unfolding try_fallback_demo
    by (simp only: fallback_loop.simps find_best_demo option.case Let_def write_demo prod.case sum.case fst_conv)
  have undo: "set_assigned 1 (Some 3) (set_slots 4 SLOTS_SATURATED (set_assigned 1 (Some 4) demo_assigned))
      = set_slots 4 SLOTS_SATURATED demo_assigned"
    using set_assigned_back [of "set_slots 4 SLOTS_SATURATED demo_assigned" 1 3 "Some 4"] assigned_demo
    by (simp add: set_assigned_set_slots) (simp add: set_slots_def)
  show "\<not> fst (try_fallback_cpu kernel_full 1 3 demo_assigned [])"
    unfolding try_fallback_demo
    by (simp only: fallback_loop.simps find_best_demo find_best_demo_full option.case Let_def write_demo prod.case
        sum.case fst_conv undo refl if_True not_False_eq_True)
qed

theorem try_fallback_cpu_success_witness:
  "irqs_ok (fst (snd (try_fallback_cpu kernel_accepts 1 3 demo_assigned [])))"
proof -
  obtain s' k' where "try_fallback_cpu kernel_accepts 1 3 demo_assigned [] = (True, s', k')"
    using fallback_demo(1) by (metis fst_conv prod_cases3)
  with try_fallback_cpu_success [OF irqs_ok_demo_assigned on_its_list_demo_assigned assigned_demo tree_descends_demo(2) this]
  show ?thesis by simp
qed


theorem activate_mappings_keeps_lists_witness: "irqs_ok (fst (activate_mappings kernel_full (demo_assigned, [])))"
  using activate_mappings_keeps_lists [OF irqs_ok_demo_assigned tree_descends_demo(2), of kernel_full "[]"] by simp


section \<open>Imbalance\<close>

theorem update_migration_status_keeps_lists_witness:
  "irqs_ok (update_migration_status insertion_sort demo_assigned)"
  using update_migration_status_keeps_lists [OF irqs_ok_demo_assigned sorts_insertion_sort] by simp

text \<open>The first CPU carries more load than its interrupt.\<close>

definition demo_loaded :: state where
  "demo_loaded = upd_obj 3 (t_load_update (\<lambda>_. 100)) (demo_assigned\<lparr> power_thresh := 1, cycle_count := 6 \<rparr>)"

lemma irqs_ok_loaded: "irqs_ok demo_loaded"
proof -
  have "get_list l demo_loaded = (if l = Interrupts 3 then [1] else [])" for l
    by (cases l) (simp_all add: demo_loaded_def demo_assigned_def demo_defs)
  then show ?thesis unfolding irqs_ok_def by (simp add: demo_loaded_def demo_assigned_def demo_defs)
qed


theorem update_powersave_evacuates_witness:
  "1 \<in> set (rebalance_irq_list (update_powersave (zero_info\<lparr> num_under := 1, powersave := Some 3 \<rparr>) demo_loaded))"
  using update_powersave_evacuates [OF irqs_ok_loaded, of "zero_info\<lparr> num_under := 1, powersave := Some 3 \<rparr>" 3 1]
  by (simp add: demo_loaded_def demo_assigned_def demo_defs zero_info_def balance_levels ULONG_MAX_def)

section \<open>The tree and the database\<close>

definition first_nodes :: state where
  "first_nodes = build_numa_node_list empty_sys (initial_state [])"

lemma initial_lists: "packages (initial_state fs) = []" "cache_domains (initial_state fs) = []" "cpus (initial_state fs) = []"
  "unbanned_cpus (initial_state fs) = CPU_MASK_NONE"
  by (simp_all add: initial_state_def)

theorem parse_cpu_tree_builds_typed_tree_witness:
  "list_all (\<lambda>d. t_obj_type (objs (the (parse_cpu_tree empty_sys first_nodes)) d) = OBJ_TYPE_NODE)
    (numa_nodes (the (parse_cpu_tree empty_sys first_nodes)))"
proof -
  obtain s' where run: "parse_cpu_tree empty_sys first_nodes = Some s'" by (simp add: parse_cpu_tree_def empty_sys_def Let_def)
  have "topo_inv {} first_nodes" using topo_inv_build_numa freed_initial by (simp add: first_nodes_def freed_def)
  from parse_cpu_tree_builds_typed_tree [OF this _ _ _ _ run]
  have "t_obj_type (objs s' d) = OBJ_TYPE_NODE" if "d \<in> set (master OBJ_TYPE_NODE s')" for d
    using that by (simp add: first_nodes_def build_numa_lists initial_lists)
  with run show ?thesis by (simp add: list_all_iff)
qed

theorem rebuild_irq_db_is_sound_witness: "db_inv (rebuild_irq_db empty_sys demo)"
  using rebuild_irq_db_is_sound [of demo empty_sys] by (simp add: demo_defs)


theorem proc_irq_hotplug_keeps_database_witness: "db_inv (snd (proc_irq_hotplug empty_sys '' 20:  7  PCI-MSI eth1'' 20 demo_running))"
proof -
  have "get_irq_info 20 demo_running = None" by (simp add: get_irq_info_None) (simp add: running_defs)
  from proc_irq_hotplug_keeps_database [OF db_inv_running this prod.collapse [symmetric]] show ?thesis by blast
qed

definition script_sys :: sys where
  "script_sys = empty_sys\<lparr> stat := (\<lambda>_. Some \<lparr> st_isdir = False, st_isreg = True, st_ixusr = True \<rparr>),
     popen_script := (\<lambda>_ _ _. Some (''ban=true'' @ [CHR 0x0A], 1)) \<rparr>"


section \<open>Load\<close>

theorem share_loads_is_defined_witness: "\<exists>s'. share_loads demo = Some s' \<and> same_frame demo s'"
  using share_loads_is_defined [OF topo_inv_demo(1)] by blast

theorem scale_load_exact_witness: "scale_load 100 7 = Some 70000000"
  using scale_load_exact [of 100 7] by simp

definition demo_counted :: state where
  "demo_counted = demo_assigned\<lparr> irqs := (irqs demo_assigned)(1 := (irqs demo_assigned 1)\<lparr> i_irq_count := 10 \<rparr>),
     objs := (objs demo_assigned)(3 := (objs demo_assigned 3)\<lparr> t_load := 100 \<rparr>, 4 := (objs demo_assigned 4)\<lparr> t_load := 30 \<rparr>) \<rparr>"

lemmas counted_defs = demo_counted_def demo_assigned_def demo_defs

lemma topo_inv_counted: "topo_inv {} demo_counted"
proof -
  have "live {} demo_counted = {0, 1, 2, 3, 4}" by (auto simp: live_lists counted_defs)
  then show ?thesis unfolding topo_inv_def by (simp add: all_obj_types counted_defs blank_def less_obj_type_e_def)
qed

lemma irqs_ok_counted: "irqs_ok demo_counted"
proof -
  have "get_list l demo_counted = (if l = Interrupts 3 then [1] else [])" for l by (cases l) (simp_all add: counted_defs)
  then show ?thesis unfolding irqs_ok_def by (simp add: counted_defs)
qed

lemma under_counted: "under demo_counted 0 2" "under demo_counted 0 3" "under demo_counted 0 4"
proof -
  have up: "under demo_counted 0 x" if "under demo_counted 2 x" for x
    by (rule under_child [of 1 _ 0], simp add: counted_defs, rule under_child [of 2 _ 1], simp add: counted_defs, rule that)
  have down: "under demo_counted 2 x" if "x \<in> {3, 4}" for x
    by (rule under_child [of x]) (use that in \<open>auto simp: counted_defs intro: under_self\<close>)
  show "under demo_counted 0 2" by (rule up) (rule under_self)
  show "under demo_counted 0 3" "under demo_counted 0 4" by (rule up, rule down, simp)+
qed

lemma nodes_counted: "0 \<in> set (numa_nodes demo_counted)"
  by (simp add: counted_defs)

theorem share_loads_aggregates_witness: "t_load (objs (the (share_loads demo_counted)) 2) = 130"
proof -
  obtain s' where run: "share_loads demo_counted = Some s'" using share_loads_defined [OF topo_inv_counted] by blast
  note load = share_loads_aggregates [OF topo_inv_counted run nodes_counted]
  from load [OF under_counted(1)] load [OF under_counted(2)] load [OF under_counted(3)] run show ?thesis
    by (simp add: counted_defs)
qed


section \<open>Thermal events\<close>

definition no_reports :: thermal where
  "no_reports = \<lparr> banmask = CPU_MASK_NONE, itrmask = CPU_MASK_NONE, retry = 0 \<rparr>"

theorem thermal_round_witness:
  "\<exists>t' s'. receive_thermal_event empty_sys True (map report_msg [[(0, 0, 0)], [(1, 5, 5)]]) 0 (no_reports, demo) = Some (True, t', s')
    \<and> cpus_of (thermal_banned_cpus s') = banned_by [(0, 0, 0), (1, 5, 5)]"
  using thermal_round [of no_reports demo "[[(0, 0, 0)], [(1, 5, 5)]]" empty_sys]
  by (auto simp: no_reports_def NR_CPUS_def empty_sys_def demo_defs)

theorem thermal_event_out_of_range_witness:
  "handle_thermal_event empty_sys (report_msg [(NR_CPUS, 0, 0)]) (no_reports, demo) = None"
  by (rule thermal_event_out_of_range) (simp_all add: no_reports_def)

section \<open>The daemon\<close>

theorem startup_establishes_invariant_witness:
  "balance_inv (d_state (snd (the (startup (\<lambda>_. empty_sys) (- 1) 100 (initial_daemon [])))))"
proof -
  obtain b d' where run: "startup (\<lambda>_. empty_sys) (- 1) 100 (initial_daemon []) = Some (b, d')"
  proof -
    have "parse_cpu_tree empty_sys s \<noteq> None" "parse_proc_stat empty_sys s = Some s" for s
      by (simp_all add: parse_cpu_tree_def parse_proc_stat_def empty_sys_def Let_def)
    moreover from this(1) obtain s where "parse_cpu_tree empty_sys (build_numa_node_list empty_sys
        (d_state (startup_config empty_sys (- 1) 100 (initial_daemon [])))) = Some s" by blast
    ultimately have "startup (\<lambda>_. empty_sys) (- 1) 100 (initial_daemon []) \<noteq> None"
      by (auto simp: startup_def build_object_tree_def Let_def)
    then show thesis using that by fastforce
  qed
  from startup_establishes_invariant [OF _ run, of "[]" "[]"] run show ?thesis by simp
qed

lemma sleep_daemon: "1 \<le> sleep_interval demo_daemon" "balance_inv (d_state demo_daemon)"
  by (simp_all add: demo_daemon_def initial_daemon_def SLEEP_INTERVAL_def balance_inv_running)

lemma hangup_run: "main_loop_run g ops demo_daemon k (force_rescan demo_daemon) k"
  by (rule main_loop_run.hangup) (rule main_loop_run.begins)

lemma signal_run: "main_loop_run g ops demo_daemon k (handler demo_daemon) k"
  by (rule main_loop_run.signal) (rule main_loop_run.begins)

theorem main_loop_keeps_invariant_witness: "balance_inv (d_state (force_rescan demo_daemon))"
  using main_loop_keeps_invariant [OF hangup_run sorts_insertion_sort sleep_daemon(2,1)] by blast

theorem assignments_are_live_witness: "3 \<in> live {} (d_state (handler demo_daemon))"
  using assignments_are_live [OF signal_run sorts_insertion_sort sleep_daemon(2,1), of 1 3]
  by (simp add: handler_def demo_daemon_def) (simp add: running_defs)

theorem bans_hold_witness: "12 \<notin> (\<lambda>r. i_irq (irqs (d_state (handler demo_daemon)) r)) ` set (interrupts_db (d_state (handler demo_daemon)))"
  using bans_hold [OF signal_run sorts_insertion_sort sleep_daemon(2,1)]
  by (simp add: handler_def demo_daemon_def) (simp add: running_defs)


section \<open>The user interface\<close>

theorem commands_need_root_witness:
  "sock_handle True \<lparr> accepted = True, recv_size = 5, buff = ''stats'', cmsg = Some (True, 1000) \<rparr> demo_daemon = Some (None, demo_daemon)"
  by (rule commands_need_root) simp

theorem stats_buffers_suffice_witness:
  "\<exists>stats s'. foldM (get_object_stat TOPO_DEPTH) [0] (None, demo_running) = Some (stats, s') \<and> only_memory demo_running s'"
  using stats_buffers_suffice [OF topo_inv_descends [OF topo_inv_demo(2)] ui_ok_running(1)] by simp

theorem ui_reads_statistics_witness:
  "\<exists>stats nodes tree. stats_reply demo_daemon = Some (Some stats, demo_daemon) \<and> parse_into_tree (\<lambda>_ xs. xs) (\<lambda>_. 0) (Some stats) = Inr (nodes, tree)
    \<and> map node_fields nodes = map (ui_node_of demo_running) [0, 1, 2, 3, 4]"
  using ui_reads_statistics [of demo_daemon "\<lambda>_ xs. xs" "\<lambda>_. 0"] topo_inv_demo(2) ui_ok_running by (simp add: demo_daemon_state)

theorem ui_rebuilds_tree_witness:
  "\<exists>stats nodes tree. stats_reply demo_daemon = Some (Some stats, demo_daemon) \<and> parse_into_tree (\<lambda>_ xs. xs) (\<lambda>_. 0) (Some stats) = Inr (nodes, tree)
    \<and> placed demo_running [0, 1, 2, 3, 4] nodes"
  using ui_rebuilds_tree [of demo_daemon "\<lambda>_ xs. xs" "\<lambda>_. 0"] topo_inv_demo(2) ui_ok_running by (simp add: demo_daemon_state)

theorem ui_reads_setup_witness:
  "\<exists>reply. setup_reply demo_daemon = Some (Some reply, demo_daemon) \<and>
    parse_setup (Some reply) \<lparr> su_sleep = 0, su_banned_irqs = [], su_banned_cpus = [] \<rparr> =
      Inr \<lparr> su_sleep = 10, su_banned_irqs = [ui_irq_of True (irqs demo_running 2)],
            su_banned_cpus = map int (filter (array_bit CPU_MASK_NONE) [0..<NR_CPUS]) \<rparr>"
  using ui_reads_setup [of demo_daemon "\<lparr> su_sleep = 0, su_banned_irqs = [], su_banned_cpus = [] \<rparr>"] ui_ok_running none_text
  by (simp add: demo_daemon_state)

theorem ui_bans_cpus_witness:
  "\<exists>d'. sock_handle True (root_message (cpu_ban_command [\<lparr> c_number = 0, c_is_banned = False, c_is_changed = False \<rparr>, \<lparr> c_number = 1, c_is_banned = True, c_is_changed = True \<rparr>]))
      demo_daemon = Some (None, d') \<and> need_rescan (d_state d') \<and> cpus_of (banned_cpus (setup_banned_cpus empty_sys (d_state d'))) = {1}"
  using ui_bans_cpus [of "root_message (cpu_ban_command [\<lparr> c_number = 0, c_is_banned = False, c_is_changed = False \<rparr>, \<lparr> c_number = 1, c_is_banned = True, c_is_changed = True \<rparr>])"
      "[\<lparr> c_number = 0, c_is_banned = False, c_is_changed = False \<rparr>, \<lparr> c_number = 1, c_is_banned = True, c_is_changed = True \<rparr>]" demo_daemon "[1]" empty_sys]
  by (simp add: carries_root_message demo_daemon_state ui_ok_running ban_text_defs)


theorem ui_shows_cpu_list_witness:
  "\<exists>shown mk. print_assigned_objects_string 0 ((ui_irq_of False (irqs demo_running 1))\<lparr> u_assigned_to := [0, 1, 4] \<rparr>) = Some shown \<and>
    raw_bitmap_parselist shown [0] 10 = (Parsed, mk) \<and> bits_of mk 10 = {0, 1, 4}"
  using ui_shows_cpu_list [of "(ui_irq_of False (irqs demo_running 1))\<lparr> u_assigned_to := [0, 1, 4] \<rparr>" 0 "[1, 4]" "[0]" 10 0]
  by (simp add: ui_irq_of_def ban_text_defs range_text_def wf_bitmap_def BITS_TO_LONGS_def INT_MAX_def)


section \<open>The netlink connection\<close>

theorem init_thermal_all_or_nothing_witness:
  "\<exists>n. init_thermal empty_sys (nl_demo nl_answer) (no_netlink, ()) = Some (False, n, ()) \<and> held n = [Callback, Socket]"
proof -
  obtain n where n: "init_thermal empty_sys (nl_demo nl_answer) (no_netlink, ()) = Some (False, n, ())" using init_demo by blast
  from init_thermal_all_or_nothing [OF n] n show ?thesis by auto
qed


section \<open>A session of the user interface\<close>




section \<open>The socket\<close>


end
