(* ===== verification/Spec2Isabelle.thy ===== *)
theory Spec2Isabelle
  imports Witnesses
begin

text \<open>
  Verification of irqbalance, the daemon that distributes hardware interrupts over the CPUs of a
  multiprocessor, and of its user interface irqbalance-ui.

  \<^bold>\<open>The program.\<close> The daemon (\<open>irqbalance.c\<close>) reads its options, builds a tree of NUMA nodes, packages, cache
  domains and CPUs from \<open>/sys\<close> (\<open>numa.c\<close>, \<open>cputree.c\<close>) and a database of interrupts from \<open>/proc/interrupts\<close> and the
  PCI devices (\<open>classify.c\<close>, \<open>procinterrupts.c\<close>). Then it repeats a scan: it reads the counters of interrupts and the
  load of the CPUs (\<open>procinterrupts.c\<close>), takes interrupts away from overloaded objects (\<open>irqlist.c\<close>), places the
  waiting interrupts in the tree (\<open>placement.c\<close>) and writes the affinities to the kernel (\<open>activate.c\<close>). A change of the
  hardware, a signal, a command or a thermal event asks for a rescan, in which the tree and the database are
  freed and built again. Thermal events arrive over netlink (\<open>thermal.c\<close>). The user interface (\<open>ui/\<close>) asks
  the daemon over a socket for its statistics and its setup, shows them, and sends back the interval, the CPUs
  and the interrupts that the user bans. CPU sets are bitmaps (\<open>bitmap.c\<close>, \<open>cpumask.h\<close>).

  \<^bold>\<open>How the program is modelled.\<close> Machine integers keep their width (\<open>u64\<close>, \<open>u32\<close>, \<open>u16\<close> are words; an \<open>int\<close> of C is an
  \<open>int\<close> where it cannot overflow, with the conversion written out where it can). The objects of the tree and the
  interrupts live in two stores, \<open>objs\<close> and \<open>irqs\<close> of the record \<open>state\<close>, and pointers are their addresses, so that
  aliasing and freed objects are visible. The \<open>GList\<close>s are lists of addresses. A null pointer that is
  followed, a write outside of an array and a buffer that is too small are the value \<open>None\<close>, or \<open>Inl\<close> of an error
  for the user interface; \<open>exit\<close> is an error value too. Whether an allocation fails is decided by the list
  \<open>mem_fails\<close> of the state: the n-th allocation fails if the n-th entry says so, and succeeds after the end of the list.

  \<^bold>\<open>What is a parameter.\<close> The file system is the record \<open>sys\<close> (lines of files, entries of directories, links, the
  output of scripts, the environment variables, the number of CPUs). A scan reads the system several times, and every reading may
  see another one. The kernel that accepts or refuses an affinity is \<open>kernel_ops\<close> with a state of its
  own. libnl is \<open>nl_ops\<close>, the socket calls are \<open>socket_ops\<close> with their documented behaviour in \<open>socket_laws\<close>. \<open>g_list_sort\<close> is a parameter everywhere; where a theorem needs it, the hypothesis is that it
  permutes its list. \<open>getopt_long\<close> gives a list of options. For the user interface \<open>ui_env\<close> has the height of the
  terminal, the answers of the daemon to every question, and whether a command gets through; keys are a
  list. What C leaves undefined (\<open>1 << 31\<close>) and the bytes behind a buffer are parameters as well.

  \<^bold>\<open>The theories, in the order in which they build on each other.\<close>

  \<^item> \<open>Prelude\<close>: types, collections of facts (\<open>bm_simps\<close>, \<open>frame_simps\<close>, \<open>inv_intros\<close>), folds and lists.
  \<^item> \<open>Bitops\<close>: \<open>non-atomic.h\<close>, and the population counts and \<open>fls\<close> of \<open>bitmap.h\<close>. The word-parallel counts give the number of set bits.
  \<^item> \<open>Bitmap\<close>: every function of \<open>bitmap.c\<close> on the words of a bitmap. The operations refine set operations, the shift
    in place equals the shift between two arrays.
  \<^item> \<open>Bitmap_Text\<close>: the printer and the two parsers of \<open>bitmap.c\<close>; round trips.
  \<^item> \<open>Cpumask\<close>: \<open>cpumask.h\<close>. The locale \<open>cpu_sets\<close> states what the rest of the daemon uses of CPU masks; its interpretation on
    the masks of \<open>NR_CPUS\<close> bits rests on the lemmas of \<open>Bitmap\<close>.
  \<^item> \<open>Ctext\<close>, \<open>Sysfs\<close>: the C and GLib functions that read text, and the readers of \<open>cputree.c\<close>.
  \<^item> \<open>Topology\<close>: \<open>types.h\<close>, \<open>irqbalance.h\<close> and the lists of interrupts (\<open>migrate_irq_obj\<close>); \<open>irqs_ok\<close> says that
    lists and fields agree.
  \<^item> \<open>Placement\<close>, \<open>Activate\<close>, \<open>Irqlist\<close>: \<open>placement.c\<close>, \<open>activate.c\<close>, \<open>irqlist.c\<close>. The locale \<open>placement_invariant\<close> proves
    once that a property kept by the moves of the placement is kept by the whole of it; it is interpreted for
    the agreement of lists and fields, for slots, levels and waiting interrupts. The fallback of the activation
    is shown optimal, and its success and failure are described completely.
  \<^item> \<open>Numa\<close>, \<open>Cputree\<close>: \<open>numa.c\<close> and \<open>cputree.c\<close>. Whatever the files say, the tree is well typed.
  \<^item> \<open>Classify\<close>: \<open>classify.c\<close> and the first half of \<open>procinterrupts.c\<close>, with policy scripts and the PCI classes.
  \<^item> \<open>Classify_Arm\<close>: the same for AARCH64, where names are matched with regular expressions; every name gets a known class.
  \<^item> \<open>Procstat\<close>: counters and load. The locale \<open>tree_pass\<close> is a pass over the levels of the tree that gives every object
    the sum of its children; it is interpreted for loads and for counts of interrupts.
  \<^item> \<open>Thermal\<close>, \<open>Netlink\<close>: the events of \<open>thermal.c\<close>, and the connection with what is held on every path of errors.
  \<^item> \<open>Daemon\<close>: options, start, scan, signals, the socket commands and the end of \<open>irqbalance.c\<close>.
  \<^item> \<open>Balance_Inv\<close>, \<open>Daemon_Safety\<close>: the invariant \<open>balance_inv\<close> of the whole state. The inductive relation \<open>main_loop_run\<close>
    interleaves scans, signals, commands and thermal events in any order; every state that it reaches satisfies
    the invariant, and every start establishes it.
  \<^item> \<open>Commands\<close>: who may give commands, and that the buffers of the replies suffice.
  \<^item> \<open>Socket\<close>: \<open>init_socket\<close> and \<open>init_connection\<close>. The user interface finds the daemon at either of its addresses.
  \<^item> \<open>Ui\<close>, \<open>Ui_Replies\<close>, \<open>Ui_Settings\<close>: what the user interface computes from the replies and sends back
    (\<open>ui/irqbalance-ui.c\<close>, \<open>ui/helpers.c\<close>, \<open>ui/ui.c\<close>), composed with the daemon that answers and obeys.
  \<^item> \<open>Ui_Windows\<close>, \<open>Ui_Dialogs\<close>, \<open>Ui_Session\<close>: windows, dialogs and keys. The locale \<open>dialog\<close> is a loop over keys with an invariant
    of the dialog and a condition for leaving it, interpreted for the dialogs of CPUs and of interrupts. No
    sequence of keys makes the program fail, and the keys that choose a CPU ban it in the daemon.
  \<^item> \<open>Example_System\<close>, \<open>Witnesses\<close>: an example machine, kernels, a library and a terminal, on which the
    theorems with hypotheses are applied.

  \<^bold>\<open>Bounds and fuel.\<close> Walks up or down the tree take \<open>TOPO_DEPTH\<close> = 4 steps, the number of types of objects: types
  strictly decrease from an object to its children, so no walk is cut off. Where the tree is not known to be
  well typed, running out of fuel is \<open>None\<close>, and the theorems show that it does not happen
  (\<open>share_loads_is_defined\<close>, \<open>stats_buffers_suffice\<close>). A rebuild is tried three times as in the source. The tree of the user
  interface is walked with the number of its nodes as fuel. The fallback tries 8 CPUs as in the source.
  The loop that waits for the answer of the kernel in \<open>establish_netlink\<close> may run for ever and is a
  \<open>partial_function\<close>; a theorem says exactly when it returns. All other loops end by their measure.

  \<^bold>\<open>Not modelled.\<close> Logging and the dump functions (\<open>dump_tree\<close> and the like), \<open>usage\<close> and \<open>version\<close>: only output. The credentials
  (\<open>create_credentials_msg\<close>), daemonising, the pid file and dropping capabilities: system calls without effect on the
  state. The option parser for systems without \<open>getopt_long\<close>. In the user interface the frame, the
  footer, the lines that name the keys and the setup of ncurses. The functions that \<open>bitmap.h\<close> and \<open>cpumask.h\<close> declare
  but no file defines. The standard deviation of the loads is kept as its square, and the conversion of
  loads uses the rounding of doubles to 53 bits.
\<close>

end
